(* ===== verification/Prelude.thy ===== *)
theory Prelude
  imports Main "HOL-Library.Word"
begin

text \<open>
  Shared vocabulary of the development: the machine types of the C++ code, the
  ways an operation can fail, the result of a system call, sequencing of
  fallible operations, and the generic lemmas on words and lists that the
  component theories use.
\<close>

section \<open>Types\<close>

text \<open>\<open>size_t\<close> on the LP64 targets of the library, a byte, and an object address.\<close>

type_synonym size_t = "64 word"
type_synonym byte = "8 word"
type_synonym ptr = nat

text \<open>
  How an operation of the source can fail instead of returning: \<open>LOG_FATAL\<close>
  ends in \<open>exit(-1)\<close>; an \<open>assert\<close> of the source does not hold; a null pointer
  is dereferenced; memory outside an object is touched; \<open>std::vector\<close> is asked
  to grow beyond \<open>max_size()\<close>; an integer is divided by zero; an empty
  \<open>std::function\<close> is called; a signed counter is incremented beyond its range; the C++ runtime
  calls \<open>std::terminate\<close>.
\<close>

datatype error =
    FatalExit
  | AssertionFailed
  | NullPointer
  | OutOfBounds
  | LengthError
  | DivByZero
  | BadFunctionCall
  | SignedOverflow
  | Terminated

text \<open>
  The outcome of a system call: a non-negative return value with its payload,
  or \<open>-1\<close> together with the value left in \<open>errno\<close>.
\<close>

datatype 'a sysret = SOk 'a | SErr int

text \<open>Sequencing of operations that may fail: the first failure ends the run.\<close>

fun and_then :: "error + 'a \<Rightarrow> ('a \<Rightarrow> error + 'b) \<Rightarrow> error + 'b" where
  "and_then (Inl e) f = Inl e"
| "and_then (Inr x) f = f x"

fun fold_r :: "('a \<Rightarrow> 's \<Rightarrow> error + 's) \<Rightarrow> 'a list \<Rightarrow> 's \<Rightarrow> error + 's" where
  "fold_r f [] s = Inr s"
| "fold_r f (x # xs) s = and_then (f x s) (fold_r f xs)"

definition guard_r :: "error \<Rightarrow> bool \<Rightarrow> 's \<Rightarrow> error + 's" where
  "guard_r e b s = (if b then Inr s else Inl e)"

text \<open>Overwriting a stretch of an array that starts at index \<open>i\<close>.\<close>

definition overwrite :: "'a list \<Rightarrow> nat \<Rightarrow> 'a list \<Rightarrow> 'a list" where
  "overwrite xs i ys = take i xs @ ys @ drop (i + length ys) xs"

section \<open>Collections of rewrite rules\<close>

named_theorems word_nat \<open>word arithmetic read through unat\<close>
named_theorems frame \<open>fields an operation leaves alone\<close>

section \<open>Results\<close>

lemma and_then_Inr_iff:
  "and_then m f = Inr y \<longleftrightarrow> (\<exists>x. m = Inr x \<and> f x = Inr y)"
  by (cases m) auto

lemma and_then_Inl_iff:
  "and_then m f = Inl e \<longleftrightarrow> m = Inl e \<or> (\<exists>x. m = Inr x \<and> f x = Inl e)"
  by (cases m) auto

lemma and_then_assoc: "and_then (and_then m f) g = and_then m (\<lambda>x. and_then (f x) g)"
  by (cases m) auto

lemma and_then_return [simp]: "and_then m Inr = m"
  by (cases m) auto

lemma and_then_fold_Nil [simp]: "and_then m (fold_r f []) = m"
  by (cases m) auto

lemma guard_r_Inr_iff [simp]: "guard_r e b s = Inr t \<longleftrightarrow> b \<and> t = s"
  by (auto simp: guard_r_def)

lemma guard_r_True [simp]: "guard_r e True s = Inr s"
  by (simp add: guard_r_def)

lemma fold_r_append: "fold_r f (xs @ ys) s = and_then (fold_r f xs s) (fold_r f ys)"
proof (induction xs arbitrary: s)
  case Nil
  then show ?case by simp
next
  case (Cons x xs)
  then show ?case by (cases "f x s") simp_all
qed

lemma fold_r_invariant:
  assumes "P s"
    and "\<And>x s. x \<in> set xs \<Longrightarrow> P s \<Longrightarrow> \<exists>t. f x s = Inr t \<and> P t"
  shows "\<exists>t. fold_r f xs s = Inr t \<and> P t"
  using assms
proof (induction xs arbitrary: s)
  case Nil
  then show ?case by simp
next
  case (Cons x xs)
  from Cons.prems obtain t where "f x s = Inr t" and "P t"
    by (metis list.set_intros(1))
  with Cons show ?case by simp
qed

lemma fold_r_preserves:
  assumes "fold_r f xs s = Inr t" and "P s"
    and "\<And>x s t. x \<in> set xs \<Longrightarrow> P s \<Longrightarrow> f x s = Inr t \<Longrightarrow> P t"
  shows "P t"
  using assms
proof (induction xs arbitrary: s)
  case Nil
  then show ?case by simp
next
  case (Cons x xs)
  from Cons.prems(1) obtain u where u: "f x s = Inr u" and "fold_r f xs u = Inr t"
    by (auto simp: and_then_Inr_iff)
  moreover have "P u" using Cons.prems(2,3) u by auto
  ultimately show ?case using Cons.IH Cons.prems(3) by auto
qed

lemma option_eqI: "(\<And>v. x = Some v \<longleftrightarrow> y = Some v) \<Longrightarrow> x = y"
  by (cases x; cases y) auto

section \<open>Words as naturals\<close>

lemma unat_add_nowrap [word_nat]:
  "unat a + unat b < 18446744073709551616 \<Longrightarrow> unat (a + b) = unat a + unat b"
  for a b :: size_t
  using unat_add_lem [of a b] by simp

lemma unat_sub_nowrap [word_nat]:
  "unat b \<le> unat a \<Longrightarrow> unat (a - b) = unat a - unat b"
  for a b :: size_t
  by (rule unat_sub) (simp add: word_le_nat_alt)

lemma unat_of_nat_small [word_nat]:
  "n < 18446744073709551616 \<Longrightarrow> unat (of_nat n :: size_t) = n"
  by (simp add: unat_of_nat take_bit_nat_eq_self)

lemma unat_bound64 [simp]: "unat (a :: size_t) < 2 ^ 64"
  using unsigned_less [of a] by simp

lemmas word_cmp = word_le_nat_alt word_less_nat_alt

section \<open>Arrays\<close>

lemma length_overwrite [simp]:
  "i + length ys \<le> length xs \<Longrightarrow> length (overwrite xs i ys) = length xs"
  by (simp add: overwrite_def)

lemma overwrite_Nil [simp]: "overwrite xs i [] = xs"
  by (simp add: overwrite_def)

lemma take_overwrite_before: "n \<le> i \<Longrightarrow> i \<le> length xs \<Longrightarrow> take n (overwrite xs i ys) = take n xs"
  by (simp add: overwrite_def)

lemma overwrite_window:
  assumes "r \<le> w" and "w + length ys \<le> length xs"
  shows "take (w - r + length ys) (drop r (overwrite xs w ys)) = take (w - r) (drop r xs) @ ys"
  using assms by (simp add: overwrite_def take_drop)

end
