(* ===== verification/Timestamps.thy ===== *)
theory Timestamps
  imports Complex_Main Prelude
begin

text \<open>
  The classes \<open>Timestamp\<close> and \<open>MonotonicTimestamp\<close> (include/ and src/Timestamp,
  include/ and src/MonotonicTimestamp): a count of microseconds with its order and
  \<open>addTime\<close>, which adds a \<open>double\<close> number of seconds.  The 64-bit count is an
  integer: signed overflow is undefined in C++, and no statement is made about it.
  Finite doubles are rational numbers; the one floating-point operation of the
  code, the multiplication by a million inside \<open>duration_cast\<close>, is rounded to the
  nearest double, ties to even, as IEEE 754 prescribes.
\<close>

section \<open>Double arithmetic\<close>

type_synonym double = rat

definition pow2 :: "int \<Rightarrow> rat" where
  "pow2 e = 2 powi e"

text \<open>The number of binary digits of a positive integer.\<close>

function bit_length :: "int \<Rightarrow> nat" where
  "bit_length n = (if n \<le> 0 then 0 else Suc (bit_length (n div 2)))"
  by pat_completeness auto
termination
  by (relation "measure nat") auto

declare bit_length.simps [simp del]

text \<open>The exponent \<open>e\<close> with \<open>2^e \<le> x < 2^(e+1)\<close>, for positive \<open>x\<close>.\<close>

definition ilog2 :: "rat \<Rightarrow> int" where
  "ilog2 x =
     (let (p, q) = quotient_of x;
          e = int (bit_length p) - int (bit_length q)
      in if pow2 e \<le> x then e else e - 1)"

definition round_half_even :: "rat \<Rightarrow> int" where
  "round_half_even y =
     (let f = \<lfloor>y\<rfloor>; d = y - of_int f
      in if d < 1 / 2 then f else if 1 / 2 < d then f + 1 else if even f then f else f + 1)"

definition fl :: "rat \<Rightarrow> double" where
  "fl x =
     (if x = 0 then 0
      else let u = pow2 (max (ilog2 \<bar>x\<bar> - 52) (- 1074))
           in sgn x * (of_int (round_half_even (\<bar>x\<bar> / u)) * u))"

text \<open>Conversion of a double to an integer type: truncation towards zero.\<close>

definition trunc :: "rat \<Rightarrow> int" where
  "trunc x = (if 0 \<le> x then \<lfloor>x\<rfloor> else \<lceil>x\<rceil>)"

definition duration_cast_us :: "double \<Rightarrow> int" where
  "duration_cast_us seconds = trunc (fl (seconds * 1000000))"

section \<open>Timestamp\<close>

datatype Timestamp = Timestamp (us_since_epoch: int)

definition Timestamp_default :: Timestamp where
  "Timestamp_default = Timestamp 0"

definition Timestamp_invaild :: Timestamp where
  "Timestamp_invaild = Timestamp_default"

definition Timestamp_vaild :: "Timestamp \<Rightarrow> bool" where
  "Timestamp_vaild t \<longleftrightarrow> us_since_epoch t > 0"

definition Timestamp_addTime :: "Timestamp \<Rightarrow> double \<Rightarrow> Timestamp" where
  "Timestamp_addTime t seconds = Timestamp (us_since_epoch t + duration_cast_us seconds)"

instantiation Timestamp :: linorder
begin

definition less_Timestamp :: "Timestamp \<Rightarrow> Timestamp \<Rightarrow> bool" where
  "less_Timestamp a b \<longleftrightarrow> us_since_epoch a < us_since_epoch b"

definition less_eq_Timestamp :: "Timestamp \<Rightarrow> Timestamp \<Rightarrow> bool" where
  "less_eq_Timestamp a b \<longleftrightarrow> us_since_epoch a \<le> us_since_epoch b"

instance
  by standard (auto simp: less_Timestamp_def less_eq_Timestamp_def intro: Timestamp.expand)

end

section \<open>MonotonicTimestamp\<close>

datatype MonotonicTimestamp = MonotonicTimestamp (microSecondsSinceEpoch: int)

definition MonotonicTimestamp_default :: MonotonicTimestamp where
  "MonotonicTimestamp_default = MonotonicTimestamp 0"

definition invaild :: MonotonicTimestamp where
  "invaild = MonotonicTimestamp_default"

definition vaild :: "MonotonicTimestamp \<Rightarrow> bool" where
  "vaild t \<longleftrightarrow> microSecondsSinceEpoch t > 0"

definition addTime :: "MonotonicTimestamp \<Rightarrow> double \<Rightarrow> MonotonicTimestamp" where
  "addTime t seconds =
     MonotonicTimestamp (microSecondsSinceEpoch t + duration_cast_us seconds)"

instantiation MonotonicTimestamp :: linorder
begin

definition less_MonotonicTimestamp :: "MonotonicTimestamp \<Rightarrow> MonotonicTimestamp \<Rightarrow> bool" where
  "less_MonotonicTimestamp a b \<longleftrightarrow> microSecondsSinceEpoch a < microSecondsSinceEpoch b"

definition less_eq_MonotonicTimestamp :: "MonotonicTimestamp \<Rightarrow> MonotonicTimestamp \<Rightarrow> bool" where
  "less_eq_MonotonicTimestamp a b \<longleftrightarrow> microSecondsSinceEpoch a \<le> microSecondsSinceEpoch b"

instance
  by standard
     (auto simp: less_MonotonicTimestamp_def less_eq_MonotonicTimestamp_def
       intro: MonotonicTimestamp.expand)

end

lemmas mono_ord = less_MonotonicTimestamp_def less_eq_MonotonicTimestamp_def

section \<open>Facts\<close>

lemma pow2_pos [simp]: "0 < pow2 e"
  by (simp add: pow2_def)

lemma round_half_even_nonneg: "0 \<le> y \<Longrightarrow> 0 \<le> round_half_even y"
  by (auto simp: round_half_even_def Let_def)

lemma round_half_even_int [simp]: "round_half_even (of_int n) = n"
  by (simp add: round_half_even_def)

lemma round_half_even_near: "\<bar>of_int (round_half_even y) - y\<bar> \<le> 1 / 2"
proof -
  have "of_int \<lfloor>y\<rfloor> \<le> y" "y < of_int \<lfloor>y\<rfloor> + 1" by linarith+
  then show ?thesis by (auto simp: round_half_even_def Let_def)
qed

lemma fl_nonneg: "0 \<le> x \<Longrightarrow> 0 \<le> fl x"
  by (cases "x = 0") (auto simp: fl_def Let_def zero_le_mult_iff round_half_even_nonneg less_imp_le)

lemma duration_cast_us_nonneg: "0 \<le> s \<Longrightarrow> 0 \<le> duration_cast_us s"
  by (simp add: duration_cast_us_def trunc_def fl_nonneg)

lemma addTime_ge: "0 \<le> s \<Longrightarrow> t \<le> addTime t s"
  by (simp add: addTime_def duration_cast_us_nonneg mono_ord)

lemma pow2_add: "pow2 (e + f) = pow2 e * pow2 f"
  by (simp add: pow2_def power_int_add)

lemma pow2_nat [simp]: "pow2 (int n) = 2 ^ n"
  by (simp add: pow2_def)

lemma pow2_diff: "pow2 (int m - int n) = 2 ^ m / 2 ^ n"
  by (simp add: pow2_def power_int_diff)

lemma pow2_mono: "e \<le> f \<Longrightarrow> pow2 e \<le> pow2 f"
  by (simp add: pow2_def power_int_increasing)

lemma pow2_less_imp: "pow2 e < pow2 f \<Longrightarrow> e < f"
  using pow2_mono [of f e] by linarith

lemma bit_length_bounds: "0 < n \<Longrightarrow> 0 < bit_length n \<and> 2 ^ (bit_length n - 1) \<le> n \<and> n < 2 ^ bit_length n"
proof (induction n rule: bit_length.induct)
  case (1 n)
  show ?case
  proof (cases "n = 1")
    case True
    then show ?thesis by (simp add: bit_length.simps)
  next
    case False
    with 1 have n: "0 < n div 2" and IH: "2 ^ (bit_length (n div 2) - 1) \<le> n div 2"
        "n div 2 < 2 ^ bit_length (n div 2)" "0 < bit_length (n div 2)"
      by auto
    have "(2::int) ^ bit_length (n div 2) = 2 * 2 ^ (bit_length (n div 2) - 1)"
      using IH(3) by (metis power_eq_if not_gr_zero)
    moreover have "2 * (n div 2) \<le> n" "n < 2 * (n div 2) + 2" by presburger+
    moreover have "bit_length n = Suc (bit_length (n div 2))"
      using "1.prems" by (simp add: bit_length.simps [of n])
    ultimately show ?thesis using IH by simp
  qed
qed

lemma pow2_ilog2_le:
  assumes "0 < x"
  shows "pow2 (ilog2 x) \<le> x"
proof -
  obtain p q where pq: "quotient_of x = (p, q)" by fastforce
  have q: "0 < q" using quotient_of_denom_pos [OF pq] .
  have x: "x = of_int p / of_int q" using quotient_of_div [OF pq] .
  have p: "0 < p" using assms q by (simp add: x zero_less_divide_iff)
  let ?a = "bit_length p" and ?b = "bit_length q"
  have "(2::rat) ^ (?a - 1) \<le> of_int p"
    using bit_length_bounds [OF p] of_int_le_iff [of "2 ^ (?a - 1)" p, where 'a = rat] by simp
  moreover have "of_int q \<le> (2::rat) ^ ?b"
    using bit_length_bounds [OF q] of_int_le_iff [of q "2 ^ ?b", where 'a = rat] by simp
  ultimately have "2 ^ (?a - 1) / 2 ^ ?b \<le> x"
    unfolding x using p q by (intro frac_le) auto
  moreover have "pow2 (int ?a - int ?b - 1) = 2 ^ (?a - 1) / 2 ^ ?b"
  proof -
    have "int ?a - int ?b - 1 = int (?a - 1) - int ?b" using bit_length_bounds [OF p] by simp
    then show ?thesis by (simp only: pow2_diff)
  qed
  ultimately show ?thesis by (auto simp: ilog2_def pq Let_def)
qed

text \<open>Below \<open>2^53\<close> the spacing of doubles is at most one, so rounding moves by at most a half.\<close>

lemma fl_near:
  assumes "0 \<le> x" and "x < 2 ^ 53"
  shows "\<bar>fl x - x\<bar> \<le> 1 / 2"
proof (cases "x = 0")
  case True
  then show ?thesis by (simp add: fl_def)
next
  case False
  with assms(1) have x: "0 < x" by simp
  let ?u = "pow2 (max (ilog2 x - 52) (- 1074))"
  have "pow2 (ilog2 x) < pow2 53"
    using pow2_ilog2_le [OF x] assms(2) pow2_nat [of 53] by simp
  then have "ilog2 x < 53" by (rule pow2_less_imp)
  then have u: "?u \<le> 1" using pow2_mono [of _ 0] by (simp add: pow2_def)
  have "fl x - x = ?u * (of_int (round_half_even (x / ?u)) - x / ?u)"
    using x by (simp add: fl_def Let_def right_diff_distrib less_imp_neq [OF pow2_pos, symmetric] mult.commute)
  then have "\<bar>fl x - x\<bar> = ?u * \<bar>of_int (round_half_even (x / ?u)) - x / ?u\<bar>"
    by (simp add: abs_mult less_imp_le)
  also have "\<dots> \<le> 1 * (1 / 2)"
    using u round_half_even_near by (intro mult_mono) (auto simp: less_imp_le)
  finally show ?thesis by simp
qed

lemma duration_cast_us_near:
  assumes "0 \<le> s" and "s * 1000000 < 2 ^ 53"
  shows "\<bar>of_int (duration_cast_us s) - s * 1000000\<bar> \<le> 3 / 2"
proof -
  define y where "y = fl (s * 1000000)"
  define z where "z = s * 1000000"
  have near: "\<bar>y - z\<bar> \<le> 1 / 2"
    using assms unfolding y_def z_def by (intro fl_near) auto
  have "of_int \<lfloor>y\<rfloor> \<le> y" "y < of_int \<lfloor>y\<rfloor> + 1" by linarith+
  with near have "\<bar>of_int \<lfloor>y\<rfloor> - z\<bar> \<le> 3 / 2" by linarith
  moreover have "0 \<le> y" using assms by (simp add: y_def fl_nonneg)
  ultimately show ?thesis by (simp add: duration_cast_us_def trunc_def y_def z_def)
qed

section \<open>Properties\<close>

text \<open>
  C33: \<open>addTime\<close> is accurate.  Adding a non-negative number of seconds (below \<open>2^53\<close>
  microseconds, some 285 years) never moves the time back, and the result differs
  from the exact sum by at most one and a half microseconds, the rounding of the
  product plus the truncation.
\<close>

theorem addTime_accurate:
  assumes "0 \<le> s" and "s * 1000000 < 2 ^ 53"
  shows "t \<le> addTime t s \<and>
    \<bar>of_int (microSecondsSinceEpoch (addTime t s)) -
      (of_int (microSecondsSinceEpoch t) + s * 1000000)\<bar> \<le> 3 / 2"
  using addTime_ge [OF assms(1)] duration_cast_us_near [OF assms] by (simp add: addTime_def)

theorem addTime_accurate_witness:
  "MonotonicTimestamp 7 \<le> addTime (MonotonicTimestamp 7) (1 / 4) \<and>
    \<bar>of_int (microSecondsSinceEpoch (addTime (MonotonicTimestamp 7) (1 / 4))) -
      (of_int (microSecondsSinceEpoch (MonotonicTimestamp 7)) + (1 / 4) * 1000000)\<bar> \<le> (3 / 2 :: rat)"
  using addTime_accurate [of "1 / 4" "MonotonicTimestamp 7"] by simp

end
