(* ===== verification/Std_Map.thy ===== *)
theory Std_Map
  imports Prelude "HOL-Library.Product_Lexorder"
begin

text \<open>
  The ordered containers of the C++ standard library that the timer queue uses:
  \<open>std::map\<close> as an association list in strictly ascending key order, which fixes
  the iteration order, \<open>begin()\<close> and \<open>upper_bound\<close>; \<open>std::set\<close> is the map whose
  values carry no information.  The locale \<open>ordered_map\<close> states what a client may
  rely on; the association lists are its implementation.
\<close>

section \<open>Operations\<close>

text \<open>\<open>m[k] = v\<close>; for a key that is not there, also \<open>emplace\<close>.\<close>

fun om_put :: "'k::linorder \<Rightarrow> 'v \<Rightarrow> ('k \<times> 'v) list \<Rightarrow> ('k \<times> 'v) list" where
  "om_put k v [] = [(k, v)]"
| "om_put k v (p # m) =
     (if fst p < k then p # om_put k v m
      else if fst p = k then (k, v) # m
      else (k, v) # p # m)"

definition om_find :: "'k \<Rightarrow> ('k \<times> 'v) list \<Rightarrow> 'v option" where
  "om_find k m = map_of m k"

definition om_erase :: "'k \<Rightarrow> ('k \<times> 'v) list \<Rightarrow> ('k \<times> 'v) list" where
  "om_erase k m = filter (\<lambda>p. fst p \<noteq> k) m"

text \<open>\<open>m[k]\<close> as a value: a missing key is inserted with the default value first.\<close>

definition om_at :: "'v \<Rightarrow> 'k::linorder \<Rightarrow> ('k \<times> 'v) list \<Rightarrow> 'v \<times> ('k \<times> 'v) list" where
  "om_at dflt k m =
     (case om_find k m of Some v \<Rightarrow> (v, m) | None \<Rightarrow> (dflt, om_put k dflt m))"

text \<open>The elements before \<open>upper_bound(k)\<close> and those from it on.\<close>

definition om_upto :: "'k::linorder \<Rightarrow> ('k \<times> 'v) list \<Rightarrow> ('k \<times> 'v) list" where
  "om_upto k m = takeWhile (\<lambda>p. fst p \<le> k) m"

definition om_from :: "'k::linorder \<Rightarrow> ('k \<times> 'v) list \<Rightarrow> ('k \<times> 'v) list" where
  "om_from k m = dropWhile (\<lambda>p. fst p \<le> k) m"

definition om_inv :: "('k::linorder \<times> 'v) list \<Rightarrow> bool" where
  "om_inv m \<longleftrightarrow> sorted_wrt (<) (map fst m)"

section \<open>Facts\<close>

lemma om_inv_Nil [simp]: "om_inv []"
  by (simp add: om_inv_def)

lemma om_inv_Cons: "om_inv (p # m) \<longleftrightarrow> (\<forall>q \<in> set m. fst p < fst q) \<and> om_inv m"
  by (auto simp: om_inv_def)

lemma om_inv_key_unique:
  "om_inv m \<Longrightarrow> (k, v) \<in> set m \<Longrightarrow> (k, w) \<in> set m \<Longrightarrow> v = w"
  by (induction m) (auto simp: om_inv_Cons)

lemma om_inv_distinct: "om_inv m \<Longrightarrow> distinct (map fst m)"
  by (simp add: om_inv_def strict_sorted_iff)

lemma om_inv_distinct_entries: "om_inv m \<Longrightarrow> distinct m"
  using om_inv_distinct distinct_map by blast

lemma set_om_put:
  "om_inv m \<Longrightarrow> set (om_put k v m) = insert (k, v) {p \<in> set m. fst p \<noteq> k}"
  by (induction m) (auto simp: om_inv_Cons)

lemma om_inv_put: "om_inv m \<Longrightarrow> om_inv (om_put k v m)"
  by (induction m) (auto simp: om_inv_Cons set_om_put)

lemma set_om_erase: "set (om_erase k m) = {p \<in> set m. fst p \<noteq> k}"
  by (auto simp: om_erase_def)

lemma om_inv_erase: "om_inv m \<Longrightarrow> om_inv (om_erase k m)"
  by (induction m) (auto simp: om_inv_Cons om_erase_def)

lemma om_find_iff: "om_inv m \<Longrightarrow> om_find k m = Some v \<longleftrightarrow> (k, v) \<in> set m"
  by (simp add: om_find_def om_inv_distinct)

lemma om_find_None: "om_find k m = None \<longleftrightarrow> k \<notin> fst ` set m"
  by (simp add: om_find_def map_of_eq_None_iff)

lemma length_om_put_new: "om_find k m = None \<Longrightarrow> length (om_put k v m) = Suc (length m)"
  by (induction m) (auto simp: om_find_def split: if_splits)

lemma length_om_erase:
  assumes "om_inv m" and "(k, v) \<in> set m"
  shows "length m = Suc (length (om_erase k m))"
  using assms
proof (induction m)
  case Nil
  then show ?case by simp
next
  case (Cons p m)
  have *: "om_erase k m = m" if "fst p = k"
    using Cons.prems(1) that by (auto simp: om_erase_def om_inv_Cons filter_id_conv)
  show ?case
    using Cons * by (cases "fst p = k") (auto simp: om_inv_Cons om_erase_def)
qed

lemma om_at_present: "om_inv m \<Longrightarrow> (k, v) \<in> set m \<Longrightarrow> om_at d k m = (v, m)"
  using om_find_iff [of m k v] by (simp add: om_at_def)

lemma om_upto_filter: "om_inv m \<Longrightarrow> om_upto k m = filter (\<lambda>p. fst p \<le> k) m"
proof (induction m)
  case Nil
  then show ?case by (simp add: om_upto_def)
next
  case (Cons p m)
  show ?case
  proof (cases "fst p \<le> k")
    case True
    with Cons show ?thesis by (simp add: om_upto_def om_inv_Cons)
  next
    case False
    with Cons.prems have "filter (\<lambda>p. fst p \<le> k) m = []"
      by (force simp: om_inv_Cons filter_empty_conv)
    with False show ?thesis by (simp add: om_upto_def)
  qed
qed

lemma om_from_gt: "om_inv m \<Longrightarrow> p \<in> set (om_from k m) \<Longrightarrow> k < fst p"
proof (induction m)
  case Nil
  then show ?case by (simp add: om_from_def)
next
  case (Cons q m)
  then show ?case
    by (cases "fst q \<le> k") (force simp: om_from_def om_inv_Cons)+
qed

lemma om_upto_from: "om_upto k m @ om_from k m = m"
  by (simp add: om_upto_def om_from_def)

lemma om_inv_append1: "om_inv (xs @ ys) \<Longrightarrow> om_inv xs"
  by (simp add: om_inv_def sorted_wrt_append)

lemma om_inv_upto: "om_inv m \<Longrightarrow> om_inv (om_upto k m)"
  by (metis om_inv_append1 om_upto_from)

lemma om_inv_hd_least: "om_inv m \<Longrightarrow> p \<in> set m \<Longrightarrow> fst (hd m) \<le> fst p"
  by (cases m) (auto simp: om_inv_Cons)

section \<open>The interface\<close>

locale ordered_map =
  fixes inv :: "'m \<Rightarrow> bool"
    and entries :: "'m \<Rightarrow> ('k::linorder \<times> 'v) list"
    and put :: "'k \<Rightarrow> 'v \<Rightarrow> 'm \<Rightarrow> 'm"
    and erase :: "'k \<Rightarrow> 'm \<Rightarrow> 'm"
    and find :: "'k \<Rightarrow> 'm \<Rightarrow> 'v option"
  assumes inv_put: "inv m \<Longrightarrow> inv (put k v m)"
    and inv_erase: "inv m \<Longrightarrow> inv (erase k m)"
    and entries_sorted: "inv m \<Longrightarrow> sorted_wrt (<) (map fst (entries m))"
    and entries_put: "inv m \<Longrightarrow> set (entries (put k v m)) = insert (k, v) {p \<in> set (entries m). fst p \<noteq> k}"
    and entries_erase: "inv m \<Longrightarrow> set (entries (erase k m)) = {p \<in> set (entries m). fst p \<noteq> k}"
    and find_entries: "inv m \<Longrightarrow> find k m = Some v \<longleftrightarrow> (k, v) \<in> set (entries m)"
begin

lemma find_put: "inv m \<Longrightarrow> find k' (put k v m) = (if k' = k then Some v else find k' m)"
  by (rule option_eqI) (auto simp: inv_put find_entries entries_put)

lemma find_erase: "inv m \<Longrightarrow> find k' (erase k m) = (if k' = k then None else find k' m)"
  by (rule option_eqI) (auto simp: inv_erase find_entries entries_erase)

text \<open>Moving an entry to a new key, as the rescheduling of a timer does.\<close>

lemma rekey_entries:
  assumes "inv m" and "(k, v) \<in> set (entries m)" and "k' \<notin> fst ` set (entries (erase k m))"
  shows "set (entries (put k' v (erase k m))) = insert (k', v) (set (entries m) - {(k, v)})"
proof -
  have uniq: "w = v" if "(k, w) \<in> set (entries m)" for w
    using assms(1,2) that find_entries [of m k v] find_entries [of m k w] by simp
  have "set (entries (put k' v (erase k m))) = insert (k', v) (set (entries (erase k m)))"
    using assms(1,3) by (auto simp: inv_erase entries_put)
  also have "set (entries (erase k m)) = set (entries m) - {(k, v)}"
    unfolding entries_erase [OF assms(1)] by (auto dest: uniq)
  finally show ?thesis .
qed

lemma size_entries: "inv m \<Longrightarrow> card (set (entries m)) = length (entries m)"
  using entries_sorted [of m] by (simp add: strict_sorted_iff distinct_map distinct_card)

end

interpretation om: ordered_map om_inv "\<lambda>m. m" om_put om_erase om_find
  by unfold_locales
     (simp_all add: om_inv_put om_inv_erase set_om_put set_om_erase om_find_iff, simp add: om_inv_def)

end
