(* ===== verification/Timer_Queue.thy ===== *)
theory Timer_Queue
  imports Timestamps Std_Map
begin

text \<open>
  The timers (include/Timer.h, src/Timer.cc, include/TimerId.h, include/TimerQueue.h,
  src/TimerQueue.cc).  \<open>Timer\<close> objects live in a heap of addresses, address 0 is the
  null pointer; \<open>timer_list\<close> owns them by entry (expiration, sequence) and
  \<open>active_timer_set\<close> finds them by (address, sequence).  The steady clock, the
  timerfd and the allocator are parameters; so is what a timer callback does, which
  is a list of calls of the queue's public interface computed from the state it runs
  in.  Every \<open>assert\<close>, null or dangling dereference of the source is an error value.
\<close>

section \<open>Timer and TimerId\<close>

record 'cb timer =
  callback :: "'cb option"
  expiration :: MonotonicTimestamp
  interval :: double
  repeat :: bool
  sequence :: int

definition Timer_new ::
    "'cb option \<Rightarrow> MonotonicTimestamp \<Rightarrow> double \<Rightarrow> int \<Rightarrow> 'cb timer \<times> int" where
  \<comment> \<open>the last argument and the second result are \<open>s_global_sequence_\<close>\<close>
  "Timer_new cb when ival global_sequence =
     (\<lparr>callback = cb, expiration = when, interval = ival, repeat = (0 < ival),
       sequence = global_sequence\<rparr>, global_sequence + 1)"

definition restart :: "MonotonicTimestamp \<Rightarrow> 'cb timer \<Rightarrow> 'cb timer" where
  "restart now t =
     (if repeat t then t\<lparr>expiration := addTime now (interval t)\<rparr>
      else t\<lparr>expiration := invaild\<rparr>)"

record timer_id =
  id_timer :: ptr
  id_sequence :: int

definition TimerId_default :: timer_id where
  "TimerId_default = \<lparr>id_timer = 0, id_sequence = 0\<rparr>"

section \<open>The queue's state and what it calls\<close>

type_synonym entry = "MonotonicTimestamp \<times> int"
type_synonym active_timer = "ptr \<times> int"

record timespec =
  tv_sec :: int
  tv_nsec :: int

text \<open>The closures the queue hands to \<open>EventLoop::runInLoop\<close>.\<close>

datatype tq_task = TaskAddTimer ptr | TaskCancelTimer timer_id

record ('cb, 'k) timer_queue =
  timer_list :: "(entry \<times> ptr) list"
  active_timer_set :: "(active_timer \<times> unit) list"
  canceling_timer_set :: "(active_timer \<times> unit) list"
  is_running_callback :: bool
  timer_heap :: "ptr \<rightharpoonup> 'cb timer"
  s_global_sequence :: int
  queued :: "tq_task list"
  ran :: "ptr list"
  tq_kernel :: 'k

text \<open>\<open>queued\<close> holds the closures given to the loop and not run yet, \<open>ran\<close> the timers run so far.\<close>

record 'k tq_sys =
  clock_now :: "'k \<Rightarrow> MonotonicTimestamp \<times> 'k"
  timerfd_settime :: "'k \<Rightarrow> timespec \<Rightarrow> unit sysret \<times> 'k"
  timerfd_read :: "'k \<Rightarrow> nat sysret \<times> 'k"
  new_addr :: "ptr set \<Rightarrow> ptr"

datatype 'cb tq_action =
    AddTimer "'cb option" MonotonicTimestamp double
  | CancelTimer timer_id

type_synonym ('cb, 'k) tq_callbacks = "'cb \<Rightarrow> ('cb, 'k) timer_queue \<Rightarrow> 'cb tq_action list"

definition LLONG_MAX :: int where
  "LLONG_MAX = 2 ^ 63 - 1"

definition sizes_agree :: "('cb, 'k) timer_queue \<Rightarrow> bool" where
  \<comment> \<open>the assertion \<open>timer_list_.size()==active_timer_set_.size()\<close>\<close>
  "sizes_agree q \<longleftrightarrow> length (timer_list q) = length (active_timer_set q)"

definition deref :: "ptr \<Rightarrow> ('cb, 'k) timer_queue \<Rightarrow> error + 'cb timer" where
  "deref p q = (case timer_heap q p of None \<Rightarrow> Inl NullPointer | Some t \<Rightarrow> Inr t)"

section \<open>The timerfd\<close>

definition howMuchTimeFromNow :: "MonotonicTimestamp \<Rightarrow> MonotonicTimestamp \<Rightarrow> timespec" where
  "howMuchTimeFromNow when now =
     (let us0 = microSecondsSinceEpoch when - microSecondsSinceEpoch now;
          us = (if us0 < 100 then 100 else us0)
      in \<lparr>tv_sec = us div 1000000, tv_nsec = (us mod 1000000) * 1000\<rparr>)"

definition resetTimerFd :: "'k tq_sys \<Rightarrow> MonotonicTimestamp \<Rightarrow> 'k \<Rightarrow> 'k" where
  "resetTimerFd S when k =
     (let (now, k1) = clock_now S k;
          (r, k2) = timerfd_settime S k1 (howMuchTimeFromNow when now)
      in k2)"

definition readTimerFd :: "'k tq_sys \<Rightarrow> 'k \<Rightarrow> 'k" where
  "readTimerFd S k = snd (timerfd_read S k)"

section \<open>Insertion and removal\<close>

text \<open>\<open>timer_list_[e] = std::move(p)\<close>: the previous owner of the slot frees its timer.\<close>

definition list_assign :: "entry \<Rightarrow> ptr \<Rightarrow> ('cb, 'k) timer_queue \<Rightarrow> ('cb, 'k) timer_queue" where
  "list_assign e p q =
     q\<lparr>timer_list := om_put e p (timer_list q),
       timer_heap := (case om_find e (timer_list q) of
          Some p' \<Rightarrow> (timer_heap q)(p' := None) | None \<Rightarrow> timer_heap q)\<rparr>"

text \<open>\<open>timer_list_.erase(e)\<close>: the erased owner frees its timer.\<close>

definition list_erase :: "entry \<Rightarrow> ('cb, 'k) timer_queue \<Rightarrow> ('cb, 'k) timer_queue" where
  "list_erase e q =
     q\<lparr>timer_list := om_erase e (timer_list q),
       timer_heap := (case om_find e (timer_list q) of
          Some p \<Rightarrow> (timer_heap q)(p := None) | None \<Rightarrow> timer_heap q)\<rparr>"

definition tq_insert :: "bool \<Rightarrow> ptr \<Rightarrow> ('cb, 'k) timer_queue \<Rightarrow>
    error + (bool \<times> ('cb, 'k) timer_queue)" where
  "tq_insert in_loop p q =
     and_then (guard_r AssertionFailed in_loop q) (\<lambda>_.
     and_then (guard_r AssertionFailed (sizes_agree q) q) (\<lambda>_.
     and_then (deref p q) (\<lambda>t.
       let new_entry = (expiration t, sequence t);
           new_timer = (p, snd new_entry);
           is_earily_changed = (timer_list q = [] \<or> fst new_entry < fst (fst (hd (timer_list q))));
           q1 = list_assign new_entry p q;
           success = (om_find new_timer (active_timer_set q1) = None);
           q2 = q1\<lparr>active_timer_set := om_put new_timer () (active_timer_set q1)\<rparr>
       in and_then (guard_r AssertionFailed success q2) (\<lambda>_.
          and_then (guard_r AssertionFailed (sizes_agree q2) q2) (\<lambda>_.
          Inr (is_earily_changed, q2))))))"

definition tq_erase :: "active_timer \<Rightarrow> ('cb, 'k) timer_queue \<Rightarrow> error + ('cb, 'k) timer_queue" where
  "tq_erase del_timer q =
     (case om_find del_timer (active_timer_set q) of
        None \<Rightarrow> Inr q
      | Some _ \<Rightarrow>
          and_then (deref (fst del_timer) q) (\<lambda>t.
          let del_entry = (expiration t, sequence t);
              q1 = q\<lparr>active_timer_set := om_erase del_timer (active_timer_set q)\<rparr>
          in Inr (list_erase del_entry q1)))"

definition addTimerInLoop :: "'k tq_sys \<Rightarrow> bool \<Rightarrow> ptr \<Rightarrow> ('cb, 'k) timer_queue \<Rightarrow>
    error + ('cb, 'k) timer_queue" where
  "addTimerInLoop S in_loop p q =
     and_then (guard_r AssertionFailed in_loop q) (\<lambda>_.
     and_then (tq_insert in_loop p q) (\<lambda>(is_earily_changed, q1).
     if is_earily_changed
     then and_then (deref p q1) (\<lambda>t.
            Inr (q1\<lparr>tq_kernel := resetTimerFd S (expiration t) (tq_kernel q1)\<rparr>))
     else Inr q1))"

definition cancelTimerInLoop :: "bool \<Rightarrow> timer_id \<Rightarrow> ('cb, 'k) timer_queue \<Rightarrow>
    error + ('cb, 'k) timer_queue" where
  "cancelTimerInLoop in_loop i q =
     and_then (guard_r AssertionFailed in_loop q) (\<lambda>_.
     and_then (guard_r AssertionFailed (sizes_agree q) q) (\<lambda>_.
     let del_timer = (id_timer i, id_sequence i)
     in and_then
          (if is_running_callback q
           then Inr (q\<lparr>canceling_timer_set := om_put del_timer () (canceling_timer_set q)\<rparr>)
           else tq_erase del_timer q) (\<lambda>q1.
        guard_r AssertionFailed (sizes_agree q1) q1)))"

section \<open>The public interface\<close>

fun run_task :: "'k tq_sys \<Rightarrow> tq_task \<Rightarrow> ('cb, 'k) timer_queue \<Rightarrow> error + ('cb, 'k) timer_queue" where
  "run_task S (TaskAddTimer p) q = addTimerInLoop S True p q"
| "run_task S (TaskCancelTimer i) q = cancelTimerInLoop True i q"

text \<open>\<open>EventLoop::runInLoop\<close>: at once in the loop's thread, queued from any other.\<close>

definition tq_runInLoop :: "'k tq_sys \<Rightarrow> bool \<Rightarrow> tq_task \<Rightarrow> ('cb, 'k) timer_queue \<Rightarrow>
    error + ('cb, 'k) timer_queue" where
  "tq_runInLoop S in_loop t q =
     (if in_loop then run_task S t q else Inr (q\<lparr>queued := queued q @ [t]\<rparr>))"

definition addTimer :: "'k tq_sys \<Rightarrow> bool \<Rightarrow> 'cb option \<Rightarrow> MonotonicTimestamp \<Rightarrow> double \<Rightarrow>
    ('cb, 'k) timer_queue \<Rightarrow> error + (timer_id \<times> ('cb, 'k) timer_queue)" where
  "addTimer S in_loop cb when ival q =
     (let (t, next) = Timer_new cb when ival (s_global_sequence q);
          p = new_addr S (dom (timer_heap q));
          q1 = q\<lparr>timer_heap := (timer_heap q)(p \<mapsto> t), s_global_sequence := next\<rparr>
      in and_then (tq_runInLoop S in_loop (TaskAddTimer p) q1) (\<lambda>q2.
         Inr (\<lparr>id_timer = p, id_sequence = sequence t\<rparr>, q2)))"

definition cancelTimer :: "'k tq_sys \<Rightarrow> bool \<Rightarrow> timer_id \<Rightarrow> ('cb, 'k) timer_queue \<Rightarrow>
    error + ('cb, 'k) timer_queue" where
  "cancelTimer S in_loop i q = tq_runInLoop S in_loop (TaskCancelTimer i) q"

text \<open>The loop runs the oldest closure that was queued for it.\<close>

definition run_queued :: "'k tq_sys \<Rightarrow> ('cb, 'k) timer_queue \<Rightarrow> error + ('cb, 'k) timer_queue" where
  "run_queued S q =
     (case queued q of [] \<Rightarrow> Inr q
      | t # ts \<Rightarrow> run_task S t (q\<lparr>queued := ts\<rparr>))"

section \<open>Expiry\<close>

definition getExpiredTimers :: "MonotonicTimestamp \<Rightarrow> ('cb, 'k) timer_queue \<Rightarrow> error + entry list" where
  "getExpiredTimers now q =
     and_then (guard_r AssertionFailed (sizes_agree q) q) (\<lambda>_.
     let edge_entry = (now, LLONG_MAX);
         end_it = om_from edge_entry (timer_list q)
     in and_then
          (case end_it of [] \<Rightarrow> Inr True
           | (_, p) # _ \<Rightarrow> and_then (deref p q) (\<lambda>t. Inr (now < expiration t))) (\<lambda>ok.
        and_then (guard_r AssertionFailed ok q) (\<lambda>_.
        Inr (map fst (om_upto edge_entry (timer_list q))))))"

fun tq_act :: "'k tq_sys \<Rightarrow> 'cb tq_action \<Rightarrow> ('cb, 'k) timer_queue \<Rightarrow>
    error + ('cb, 'k) timer_queue" where
  "tq_act S (AddTimer cb when ival) q =
     and_then (addTimer S True cb when ival q) (\<lambda>(_, q1). Inr q1)"
| "tq_act S (CancelTimer i) q = cancelTimer S True i q"

text \<open>\<open>timer_list_[entry]->run()\<close>\<close>

definition run_entry :: "'k tq_sys \<Rightarrow> ('cb, 'k) tq_callbacks \<Rightarrow> entry \<Rightarrow> ('cb, 'k) timer_queue \<Rightarrow>
    error + ('cb, 'k) timer_queue" where
  "run_entry S U e q =
     (let (p, tl) = om_at 0 e (timer_list q); q1 = q\<lparr>timer_list := tl\<rparr>
      in and_then (deref p q1) (\<lambda>t.
         let q2 = q1\<lparr>ran := ran q1 @ [p]\<rparr>
         in case callback t of None \<Rightarrow> Inr q2
            | Some cb \<Rightarrow> fold_r (tq_act S) (U cb q2) q2))"

definition reset_one :: "MonotonicTimestamp \<Rightarrow> entry \<Rightarrow> ('cb, 'k) timer_queue \<Rightarrow>
    error + ('cb, 'k) timer_queue" where
  "reset_one now e q =
     (let (p, tl) = om_at 0 e (timer_list q);
          q1 = q\<lparr>timer_list := tl\<rparr>;
          temp_ac = (p, snd e)
      in and_then (deref p q1) (\<lambda>t.
         if repeat t \<and> om_find temp_ac (canceling_timer_set q1) = None
         then let t' = restart now t;
                  q2 = q1\<lparr>timer_list := om_erase e (timer_list q1),
                          timer_heap := (timer_heap q1)(p \<mapsto> t')\<rparr>
              in Inr (list_assign (expiration t', snd e) p q2)
         else and_then (tq_erase temp_ac q1) (\<lambda>q2.
              Inr (q2\<lparr>canceling_timer_set := om_erase temp_ac (canceling_timer_set q2)\<rparr>))))"

definition tq_reset :: "'k tq_sys \<Rightarrow> entry list \<Rightarrow> MonotonicTimestamp \<Rightarrow> ('cb, 'k) timer_queue \<Rightarrow>
    error + ('cb, 'k) timer_queue" where
  "tq_reset S expired_timers now q =
     and_then (fold_r (reset_one now) expired_timers q) (\<lambda>q1.
     and_then (fold_r tq_erase (map fst (canceling_timer_set q1)) q1) (\<lambda>q2.
     let q3 = q2\<lparr>canceling_timer_set := []\<rparr>;
         next_expiration = (if timer_list q3 = [] then MonotonicTimestamp_default
                            else fst (fst (hd (timer_list q3))))
     in Inr (if vaild next_expiration
             then q3\<lparr>tq_kernel := resetTimerFd S next_expiration (tq_kernel q3)\<rparr>
             else q3)))"

definition tq_handleRead :: "'k tq_sys \<Rightarrow> ('cb, 'k) tq_callbacks \<Rightarrow> ('cb, 'k) timer_queue \<Rightarrow>
    error + ('cb, 'k) timer_queue" where
  "tq_handleRead S U q =
     and_then (guard_r AssertionFailed (sizes_agree q) q) (\<lambda>_.
     let (now, k) = clock_now S (tq_kernel q);
         q1 = q\<lparr>tq_kernel := readTimerFd S k\<rparr>
     in and_then (getExpiredTimers now q1) (\<lambda>expired_timers.
        and_then (fold_r (run_entry S U) expired_timers (q1\<lparr>is_running_callback := True\<rparr>)) (\<lambda>q2.
        and_then (tq_reset S expired_timers now (q2\<lparr>is_running_callback := False\<rparr>)) (\<lambda>q3.
        guard_r AssertionFailed (sizes_agree q3) q3))))"

definition TimerQueue_new :: "'k \<Rightarrow> ('cb, 'k) timer_queue" where
  "TimerQueue_new k =
     \<lparr>timer_list = [], active_timer_set = [], canceling_timer_set = [], is_running_callback = False,
      timer_heap = Map.empty, s_global_sequence = 0, queued = [], ran = [], tq_kernel = k\<rparr>"

section \<open>The invariant\<close>

text \<open>
  \<open>tq_core q P\<close>: both containers are well-formed, an entry's key is the expiration and
  sequence of the timer it owns, the active set is the same timers by address, sequence
  numbers are unique, and the live timers are those of the list together with \<open>P\<close>, the
  timers that are created and not inserted yet.
\<close>

definition tq_core :: "('cb, 'k) timer_queue \<Rightarrow> ptr set \<Rightarrow> bool" where
  "tq_core q P \<longleftrightarrow>
     om_inv (timer_list q) \<and> om_inv (active_timer_set q) \<and> om_inv (canceling_timer_set q) \<and>
     finite (dom (timer_heap q)) \<and> timer_heap q 0 = None \<and>
     (\<forall>e p. (e, p) \<in> set (timer_list q) \<longrightarrow>
        (\<exists>t. timer_heap q p = Some t \<and> e = (expiration t, sequence t))) \<and>
     (\<forall>p s. ((p, s), ()) \<in> set (active_timer_set q) \<longleftrightarrow> (\<exists>x. ((x, s), p) \<in> set (timer_list q))) \<and>
     (\<forall>p t p' t'. timer_heap q p = Some t \<longrightarrow> timer_heap q p' = Some t' \<longrightarrow>
        sequence t = sequence t' \<longrightarrow> p = p') \<and>
     (\<forall>p t. timer_heap q p = Some t \<longrightarrow> sequence t < s_global_sequence q) \<and>
     dom (timer_heap q) = snd ` set (timer_list q) \<union> P \<and> P \<inter> snd ` set (timer_list q) = {}"

fun added :: "tq_task list \<Rightarrow> ptr list" where
  "added [] = []"
| "added (TaskAddTimer p # ts) = p # added ts"
| "added (TaskCancelTimer i # ts) = added ts"

definition tq_inv :: "('cb, 'k) timer_queue \<Rightarrow> bool" where
  "tq_inv q \<longleftrightarrow> tq_core q (set (added (queued q))) \<and> distinct (added (queued q))"

definition alloc_ok :: "'k tq_sys \<Rightarrow> bool" where
  \<comment> \<open>\<open>operator new\<close> returns the address of no live object, and not null\<close>
  "alloc_ok S \<longleftrightarrow> (\<forall>A. finite A \<longrightarrow> new_addr S A \<notin> A \<and> new_addr S A \<noteq> 0)"

lemma tq_coreD:
  assumes "tq_core q P"
  shows "om_inv (timer_list q)" "om_inv (active_timer_set q)" "om_inv (canceling_timer_set q)"
    "finite (dom (timer_heap q))" "timer_heap q 0 = None"
    "(e, p) \<in> set (timer_list q) \<Longrightarrow>
       \<exists>t. timer_heap q p = Some t \<and> e = (expiration t, sequence t)"
    "((p, s), u) \<in> set (active_timer_set q) \<longleftrightarrow> (\<exists>x. ((x, s), p) \<in> set (timer_list q))"
    "timer_heap q p = Some t \<Longrightarrow> timer_heap q p' = Some t' \<Longrightarrow> sequence t = sequence t' \<Longrightarrow> p = p'"
    "timer_heap q p = Some t \<Longrightarrow> sequence t < s_global_sequence q"
    "dom (timer_heap q) = snd ` set (timer_list q) \<union> P" "P \<inter> snd ` set (timer_list q) = {}"
  using assms unfolding tq_core_def by (auto, blast+)

lemma tq_coreI:
  assumes "om_inv (timer_list q)" "om_inv (active_timer_set q)" "om_inv (canceling_timer_set q)"
    "finite (dom (timer_heap q))" "timer_heap q 0 = None"
    "\<And>e p. (e, p) \<in> set (timer_list q) \<Longrightarrow>
       \<exists>t. timer_heap q p = Some t \<and> e = (expiration t, sequence t)"
    "\<And>p s. ((p, s), ()) \<in> set (active_timer_set q) \<longleftrightarrow> (\<exists>x. ((x, s), p) \<in> set (timer_list q))"
    "\<And>p t p' t'. timer_heap q p = Some t \<Longrightarrow> timer_heap q p' = Some t' \<Longrightarrow>
       sequence t = sequence t' \<Longrightarrow> p = p'"
    "\<And>p t. timer_heap q p = Some t \<Longrightarrow> sequence t < s_global_sequence q"
    "dom (timer_heap q) = snd ` set (timer_list q) \<union> P" "P \<inter> snd ` set (timer_list q) = {}"
  shows "tq_core q P"
  unfolding tq_core_def using assms by blast

lemma core_frame [simp]:
  "tq_core (q\<lparr>tq_kernel := k\<rparr>) P = tq_core q P"
  "tq_core (q\<lparr>ran := r\<rparr>) P = tq_core q P"
  "tq_core (q\<lparr>queued := ts\<rparr>) P = tq_core q P"
  "tq_core (q\<lparr>is_running_callback := b\<rparr>) P = tq_core q P"
  by (simp_all add: tq_core_def)

lemma core_canceling:
  assumes "tq_core q P"
  shows "tq_core (q\<lparr>canceling_timer_set := c\<rparr>) P \<longleftrightarrow> om_inv c"
proof
  assume "om_inv c"
  then show "tq_core (q\<lparr>canceling_timer_set := c\<rparr>) P"
    using tq_coreD [OF assms] by (intro tq_coreI) auto
qed (use tq_coreD(3) in fastforce)

lemma core_entry_eq:
  assumes "tq_core q P" and "(e, p) \<in> set (timer_list q)" and "timer_heap q p = Some t"
  shows "e = (expiration t, sequence t)"
  using tq_coreD(6) [OF assms(1,2)] assms(3) by auto

lemma core_ptr_inj:
  assumes "tq_core q P" and "(e, p) \<in> set (timer_list q)" and "(e', p) \<in> set (timer_list q)"
  shows "e = e'"
  using tq_coreD(6) [OF assms(1,2)] tq_coreD(6) [OF assms(1,3)] by auto

lemma core_seq_inj:
  assumes "tq_core q P" and "((x, s), p) \<in> set (timer_list q)" and "((x', s), p') \<in> set (timer_list q)"
  shows "p = p' \<and> x = x'"
proof -
  have "p = p'"
    using tq_coreD(6) [OF assms(1,2)] tq_coreD(6) [OF assms(1,3)] tq_coreD(8) [OF assms(1)] by auto
  with core_ptr_inj [OF assms(1,2)] assms(3) show ?thesis by auto
qed

text \<open>The assertion on the two sizes follows from the bijection between the containers.\<close>

lemma core_sizes_agree:
  assumes "tq_core q P"
  shows "sizes_agree q"
proof -
  let ?f = "\<lambda>((x :: MonotonicTimestamp, s :: int), p :: ptr). ((p, s), ())"
  have "inj_on ?f (set (timer_list q))"
    using core_ptr_inj [OF assms] by (fastforce simp: inj_on_def)
  moreover have "?f ` set (timer_list q) = set (active_timer_set q)"
    using tq_coreD(7) [OF assms] by (auto simp: image_iff split_paired_Ex split_paired_all)
      (metis (mono_tags, lifting) case_prod_conv)+
  ultimately have "card (set (timer_list q)) = card (set (active_timer_set q))"
    by (metis card_image)
  then show ?thesis
    using tq_coreD(1,2) [OF assms] by (simp add: sizes_agree_def om.size_entries)
qed

section \<open>Single operations keep the invariant\<close>

text \<open>How an operation may change a queue while callbacks run: nothing is removed.\<close>

definition grows :: "('cb, 'k) timer_queue \<Rightarrow> ('cb, 'k) timer_queue \<Rightarrow> bool" where
  "grows q q' \<longleftrightarrow>
     set (timer_list q) \<subseteq> set (timer_list q') \<and> timer_heap q \<subseteq>\<^sub>m timer_heap q' \<and>
     set (canceling_timer_set q) \<subseteq> set (canceling_timer_set q') \<and>
     s_global_sequence q \<le> s_global_sequence q' \<and>
     (\<forall>x s p. ((x, s), p) \<in> set (timer_list q') - set (timer_list q) \<longrightarrow> s_global_sequence q \<le> s)"

lemma grows_refl [simp]: "grows q q"
  by (simp add: grows_def)

lemma grows_trans: "grows q r \<Longrightarrow> grows r s \<Longrightarrow> grows q s"
  unfolding grows_def by (auto intro: map_le_trans) (metis order_trans DiffI)

lemma core_alloc:
  assumes "tq_core q P" and "p \<notin> dom (timer_heap q)" and "p \<noteq> 0" and "sequence t = s_global_sequence q"
  shows "tq_core (q\<lparr>timer_heap := (timer_heap q)(p \<mapsto> t), s_global_sequence := s_global_sequence q + 1\<rparr>)
    (insert p P)"
proof -
  note d = tq_coreD [OF assms(1)]
  have p: "p \<notin> P" "p \<notin> snd ` set (timer_list q)" using assms(2) d(10) by auto
  have old: "timer_heap q p' = Some t' \<Longrightarrow> sequence t' < sequence t" for p' t'
    using d(9) assms(4) by simp
  show ?thesis
  proof (rule tq_coreI, goal_cases)
    case (6 e p')
    with d(6) [of e p'] assms(2) show ?case by auto
  next
    case (8 p1 t1 p2 t2)
    then show ?case by (auto split: if_splits dest: old d(8))
  next
    case (9 p' t')
    then show ?case using old assms(4) by (fastforce split: if_splits)
  qed (use d(1-5,7,10,11) p assms(3) in auto)
qed

lemma core_insert:
  assumes core: "tq_core q P" and p: "p \<in> P"
  shows "\<exists>t q'. timer_heap q p = Some t \<and>
    tq_insert True p q = Inr (timer_list q = [] \<or> expiration t < fst (fst (hd (timer_list q))), q') \<and>
    tq_core q' (P - {p}) \<and> set (timer_list q') = insert ((expiration t, sequence t), p) (set (timer_list q)) \<and>
    timer_heap q' = timer_heap q \<and> canceling_timer_set q' = canceling_timer_set q \<and>
    is_running_callback q' = is_running_callback q \<and> s_global_sequence q' = s_global_sequence q \<and>
    queued q' = queued q \<and> ran q' = ran q \<and> tq_kernel q' = tq_kernel q"
proof -
  note d = tq_coreD [OF core]
  from p d(10) obtain t where t: "timer_heap q p = Some t" by blast
  let ?e = "(expiration t, sequence t)"
  have new: "((x, sequence t), p') \<notin> set (timer_list q)" for x p'
    using d(6) [of "(x, sequence t)" p'] d(8) [OF t, of p'] p d(11) by force
  then have find: "om_find ?e (timer_list q) = None"
    by (force simp: om_find_None)
  have act: "om_find (p, sequence t) (active_timer_set q) = None"
    using d(7) [of p "sequence t"] new by (auto simp: om_find_None)
  let ?q = "q\<lparr>timer_list := om_put ?e p (timer_list q),
      active_timer_set := om_put (p, sequence t) () (active_timer_set q)\<rparr>"
  have set: "set (om_put ?e p (timer_list q)) = insert (?e, p) (set (timer_list q))"
    using new by (auto simp: set_om_put d(1))
  have set': "set (om_put (p, sequence t) () (active_timer_set q)) =
      insert ((p, sequence t), ()) (set (active_timer_set q))"
    using act by (auto simp: set_om_put d(2) om_find_None)
  have core': "tq_core ?q (P - {p})"
    unfolding tq_core_def using d(1-5,10,11) p t new
    by (auto simp: set set' om_inv_put d(7) dest: d(6,9) intro: d(8))
  have "tq_insert True p q =
      Inr (timer_list q = [] \<or> expiration t < fst (fst (hd (timer_list q))), ?q)"
    using core_sizes_agree [OF core] core_sizes_agree [OF core']
    by (simp add: tq_insert_def deref_def t list_assign_def find act Let_def)
  with t core' show ?thesis by (auto simp: set)
qed

text \<open>
  \<open>erase\<close> removes exactly the timer with the given address and sequence, if it is there,
  and frees it.
\<close>

definition erased :: "active_timer \<Rightarrow> ('cb, 'k) timer_queue \<Rightarrow> ('cb, 'k) timer_queue \<Rightarrow> bool" where
  "erased d q q' \<longleftrightarrow>
     set (timer_list q') = {(e, p) \<in> set (timer_list q). (p, snd e) \<noteq> d} \<and>
     timer_heap q' = (if om_find d (active_timer_set q) = None then timer_heap q
                      else (timer_heap q)(fst d := None)) \<and>
     canceling_timer_set q' = canceling_timer_set q \<and>
     is_running_callback q' = is_running_callback q \<and> s_global_sequence q' = s_global_sequence q \<and>
     queued q' = queued q \<and> ran q' = ran q \<and> tq_kernel q' = tq_kernel q"

text \<open>Taking one entry out of both sets, and freeing its timer, keeps the invariant.\<close>

lemma core_entries_without:
  assumes core: "tq_core q P" and mem: "((x, s), p) \<in> set (timer_list q)"
  shows "set (om_erase (x, s) (timer_list q)) = {r \<in> set (timer_list q). snd r \<noteq> p}"
proof -
  have "fst r = (x, s) \<longleftrightarrow> snd r = p" if "r \<in> set (timer_list q)" for r
  proof -
    obtain e p' where r: "r = (e, p')" by fastforce
    show ?thesis
      using that core_ptr_inj [OF core mem, of e] om_inv_key_unique [OF tq_coreD(1) [OF core] mem, of p']
      by (auto simp: r)
  qed
  then show ?thesis by (auto simp: set_om_erase)
qed

lemma core_without:
  assumes core: "tq_core q P" and mem: "((x, s), p) \<in> set (timer_list q)"
  shows "tq_core (q\<lparr>active_timer_set := om_erase (p, s) (active_timer_set q),
      timer_list := om_erase (x, s) (timer_list q), timer_heap := (timer_heap q)(p := None)\<rparr>) P"
  supply cd = tq_coreD [OF core] and sets = core_entries_without [OF core mem]
proof (rule tq_coreI, goal_cases)
  case (6 e p')
  then show ?case using cd(6) [of e p'] by (auto simp: sets)
next
  case (7 p' s')
  then show ?case using cd(7) [of p' s'] core_ptr_inj [OF core mem, of "(_, s')"]
    by (auto simp: sets set_om_erase [of "(p, s)" "active_timer_set q"])
next
  case (8 p1 t1 p2 t2)
  then show ?case by (auto split: if_splits dest: cd(8))
next
  case (9 p' t')
  then show ?case using cd(9) by (auto split: if_splits)
next
  case 10
  have "p \<notin> P" using mem cd(11) by force
  then show ?case using cd(10) by (auto simp: sets)
next
  case 11
  then show ?case using cd(11) by (auto simp: sets)
qed (use cd(1-5) in \<open>auto simp: om_inv_erase\<close>)

lemma core_erase:
  assumes core: "tq_core q P"
  shows "\<exists>q'. tq_erase d q = Inr q' \<and> tq_core q' P \<and> erased d q q'"
proof (cases "om_find d (active_timer_set q)")
  case None
  then have "(p, snd e) \<noteq> d" if "(e, p) \<in> set (timer_list q)" for e p
    using tq_coreD(7) [OF core, of p "snd e"] that by (cases e) (force simp: om_find_None)
  then have "erased d q q" using None by (auto simp: erased_def)
  with None core show ?thesis by (simp add: tq_erase_def)
next
  case (Some u)
  note cd = tq_coreD [OF core]
  obtain p s where ps: "d = (p, s)" by fastforce
  from Some have "((p, s), u) \<in> set (active_timer_set q)"
    by (simp add: ps om_find_iff cd(2))
  then obtain x where mem: "((x, s), p) \<in> set (timer_list q)" using cd(7) by blast
  from cd(6) [OF mem] obtain t where t: "timer_heap q p = Some t" "(x, s) = (expiration t, sequence t)"
    by blast
  have find: "om_find (x, s) (timer_list q) = Some p"
    using mem by (simp add: om_find_iff cd(1))
  let ?q = "q\<lparr>active_timer_set := om_erase (p, s) (active_timer_set q),
      timer_list := om_erase (x, s) (timer_list q), timer_heap := (timer_heap q)(p := None)\<rparr>"
  note sets = core_entries_without [OF core mem] and core' = core_without [OF core mem]
  have "erased d q ?q"
    using Some by (auto simp: erased_def sets ps dest: core_ptr_inj [OF core mem])
  moreover have "tq_erase d q = Inr ?q"
    using Some t find by (simp add: tq_erase_def ps deref_def list_erase_def)
  ultimately show ?thesis using core' by auto
qed

lemma core_cancel_running:
  assumes "tq_core q P" and "is_running_callback q"
  shows "\<exists>q'. cancelTimerInLoop True i q = Inr q' \<and> tq_core q' P \<and> grows q q' \<and>
    is_running_callback q' \<and> timer_list q' = timer_list q \<and> queued q' = queued q \<and> ran q' = ran q \<and>
    set (canceling_timer_set q') = insert ((id_timer i, id_sequence i), ()) (set (canceling_timer_set q))"
proof -
  note d = tq_coreD [OF assms(1)]
  let ?q = "q\<lparr>canceling_timer_set := om_put (id_timer i, id_sequence i) () (canceling_timer_set q)\<rparr>"
  have core: "tq_core ?q P"
    using assms(1) d(3) by (simp add: core_canceling om_inv_put)
  have "cancelTimerInLoop True i q = Inr ?q"
    using assms(2) core_sizes_agree [OF assms(1)] core_sizes_agree [OF core]
    by (simp add: cancelTimerInLoop_def)
  with core show ?thesis
    using assms(2) d(3) by (auto simp: grows_def set_om_put)
qed

lemma core_cancel_idle:
  assumes core: "tq_core q P" and "\<not> is_running_callback q"
  shows "\<exists>q'. cancelTimerInLoop True i q = Inr q' \<and> tq_core q' P \<and> erased (id_timer i, id_sequence i) q q'"
proof -
  from core_erase [OF core] obtain q' where
    "tq_erase (id_timer i, id_sequence i) q = Inr q'" "tq_core q' P" "erased (id_timer i, id_sequence i) q q'"
    by blast
  with assms(2) core_sizes_agree [OF core] core_sizes_agree [of q' P] show ?thesis
    by (simp add: cancelTimerInLoop_def)
qed

lemma core_addTimerInLoop:
  assumes core: "tq_core q P" and p: "p \<in> P"
  shows "\<exists>t q'. timer_heap q p = Some t \<and> addTimerInLoop S True p q = Inr q' \<and> tq_core q' (P - {p}) \<and>
    set (timer_list q') = insert ((expiration t, sequence t), p) (set (timer_list q)) \<and>
    timer_heap q' = timer_heap q \<and> canceling_timer_set q' = canceling_timer_set q \<and>
    is_running_callback q' = is_running_callback q \<and> s_global_sequence q' = s_global_sequence q \<and>
    queued q' = queued q \<and> ran q' = ran q \<and>
    tq_kernel q' = (if timer_list q = [] \<or> expiration t < fst (fst (hd (timer_list q)))
                    then resetTimerFd S (expiration t) (tq_kernel q) else tq_kernel q)"
proof -
  from core_insert [OF core p] obtain t q1 where t: "timer_heap q p = Some t"
    and ins: "tq_insert True p q = Inr (timer_list q = [] \<or> expiration t < fst (fst (hd (timer_list q))), q1)"
    and q1: "tq_core q1 (P - {p})"
      "set (timer_list q1) = insert ((expiration t, sequence t), p) (set (timer_list q))"
      "timer_heap q1 = timer_heap q" "canceling_timer_set q1 = canceling_timer_set q"
      "is_running_callback q1 = is_running_callback q" "s_global_sequence q1 = s_global_sequence q"
      "queued q1 = queued q" "ran q1 = ran q" "tq_kernel q1 = tq_kernel q"
    by blast
  from t q1 ins show ?thesis
    by (cases "timer_list q = [] \<or> expiration t < fst (fst (hd (timer_list q)))")
       (simp_all add: addTimerInLoop_def deref_def)
qed

lemma core_addTimer:
  assumes core: "tq_core q P" and alloc: "alloc_ok S"
  shows "\<exists>p t q'. addTimer S True cb when ival q = Inr (\<lparr>id_timer = p, id_sequence = s_global_sequence q\<rparr>, q') \<and>
    tq_core q' P \<and> grows q q' \<and> p \<notin> dom (timer_heap q) \<and> timer_heap q' = (timer_heap q)(p \<mapsto> t) \<and>
    t = fst (Timer_new cb when ival (s_global_sequence q)) \<and>
    set (timer_list q') = insert ((when, s_global_sequence q), p) (set (timer_list q)) \<and>
    is_running_callback q' = is_running_callback q \<and> canceling_timer_set q' = canceling_timer_set q \<and>
    queued q' = queued q \<and> ran q' = ran q \<and>
    tq_kernel q' = (if timer_list q = [] \<or> when < fst (fst (hd (timer_list q)))
                    then resetTimerFd S when (tq_kernel q) else tq_kernel q)"
proof -
  note d = tq_coreD [OF core]
  let ?p = "new_addr S (dom (timer_heap q))"
  let ?t = "fst (Timer_new cb when ival (s_global_sequence q))"
  let ?q = "q\<lparr>timer_heap := (timer_heap q)(?p \<mapsto> ?t), s_global_sequence := s_global_sequence q + 1\<rparr>"
  have p: "?p \<notin> dom (timer_heap q)" "?p \<noteq> 0"
    using alloc d(4) by (auto simp: alloc_ok_def)
  have core': "tq_core ?q (insert ?p P)"
    using core_alloc [OF core p] by (simp add: Timer_new_def)
  from core_addTimerInLoop [OF this, of ?p S] obtain q' where
    q': "addTimerInLoop S True ?p ?q = Inr q'" "tq_core q' (insert ?p P - {?p})"
      "set (timer_list q') = insert ((when, s_global_sequence q), ?p) (set (timer_list q))"
      "timer_heap q' = (timer_heap q)(?p \<mapsto> ?t)" "canceling_timer_set q' = canceling_timer_set q"
      "is_running_callback q' = is_running_callback q" "s_global_sequence q' = s_global_sequence q + 1"
      "queued q' = queued q" "ran q' = ran q"
      "tq_kernel q' = (if timer_list q = [] \<or> when < fst (fst (hd (timer_list q)))
                    then resetTimerFd S when (tq_kernel q) else tq_kernel q)"
    by (auto simp: Timer_new_def)
  have "insert ?p P - {?p} = P" using p(1) d(10) by auto
  moreover have "timer_heap q \<subseteq>\<^sub>m (timer_heap q)(?p \<mapsto> ?t)"
    using p(1) by (auto simp: map_le_def)
  moreover have "addTimer S True cb when ival q =
      Inr (\<lparr>id_timer = ?p, id_sequence = s_global_sequence q\<rparr>, q')"
    using q'(1) by (simp add: addTimer_def Timer_new_def tq_runInLoop_def Let_def)
  ultimately show ?thesis
    using q' p(1) by (auto simp: grows_def)
qed

text \<open>A callback's calls, whatever they are, keep the invariant and remove nothing.\<close>

lemma core_tq_act:
  assumes "tq_core q P" and "is_running_callback q" and "alloc_ok S"
  shows "\<exists>q'. tq_act S a q = Inr q' \<and> tq_core q' P \<and> grows q q' \<and> is_running_callback q' \<and>
    queued q' = queued q \<and> ran q' = ran q"
proof (cases a)
  case (AddTimer cb w ival)
  with core_addTimer [OF assms(1,3), of cb w ival] assms(2) show ?thesis by auto
next
  case (CancelTimer i)
  with core_cancel_running [OF assms(1,2), of i] show ?thesis
    by (auto simp: cancelTimer_def tq_runInLoop_def)
qed

lemma core_tq_acts:
  assumes "tq_core q P" and "is_running_callback q" and "alloc_ok S"
  shows "\<exists>q'. fold_r (tq_act S) as q = Inr q' \<and> tq_core q' P \<and> grows q q' \<and> is_running_callback q' \<and>
    queued q' = queued q \<and> ran q' = ran q"
proof (rule fold_r_invariant [where P = "\<lambda>q'. tq_core q' P \<and> grows q q' \<and> is_running_callback q' \<and>
      queued q' = queued q \<and> ran q' = ran q"])
  fix a r
  assume r: "tq_core r P \<and> grows q r \<and> is_running_callback r \<and> queued r = queued q \<and> ran r = ran q"
  from core_tq_act [of r P S a] r assms(3) obtain q' where
    "tq_act S a r = Inr q'" "tq_core q' P" "grows r q'" "is_running_callback q'"
    "queued q' = queued r" "ran q' = ran r" by blast
  with r show "\<exists>q'. tq_act S a r = Inr q' \<and> tq_core q' P \<and> grows q q' \<and> is_running_callback q' \<and>
      queued q' = queued q \<and> ran q' = ran q"
    using grows_trans by auto
qed (use assms in auto)

section \<open>Running the expired timers\<close>

lemma timer_list_id [simp]: "q\<lparr>timer_list := timer_list q\<rparr> = q"
  by (cases q) simp

lemma core_run_entry:
  assumes core: "tq_core q P" and run: "is_running_callback q" and alloc: "alloc_ok S"
    and mem: "(e, p) \<in> set (timer_list q)"
  shows "\<exists>q'. run_entry S U e q = Inr q' \<and> tq_core q' P \<and> grows q q' \<and> is_running_callback q' \<and>
    queued q' = queued q \<and> ran q' = ran q @ [p]"
proof -
  let ?q = "q\<lparr>ran := ran q @ [p]\<rparr>"
  from tq_coreD(6) [OF core mem] obtain t where t: "timer_heap q p = Some t" by blast
  have at: "om_at 0 e (timer_list q) = (p, timer_list q)"
    using om_at_present [OF tq_coreD(1) [OF core] mem] .
  have g: "grows q r \<longleftrightarrow> grows ?q r" for r by (simp add: grows_def)
  have eq: "run_entry S U e q = (case callback t of None \<Rightarrow> Inr ?q
      | Some cb \<Rightarrow> fold_r (tq_act S) (U cb ?q) ?q)"
    by (simp add: run_entry_def at deref_def t Let_def split: option.split)
  show ?thesis
  proof (cases "callback t")
    case None
    then show ?thesis using eq core run by (simp add: g)
  next
    case (Some cb)
    with core_tq_acts [of ?q P S "U cb ?q"] core run alloc eq show ?thesis by (simp add: g)
  qed
qed

lemma core_run_entries:
  assumes "tq_core q P" and "is_running_callback q" and "alloc_ok S"
    and "set es \<subseteq> set (timer_list q)"
  shows "\<exists>q'. fold_r (run_entry S U) (map fst es) q = Inr q' \<and> tq_core q' P \<and> grows q q' \<and>
    is_running_callback q' \<and> queued q' = queued q \<and> ran q' = ran q @ map snd es"
  using assms
proof (induction es arbitrary: q)
  case Nil
  then show ?case by simp
next
  case (Cons ep es)
  obtain e p where ep: "ep = (e, p)" by fastforce
  from core_run_entry [OF Cons.prems(1,2,3), of e p U] Cons.prems(4) ep obtain q1 where
    q1: "run_entry S U e q = Inr q1" "tq_core q1 P" "grows q q1" "is_running_callback q1"
      "queued q1 = queued q" "ran q1 = ran q @ [p]" by auto
  have "set es \<subseteq> set (timer_list q1)"
    using Cons.prems(4) q1(3) by (auto simp: grows_def)
  from Cons.IH [OF q1(2,4) Cons.prems(3) this] q1 ep grows_trans [OF q1(3)] show ?case
    by fastforce
qed

section \<open>Rescheduling\<close>

text \<open>
  One round of the loop in \<open>reset\<close>: the entry is replaced by the rescheduled one when the
  timer repeats and was not cancelled, and removed otherwise.
\<close>

definition next_entry :: "MonotonicTimestamp \<Rightarrow> 'cb timer \<Rightarrow> entry" where
  "next_entry now t = (addTime now (interval t), sequence t)"

definition keeps :: "('cb, 'k) timer_queue \<Rightarrow> ptr \<Rightarrow> 'cb timer \<Rightarrow> bool" where
  "keeps q p t \<longleftrightarrow> repeat t \<and> ((p, sequence t), ()) \<notin> set (canceling_timer_set q)"

lemma core_other_entry:
  assumes core: "tq_core q P" and mem: "(e, p) \<in> set (timer_list q)" and t: "timer_heap q p = Some t"
    and that: "r \<in> set (timer_list q)" "r \<noteq> (e, p)"
  shows "snd (fst r) \<noteq> sequence t \<and> snd r \<noteq> p"
proof -
  have e: "e = (expiration t, sequence t)" using core_entry_eq [OF core mem t] .
  obtain x s p' where r: "r = ((x, s), p')" by (cases r) auto
  have "s = sequence t \<Longrightarrow> r = (e, p)"
    using that(1) mem core_seq_inj [OF core, of x "sequence t" p' "expiration t" p] by (auto simp: r e)
  moreover have "p' = p \<Longrightarrow> r = (e, p)"
    using that(1) core_ptr_inj [OF core mem, of "(x, s)"] by (auto simp: r)
  ultimately show ?thesis using that(2) by (auto simp: r)
qed

lemma core_rekey:
  assumes core: "tq_core q P" and mem: "(e, p) \<in> set (timer_list q)" and t: "timer_heap q p = Some t"
    and rst: "restart now t = t\<lparr>expiration := addTime now (interval t)\<rparr>"
    and sets: "set (om_put (next_entry now t) p (om_erase e (timer_list q))) =
      insert (next_entry now t, p) (set (timer_list q) - {(e, p)})"
  shows "tq_core (q\<lparr>timer_list := om_put (next_entry now t) p (om_erase e (timer_list q)),
      timer_heap := (timer_heap q)(p \<mapsto> restart now t)\<rparr>) P"
  supply d = tq_coreD [OF core] and e = core_entry_eq [OF core mem t]
    and other = core_other_entry [OF core mem t]
proof (rule tq_coreI, goal_cases)
  case (6 e' p')
  then have "(e', p') \<in> insert (next_entry now t, p) (set (timer_list q) - {(e, p)})" by (simp add: sets)
  then show ?case using d(6) [of e' p'] other [of "(e', p')"] by (auto simp: rst next_entry_def)
next
  case (7 p' s')
  have "(\<exists>x. ((x, s'), p') \<in> set (timer_list q)) \<longleftrightarrow>
      (\<exists>x. ((x, s'), p') \<in> insert (next_entry now t, p) (set (timer_list q) - {(e, p)}))"
    using mem e by (auto simp: next_entry_def)
  then show ?case using d(7) [of p' s'] by (simp add: sets)
next
  case (8 p1 t1 p2 t2)
  then show ?case using d(8) t by (auto simp: rst split: if_splits)
next
  case (9 p' t')
  then show ?case using d(9) t by (auto simp: rst split: if_splits)
next
  case 10
  have "snd ` insert (next_entry now t, p) (set (timer_list q) - {(e, p)}) = snd ` set (timer_list q)"
    using mem by force
  then show ?case using d(10) t by (auto simp: sets)
next
  case 11
  have "snd ` insert (next_entry now t, p) (set (timer_list q) - {(e, p)}) = snd ` set (timer_list q)"
    using mem by force
  then show ?case using d(11) by (simp add: sets)
qed (use d(1-5) t in \<open>auto simp: om_inv_put om_inv_erase intro: gr0I\<close>)

lemma core_reset_repeat:
  assumes core: "tq_core q P" and mem: "(e, p) \<in> set (timer_list q)" and t: "timer_heap q p = Some t"
    and keep: "keeps q p t"
  shows "\<exists>q'. reset_one now e q = Inr q' \<and> tq_core q' P \<and>
    set (timer_list q') = insert (next_entry now t, p) (set (timer_list q) - {(e, p)}) \<and>
    timer_heap q' = (timer_heap q)(p \<mapsto> restart now t) \<and>
    canceling_timer_set q' = canceling_timer_set q \<and> is_running_callback q' = is_running_callback q \<and>
    s_global_sequence q' = s_global_sequence q \<and> queued q' = queued q \<and> ran q' = ran q \<and>
    tq_kernel q' = tq_kernel q"
proof -
  note d = tq_coreD [OF core]
  have e: "e = (expiration t, sequence t)" using core_entry_eq [OF core mem t] .
  let ?n = "next_entry now t"
  have rst: "restart now t = t\<lparr>expiration := addTime now (interval t)\<rparr>"
    using keep by (simp add: restart_def keeps_def)
  have at: "om_at 0 e (timer_list q) = (p, timer_list q)"
    using om_at_present [OF d(1) mem] .
  note other = core_other_entry [OF core mem t]
  have free: "?n \<notin> fst ` set (om_erase e (timer_list q))"
    using other by (force simp: set_om_erase next_entry_def)
  have sets: "set (om_put ?n p (om_erase e (timer_list q))) = insert (?n, p) (set (timer_list q) - {(e, p)})"
    using om.rekey_entries [OF d(1) mem free] .
  let ?q = "q\<lparr>timer_list := om_put ?n p (om_erase e (timer_list q)),
      timer_heap := (timer_heap q)(p \<mapsto> restart now t)\<rparr>"
  note core' = core_rekey [OF core mem t rst sets]
  have find: "om_find (p, snd e) (canceling_timer_set q) = None"
    using keep by (auto simp: keeps_def om_find_None e)
  have "om_find ?n (om_erase e (timer_list q)) = None"
    using free by (simp add: om_find_None)
  moreover have "snd e = sequence t" by (simp add: e)
  ultimately have "reset_one now e q = Inr ?q"
    using keep find
    by (simp add: reset_one_def at deref_def t keeps_def list_assign_def Let_def rst next_entry_def)
  with core' show ?thesis by (auto simp: sets)
qed

lemma core_reset_drop:
  assumes core: "tq_core q P" and mem: "(e, p) \<in> set (timer_list q)" and t: "timer_heap q p = Some t"
    and drop: "\<not> keeps q p t"
  shows "\<exists>q'. reset_one now e q = Inr q' \<and> tq_core q' P \<and>
    set (timer_list q') = set (timer_list q) - {(e, p)} \<and>
    timer_heap q' = (timer_heap q)(p := None) \<and>
    set (canceling_timer_set q') = set (canceling_timer_set q) - {((p, sequence t), ())} \<and>
    is_running_callback q' = is_running_callback q \<and>
    s_global_sequence q' = s_global_sequence q \<and> queued q' = queued q \<and> ran q' = ran q \<and>
    tq_kernel q' = tq_kernel q"
proof -
  note d = tq_coreD [OF core]
  have e: "e = (expiration t, sequence t)" using core_entry_eq [OF core mem t] .
  have at: "om_at 0 e (timer_list q) = (p, timer_list q)"
    using om_at_present [OF d(1) mem] .
  from core_erase [OF core] obtain q1 where
    q1: "tq_erase (p, sequence t) q = Inr q1" "tq_core q1 P" "erased (p, sequence t) q q1" by blast
  have snd_e: "snd e = sequence t" by (simp add: e)
  have act: "((p, sequence t), ()) \<in> set (active_timer_set q)" using mem e d(7) by blast
  then have find: "om_find (p, sequence t) (active_timer_set q) \<noteq> None" by (auto simp: om_find_iff d(2))
  let ?q = "q1\<lparr>canceling_timer_set := om_erase (p, sequence t) (canceling_timer_set q1)\<rparr>"
  have "om_find (p, sequence t) (canceling_timer_set q) = None \<Longrightarrow> \<not> repeat t"
    using drop om_find_iff [OF d(3), of "(p, sequence t)"] by (auto simp: keeps_def)
  then have "reset_one now e q = Inr ?q"
    using q1(1) by (auto simp: reset_one_def at deref_def t Let_def snd_e)
  moreover have "tq_core ?q P"
    using q1(2) by (simp add: core_canceling om_inv_erase tq_coreD(3) [OF q1(2)])
  moreover have "set (timer_list q1) = set (timer_list q) - {(e, p)}"
    using q1(3) snd_e unfolding erased_def by (auto dest: core_ptr_inj [OF core mem])
  ultimately show ?thesis
    using q1(3) find by (auto simp: erased_def set_om_erase)
qed

definition rescheduled ::
    "MonotonicTimestamp \<Rightarrow> ('cb, 'k) timer_queue \<Rightarrow> (entry \<times> ptr) set \<Rightarrow> (entry \<times> ptr) set" where
  "rescheduled now q E =
     {(next_entry now t, p) |e p t. (e, p) \<in> E \<and> timer_heap q p = Some t \<and> keeps q p t}"

definition dropped :: "('cb, 'k) timer_queue \<Rightarrow> (entry \<times> ptr) set \<Rightarrow> (active_timer \<times> unit) set" where
  "dropped q E =
     {((p, sequence t), ()) |e p t. (e, p) \<in> E \<and> timer_heap q p = Some t \<and> \<not> keeps q p t}"

lemma rescheduled_insert:
  assumes "timer_heap q p = Some t"
  shows "rescheduled now q (insert (e, p) E) =
    (if keeps q p t then insert (next_entry now t, p) (rescheduled now q E) else rescheduled now q E)"
  using assms by (cases e) (auto simp: rescheduled_def)

lemma dropped_insert:
  assumes "timer_heap q p = Some t"
  shows "dropped q (insert (e, p) E) =
    (if keeps q p t then dropped q E else insert ((p, sequence t), ()) (dropped q E))"
  using assms by (cases e) (auto simp: dropped_def)

text \<open>\<open>rescheduled\<close> and \<open>dropped\<close> look at the timers of the given entries only.\<close>

lemma rescheduled_cong:
  assumes "\<And>e p. (e, p) \<in> E \<Longrightarrow> timer_heap q' p = timer_heap q p"
    and "\<And>e p s. (e, p) \<in> E \<Longrightarrow>
      ((p, s), ()) \<in> set (canceling_timer_set q') \<longleftrightarrow> ((p, s), ()) \<in> set (canceling_timer_set q)"
  shows "rescheduled now q' E = rescheduled now q E" and "dropped q' E = dropped q E"
  using assms by (auto simp: rescheduled_def dropped_def keeps_def) (metis assms)+

text \<open>Both ways one round can go, in one equation per set.\<close>

lemma core_reset_cases:
  assumes core: "tq_core q P" and mem: "(e, p) \<in> set (timer_list q)" and t: "timer_heap q p = Some t"
  obtains q' where "reset_one now e q = Inr q'" "tq_core q' P"
    "set (timer_list q') =
      (if keeps q p t then {(next_entry now t, p)} else {}) \<union> (set (timer_list q) - {(e, p)})"
    "\<And>p'. p' \<noteq> p \<Longrightarrow> timer_heap q' p' = timer_heap q p'"
    "set (canceling_timer_set q') =
      set (canceling_timer_set q) - (if keeps q p t then {} else {((p, sequence t), ())})"
    "is_running_callback q' = is_running_callback q" "s_global_sequence q' = s_global_sequence q"
    "queued q' = queued q" "ran q' = ran q" "tq_kernel q' = tq_kernel q"
proof (cases "keeps q p t")
  case True
  from core_reset_repeat [OF core mem t True, of now] show thesis
    by (elim exE conjE) (rule that, assumption, assumption, simp_all add: True)
next
  case False
  from core_reset_drop [OF core mem t False, of now] show thesis
    by (elim exE conjE) (rule that, assumption, assumption, simp_all add: False)
qed

lemma core_reset_one:
  assumes core: "tq_core q P" and mem: "(e, p) \<in> set (timer_list q)" and E: "(e, p) \<notin> E" "E \<subseteq> set (timer_list q)"
  shows "\<exists>q'. reset_one now e q = Inr q' \<and> tq_core q' P \<and> E \<subseteq> set (timer_list q') \<and>
    set (timer_list q') - E \<union> rescheduled now q' E =
      set (timer_list q) - insert (e, p) E \<union> rescheduled now q (insert (e, p) E) \<and>
    set (canceling_timer_set q') - dropped q' E = set (canceling_timer_set q) - dropped q (insert (e, p) E) \<and>
    is_running_callback q' = is_running_callback q \<and> s_global_sequence q' = s_global_sequence q \<and>
    queued q' = queued q \<and> ran q' = ran q \<and> tq_kernel q' = tq_kernel q"
proof -
  from tq_coreD(6) [OF core mem] obtain t where t: "timer_heap q p = Some t" by blast
  obtain q' where q': "reset_one now e q = Inr q'" "tq_core q' P"
    "set (timer_list q') =
      (if keeps q p t then {(next_entry now t, p)} else {}) \<union> (set (timer_list q) - {(e, p)})"
    "\<And>p'. p' \<noteq> p \<Longrightarrow> timer_heap q' p' = timer_heap q p'"
    "set (canceling_timer_set q') =
      set (canceling_timer_set q) - (if keeps q p t then {} else {((p, sequence t), ())})"
    "is_running_callback q' = is_running_callback q" "s_global_sequence q' = s_global_sequence q"
    "queued q' = queued q" "ran q' = ran q" "tq_kernel q' = tq_kernel q"
    by (rule core_reset_cases [OF core mem t, of now]) blast
  have other: "p' \<noteq> p" if "(e', p') \<in> E" for e' p'
    using that E core_ptr_inj [OF core mem, of e'] by auto
  have old: "(next_entry now t, p) \<notin> E" using other by blast
  have cong: "rescheduled now q' E = rescheduled now q E" "dropped q' E = dropped q E"
    by (rule rescheduled_cong; use q'(4,5) other in auto)+
  have "set (timer_list q') - E \<union> rescheduled now q' E =
      set (timer_list q) - insert (e, p) E \<union> rescheduled now q (insert (e, p) E)"
    unfolding cong rescheduled_insert [OF t] q'(3) using old by auto
  moreover have "set (canceling_timer_set q') - dropped q' E =
      set (canceling_timer_set q) - dropped q (insert (e, p) E)"
    unfolding cong dropped_insert [OF t] q'(5) by auto
  moreover have "E \<subseteq> set (timer_list q')" using E q'(3) by auto
  ultimately show ?thesis using q' by blast
qed

lemma core_reset_all:
  assumes "tq_core q P" and "set es \<subseteq> set (timer_list q)" and "distinct es"
  shows "\<exists>q'. fold_r (reset_one now) (map fst es) q = Inr q' \<and> tq_core q' P \<and>
    set (timer_list q') = set (timer_list q) - set es \<union> rescheduled now q (set es) \<and>
    set (canceling_timer_set q') = set (canceling_timer_set q) - dropped q (set es) \<and>
    is_running_callback q' = is_running_callback q \<and> s_global_sequence q' = s_global_sequence q \<and>
    queued q' = queued q \<and> ran q' = ran q \<and> tq_kernel q' = tq_kernel q"
  using assms
proof (induction es arbitrary: q)
  case Nil
  then show ?case by (simp add: rescheduled_def dropped_def)
next
  case (Cons ep es)
  obtain e p where ep: "ep = (e, p)" by fastforce
  have mem: "(e, p) \<in> set (timer_list q)" "(e, p) \<notin> set es" "set es \<subseteq> set (timer_list q)"
    using Cons.prems ep by auto
  from core_reset_one [OF Cons.prems(1) mem, of now] obtain q1 where
    q1: "reset_one now e q = Inr q1" "tq_core q1 P" "set es \<subseteq> set (timer_list q1)"
      "set (timer_list q1) - set es \<union> rescheduled now q1 (set es) =
        set (timer_list q) - insert (e, p) (set es) \<union> rescheduled now q (insert (e, p) (set es))"
      "set (canceling_timer_set q1) - dropped q1 (set es) =
        set (canceling_timer_set q) - dropped q (insert (e, p) (set es))"
      "is_running_callback q1 = is_running_callback q" "s_global_sequence q1 = s_global_sequence q"
      "queued q1 = queued q" "ran q1 = ran q" "tq_kernel q1 = tq_kernel q" by blast
  from Cons.IH [OF q1(2,3)] Cons.prems(3) obtain q' where
    "fold_r (reset_one now) (map fst es) q1 = Inr q'" "tq_core q' P"
    "set (timer_list q') = set (timer_list q1) - set es \<union> rescheduled now q1 (set es)"
    "set (canceling_timer_set q') = set (canceling_timer_set q1) - dropped q1 (set es)"
    "is_running_callback q' = is_running_callback q1" "s_global_sequence q' = s_global_sequence q1"
    "queued q' = queued q1" "ran q' = ran q1" "tq_kernel q' = tq_kernel q1" by auto
  with q1 ep show ?case by simp
qed

lemma core_erase_all:
  assumes "tq_core q P"
  shows "\<exists>q'. fold_r tq_erase ds q = Inr q' \<and> tq_core q' P \<and>
    set (timer_list q') = {(e, p) \<in> set (timer_list q). (p, snd e) \<notin> set ds} \<and>
    is_running_callback q' = is_running_callback q \<and> s_global_sequence q' = s_global_sequence q \<and>
    queued q' = queued q \<and> ran q' = ran q \<and> tq_kernel q' = tq_kernel q"
  using assms
proof (induction ds arbitrary: q)
  case Nil
  then show ?case by auto
next
  case (Cons d ds)
  from core_erase [OF Cons.prems, of d] obtain q1 where
    q1: "tq_erase d q = Inr q1" "tq_core q1 P" "erased d q q1" by blast
  from Cons.IH [OF q1(2)] obtain q' where
    q': "fold_r tq_erase ds q1 = Inr q'" "tq_core q' P"
    "set (timer_list q') = {(e, p) \<in> set (timer_list q1). (p, snd e) \<notin> set ds}"
    "is_running_callback q' = is_running_callback q1" "s_global_sequence q' = s_global_sequence q1"
    "queued q' = queued q1" "ran q' = ran q1" "tq_kernel q' = tq_kernel q1" by blast
  have "set (timer_list q') = {(e, p) \<in> set (timer_list q). (p, snd e) \<notin> set (d # ds)}"
    using q'(3) q1(3) by (auto simp: erased_def)
  with q1 q' show ?case by (simp add: erased_def)
qed

section \<open>The whole handler\<close>

text \<open>The entries of the list that have expired, and the state after the callbacks ran.\<close>

definition expired :: "MonotonicTimestamp \<Rightarrow> ('cb, 'k) timer_queue \<Rightarrow> (entry \<times> ptr) list" where
  "expired now q = filter (\<lambda>(e, p). fst e \<le> now) (timer_list q)"

definition after_callbacks :: "'k tq_sys \<Rightarrow> ('cb, 'k) tq_callbacks \<Rightarrow> ('cb, 'k) timer_queue \<Rightarrow>
    error + ('cb, 'k) timer_queue" where
  "after_callbacks S U q =
     (let (now, k) = clock_now S (tq_kernel q)
      in fold_r (run_entry S U) (map fst (expired now q))
           (q\<lparr>tq_kernel := readTimerFd S k, is_running_callback := True\<rparr>))"

lemma entry_le_edge: "snd e \<le> LLONG_MAX \<Longrightarrow> e \<le> (now, LLONG_MAX) \<longleftrightarrow> fst e \<le> now"
  for e :: entry
  by (cases e) (auto simp: less_imp_le)

lemma om_upto_expired:
  assumes core: "tq_core q P" and seq: "s_global_sequence q \<le> LLONG_MAX"
  shows "om_upto (now, LLONG_MAX) (timer_list q) = expired now q"
    and "p \<in> set (om_from (now, LLONG_MAX) (timer_list q)) \<Longrightarrow> now < fst (fst p)"
proof -
  note d = tq_coreD [OF core]
  have le: "snd (fst r) \<le> LLONG_MAX" if "r \<in> set (timer_list q)" for r
    using d(6) [of "fst r" "snd r"] d(9) that seq by fastforce
  show "om_upto (now, LLONG_MAX) (timer_list q) = expired now q"
    unfolding om_upto_filter [OF d(1)] expired_def
    using le entry_le_edge by (auto intro!: filter_cong simp: case_prod_unfold)
  assume p: "p \<in> set (om_from (now, LLONG_MAX) (timer_list q))"
  then have "p \<in> set (timer_list q)" by (auto simp: om_from_def dest: set_dropWhileD)
  with om_from_gt [OF d(1) p] le [of p] show "now < fst (fst p)"
    by (metis entry_le_edge not_le)
qed

lemma getExpiredTimers_ok:
  assumes core: "tq_core q P" and seq: "s_global_sequence q \<le> LLONG_MAX"
  shows "getExpiredTimers now q = Inr (map fst (expired now q))"
proof (cases "om_from (now, LLONG_MAX) (timer_list q)")
  case Nil
  then show ?thesis
    using core_sizes_agree [OF core] om_upto_expired [OF core seq]
    by (simp add: getExpiredTimers_def)
next
  case (Cons r rs)
  obtain e p where r: "r = (e, p)" by fastforce
  have mem: "(e, p) \<in> set (timer_list q)"
    using Cons r by (metis list.set_intros(1) om_from_def set_dropWhileD)
  from tq_coreD(6) [OF core mem] obtain t where "timer_heap q p = Some t" "e = (expiration t, sequence t)"
    by blast
  moreover have "now < fst e"
    using om_upto_expired(2) [OF core seq, of "(e, p)"] Cons r by simp
  ultimately show ?thesis
    using core_sizes_agree [OF core] om_upto_expired(1) [OF core seq] Cons r
    by (simp add: getExpiredTimers_def deref_def)
qed

lemma expired_subset: "set (expired now q) \<subseteq> set (timer_list q)"
  by (auto simp: expired_def)

lemma distinct_expired: "tq_core q P \<Longrightarrow> distinct (expired now q)"
  by (simp add: expired_def om_inv_distinct_entries tq_coreD(1))

lemma core_reset:
  assumes core: "tq_core q P" and es: "set es \<subseteq> set (timer_list q)" "distinct es"
  shows "\<exists>q'. tq_reset S (map fst es) now q = Inr q' \<and> tq_core q' P \<and> canceling_timer_set q' = [] \<and>
    set (timer_list q') =
      {(e, p) \<in> set (timer_list q) - set es. ((p, snd e), ()) \<notin> set (canceling_timer_set q)} \<union>
      rescheduled now q (set es) \<and>
    is_running_callback q' = is_running_callback q \<and> s_global_sequence q' = s_global_sequence q \<and>
    queued q' = queued q \<and> ran q' = ran q \<and>
    tq_kernel q' = (if timer_list q' \<noteq> [] \<and> vaild (fst (fst (hd (timer_list q'))))
                    then resetTimerFd S (fst (fst (hd (timer_list q')))) (tq_kernel q) else tq_kernel q)"
proof -
  from core_reset_all [OF core es, of now] obtain q1 where
    q1: "fold_r (reset_one now) (map fst es) q = Inr q1" "tq_core q1 P"
      "set (timer_list q1) = set (timer_list q) - set es \<union> rescheduled now q (set es)"
      "set (canceling_timer_set q1) = set (canceling_timer_set q) - dropped q (set es)"
      "is_running_callback q1 = is_running_callback q" "s_global_sequence q1 = s_global_sequence q"
      "queued q1 = queued q" "ran q1 = ran q" "tq_kernel q1 = tq_kernel q" by blast
  from core_erase_all [OF q1(2), of "map fst (canceling_timer_set q1)"] obtain q2 where
    q2: "fold_r tq_erase (map fst (canceling_timer_set q1)) q1 = Inr q2" "tq_core q2 P"
      "set (timer_list q2) = {(e, p) \<in> set (timer_list q1). (p, snd e) \<notin> fst ` set (canceling_timer_set q1)}"
      "is_running_callback q2 = is_running_callback q1" "s_global_sequence q2 = s_global_sequence q1"
      "queued q2 = queued q1" "ran q2 = ran q1" "tq_kernel q2 = tq_kernel q1" by auto
  have canc: "(p, s) \<in> fst ` set (canceling_timer_set q1) \<longleftrightarrow>
      ((p, s), ()) \<in> set (canceling_timer_set q) \<and> ((p, s), ()) \<notin> dropped q (set es)" for p s
    unfolding q1(4) by force
  have nodrop: "((p, snd e), ()) \<notin> dropped q (set es)" if "(e, p) \<in> set (timer_list q) - set es" for e p
  proof
    assume "((p, snd e), ()) \<in> dropped q (set es)"
    then obtain e' where "(e', p) \<in> set es" by (auto simp: dropped_def)
    with that es core_ptr_inj [OF core, of e p e'] show False by auto
  qed
  have resch: "((p, snd e), ()) \<notin> set (canceling_timer_set q)" if "(e, p) \<in> rescheduled now q (set es)" for e p
    using that by (auto simp: rescheduled_def keeps_def next_entry_def)
  have sets: "set (timer_list q2) =
      {(e, p) \<in> set (timer_list q) - set es. ((p, snd e), ()) \<notin> set (canceling_timer_set q)} \<union>
      rescheduled now q (set es)"
    unfolding q2(3) q1(3) canc using nodrop resch by fastforce
  have "vaild MonotonicTimestamp_default = False"
    by (simp add: vaild_def MonotonicTimestamp_default_def)
  then show ?thesis
    using q1 q2 sets
    by (auto simp: tq_reset_def Let_def core_canceling)
qed

lemma core_handleRead:
  assumes core: "tq_core q P" and alloc: "alloc_ok S" and seq: "s_global_sequence q \<le> LLONG_MAX"
    and clock: "clock_now S (tq_kernel q) = (now, k)"
  shows "\<exists>q2 q'. after_callbacks S U q = Inr q2 \<and> tq_core q2 P \<and>
    grows (q\<lparr>tq_kernel := readTimerFd S k, is_running_callback := True\<rparr>) q2 \<and>
    tq_handleRead S U q = Inr q' \<and> tq_core q' P \<and>
    canceling_timer_set q' = [] \<and> \<not> is_running_callback q' \<and> queued q' = queued q \<and>
    s_global_sequence q' = s_global_sequence q2 \<and>
    ran q' = ran q @ map snd (expired now q) \<and>
    set (timer_list q') = {(e, p) \<in> set (timer_list q2) - set (expired now q).
        ((p, snd e), ()) \<notin> set (canceling_timer_set q2)} \<union> rescheduled now q2 (set (expired now q)) \<and>
    tq_kernel q' = (if timer_list q' \<noteq> [] \<and> vaild (fst (fst (hd (timer_list q'))))
                    then resetTimerFd S (fst (fst (hd (timer_list q')))) (tq_kernel q2) else tq_kernel q2)"
proof -
  let ?q1 = "q\<lparr>tq_kernel := readTimerFd S k\<rparr>"
  let ?es = "expired now q"
  have es1: "expired now ?q1 = ?es" by (simp add: expired_def)
  have get: "getExpiredTimers now ?q1 = Inr (map fst ?es)"
    using getExpiredTimers_ok [of ?q1 P now] core seq by (simp add: es1)
  have "set ?es \<subseteq> set (timer_list q)" by (rule expired_subset)
  with core_run_entries [of "?q1\<lparr>is_running_callback := True\<rparr>" P S ?es U] core alloc obtain q2 where
    q2: "fold_r (run_entry S U) (map fst ?es) (?q1\<lparr>is_running_callback := True\<rparr>) = Inr q2"
      "tq_core q2 P" "grows (?q1\<lparr>is_running_callback := True\<rparr>) q2" "queued q2 = queued q"
      "ran q2 = ran q @ map snd ?es" by auto
  have "set ?es \<subseteq> set (timer_list q2)"
    using q2(3) expired_subset [of now q] by (auto simp: grows_def)
  with core_reset [of "q2\<lparr>is_running_callback := False\<rparr>" P ?es S now] q2(2) distinct_expired [OF core]
  obtain q' where
    q': "tq_reset S (map fst ?es) now (q2\<lparr>is_running_callback := False\<rparr>) = Inr q'" "tq_core q' P"
      "canceling_timer_set q' = []"
      "set (timer_list q') = {(e, p) \<in> set (timer_list q2) - set ?es.
         ((p, snd e), ()) \<notin> set (canceling_timer_set q2)} \<union>
         rescheduled now (q2\<lparr>is_running_callback := False\<rparr>) (set ?es)"
      "\<not> is_running_callback q'" "s_global_sequence q' = s_global_sequence q2"
      "queued q' = queued q2" "ran q' = ran q2"
      "tq_kernel q' = (if timer_list q' \<noteq> [] \<and> vaild (fst (fst (hd (timer_list q'))))
         then resetTimerFd S (fst (fst (hd (timer_list q')))) (tq_kernel q2) else tq_kernel q2)"
    by auto
  have resch: "rescheduled now (q2\<lparr>is_running_callback := False\<rparr>) (set ?es) = rescheduled now q2 (set ?es)"
    by (simp add: rescheduled_def keeps_def)
  have "tq_handleRead S U q = Inr q'"
    using core_sizes_agree [OF core] core_sizes_agree [OF q'(2)]
    by (simp add: tq_handleRead_def clock get q2(1) q'(1))
  moreover have "after_callbacks S U q = Inr q2"
    using q2(1) by (simp add: after_callbacks_def clock)
  ultimately show ?thesis using q2 q' unfolding resch by auto
qed

section \<open>All reachable states\<close>

text \<open>
  What can happen to a queue: the loop's thread adds, cancels, handles the timerfd or runs
  a queued closure; other threads queue additions and cancellations; timers of other queues
  use up sequence numbers; other parts of the process move the kernel's state on, as \<open>R\<close>
  allows.  \<open>V\<close> says which expiration times clients ask for.
\<close>

inductive tq_step :: "'k tq_sys \<Rightarrow> ('cb, 'k) tq_callbacks \<Rightarrow> (MonotonicTimestamp \<Rightarrow> bool) \<Rightarrow>
    ('k \<Rightarrow> 'k \<Rightarrow> bool) \<Rightarrow> ('cb, 'k) timer_queue \<Rightarrow> error + ('cb, 'k) timer_queue \<Rightarrow> bool"
  for S U V R where
  add: "V when \<Longrightarrow> tq_step S U V R q (and_then (addTimer S in_loop cb when ival q) (\<lambda>(_, q'). Inr q'))"
| cancel: "tq_step S U V R q (cancelTimer S in_loop i q)"
| expire: "s_global_sequence q \<le> LLONG_MAX \<Longrightarrow> tq_step S U V R q (tq_handleRead S U q)"
| queued: "tq_step S U V R q (run_queued S q)"
| others: "s_global_sequence q \<le> n \<Longrightarrow> R (tq_kernel q) k \<Longrightarrow>
     tq_step S U V R q (Inr (q\<lparr>s_global_sequence := n, tq_kernel := k\<rparr>))"

inductive tq_reachable :: "'k tq_sys \<Rightarrow> ('cb, 'k) tq_callbacks \<Rightarrow> (MonotonicTimestamp \<Rightarrow> bool) \<Rightarrow>
    ('k \<Rightarrow> 'k \<Rightarrow> bool) \<Rightarrow> error + ('cb, 'k) timer_queue \<Rightarrow> bool"
  for S U V R where
  start: "tq_reachable S U V R (Inr (TimerQueue_new k))"
| step: "tq_reachable S U V R (Inr q) \<Longrightarrow> tq_step S U V R q r \<Longrightarrow> tq_reachable S U V R r"

lemma tq_inv_new: "tq_inv (TimerQueue_new k)"
  by (simp add: tq_inv_def TimerQueue_new_def tq_core_def)

lemma added_append: "added (ts @ [t]) = added ts @ added [t]"
  by (induction ts rule: added.induct) (cases t; simp)+

lemma tq_inv_add_queued:
  assumes inv: "tq_inv q" and alloc: "alloc_ok S"
  shows "\<exists>i q'. addTimer S False cb when ival q = Inr (i, q') \<and> tq_inv q' \<and>
    timer_list q' = timer_list q \<and> is_running_callback q' = is_running_callback q"
proof -
  let ?p = "new_addr S (dom (timer_heap q))"
  have core: "tq_core q (set (added (queued q)))" using inv by (simp add: tq_inv_def)
  have p: "?p \<notin> dom (timer_heap q)" "?p \<noteq> 0"
    using alloc tq_coreD(4) [OF core] by (auto simp: alloc_ok_def)
  then have "?p \<notin> set (added (queued q))" using tq_coreD(10) [OF core] by auto
  then show ?thesis
    using core_alloc [OF core p, of "fst (Timer_new cb when ival (s_global_sequence q))"] inv
    by (simp add: addTimer_def tq_runInLoop_def Timer_new_def Let_def tq_inv_def added_append)
qed

lemma tq_inv_run_task:
  assumes inv: "tq_core q P" and t: "\<And>p. t = TaskAddTimer p \<Longrightarrow> p \<in> P"
  shows "\<exists>q'. run_task S t q = Inr q' \<and> tq_core q' (P - set (added [t])) \<and> queued q' = queued q \<and>
    is_running_callback q' = is_running_callback q"
proof (cases t)
  case (TaskAddTimer p)
  with core_addTimerInLoop [OF inv, of p S] t show ?thesis by auto
next
  case (TaskCancelTimer i)
  with core_cancel_running [OF inv, of i] core_cancel_idle [OF inv, of i] show ?thesis
    by (cases "is_running_callback q") (auto simp: erased_def)
qed

text \<open>Between two steps the queue is idle: well-formed, with no callback running.\<close>

definition tq_idle :: "('cb, 'k) timer_queue \<Rightarrow> bool" where
  "tq_idle q \<longleftrightarrow> tq_inv q \<and> \<not> is_running_callback q"

lemma tq_idle_add:
  assumes "tq_idle q" and "alloc_ok S"
  shows "\<exists>i q'. addTimer S in_loop cb when ival q = Inr (i, q') \<and> tq_idle q'"
proof (cases in_loop)
  case True
  with core_addTimer [of q "set (added (queued q))" S cb "when" ival] assms show ?thesis
    by (auto simp: tq_idle_def tq_inv_def)
next
  case False
  with tq_inv_add_queued [of q S cb "when" ival] assms show ?thesis by (auto simp: tq_idle_def)
qed

lemma tq_idle_cancel:
  assumes "tq_idle q"
  shows "\<exists>q'. cancelTimer S in_loop i q = Inr q' \<and> tq_idle q'"
proof (cases in_loop)
  case True
  with core_cancel_idle [of q "set (added (queued q))" i] assms show ?thesis
    by (auto simp: tq_idle_def tq_inv_def cancelTimer_def tq_runInLoop_def erased_def)
next
  case False
  with assms show ?thesis
    by (auto simp: tq_idle_def tq_inv_def cancelTimer_def tq_runInLoop_def added_append)
qed

lemma tq_idle_run_queued:
  assumes "tq_idle q"
  shows "\<exists>q'. run_queued S q = Inr q' \<and> tq_idle q'"
proof (cases "queued q")
  case Nil
  then show ?thesis using assms by (auto simp: run_queued_def)
next
  case (Cons t ts)
  let ?P = "set (added (queued q))"
  from tq_inv_run_task [of "q\<lparr>queued := ts\<rparr>" ?P t S] assms Cons obtain q' where
    q': "run_task S t (q\<lparr>queued := ts\<rparr>) = Inr q'" "tq_core q' (?P - set (added [t]))"
      "queued q' = ts" "\<not> is_running_callback q'"
    by (auto simp: tq_idle_def tq_inv_def)
  have "?P - set (added [t]) = set (added ts)"
    using assms Cons by (cases t) (auto simp: tq_idle_def tq_inv_def)
  then have "tq_idle q'"
    using q' assms Cons by (cases t) (auto simp: tq_idle_def tq_inv_def)
  with q'(1) Cons show ?thesis by (simp add: run_queued_def)
qed

lemma tq_idle_handleRead:
  assumes "tq_idle q" and "alloc_ok S" and "s_global_sequence q \<le> LLONG_MAX"
  shows "\<exists>q'. tq_handleRead S U q = Inr q' \<and> tq_idle q'"
proof -
  obtain now k where "clock_now S (tq_kernel q) = (now, k)" by fastforce
  with core_handleRead [of q "set (added (queued q))" S now k U] assms show ?thesis
    by (auto simp: tq_idle_def tq_inv_def)
qed

lemma tq_core_others:
  assumes "tq_core q P" and "s_global_sequence q \<le> n"
  shows "tq_core (q\<lparr>s_global_sequence := n, tq_kernel := k\<rparr>) P"
proof (rule tq_coreI, goal_cases)
  case (9 p t)
  then show ?case using tq_coreD(9) [OF assms(1), of p t] assms(2) by simp
qed (use tq_coreD(1-8,10,11) [OF assms(1)] in auto)

lemma tq_step_idle:
  assumes "tq_step S U V R q r" and "tq_idle q" and "alloc_ok S"
  shows "\<exists>q'. r = Inr q' \<and> tq_idle q'"
  using assms(1)
proof cases
  case (add w in_loop cb ival)
  with tq_idle_add [OF assms(2,3), of in_loop cb w ival] show ?thesis by auto
next
  case (cancel in_loop i)
  with tq_idle_cancel [OF assms(2)] show ?thesis by blast
next
  case expire
  with tq_idle_handleRead [OF assms(2,3)] show ?thesis by blast
next
  case queued
  with tq_idle_run_queued [OF assms(2)] show ?thesis by blast
next
  case (others n k)
  with tq_core_others [of q _ n k] assms(2) show ?thesis by (auto simp: tq_idle_def tq_inv_def)
qed

lemma tq_reachable_idle:
  assumes "tq_reachable S U V R r" and "alloc_ok S"
  shows "\<exists>q. r = Inr q \<and> tq_idle q"
  using assms(1)
proof (induction rule: tq_reachable.induct)
  case (start k)
  then show ?case by (simp add: tq_idle_def tq_inv_new) (simp add: TimerQueue_new_def)
next
  case (step q r)
  with tq_step_idle [OF step.hyps(2)] assms(2) show ?case by auto
qed

end
