(* ===== verification/Timer_Properties.thy ===== *)
theory Timer_Properties
  imports Timer_Queue
begin

text \<open>
  What the timer queue guarantees, over every sequence of calls: no assertion fails and no
  timer is used after it was freed; an expiry runs exactly the expired timers in order and
  leaves the queue as the interface promises; a cancelled timer is gone; the timerfd is
  always set for the earliest timer.
\<close>

section \<open>Valid expiration times\<close>

definition timers_valid :: "('cb, 'k) timer_queue \<Rightarrow> bool" where
  "timers_valid q \<longleftrightarrow> (\<forall>p t. timer_heap q p = Some t \<longrightarrow>
     vaild (expiration t) \<and> (repeat t \<longrightarrow> 0 < interval t))"

lemma timers_valid_frame [simp]:
  "timers_valid (q\<lparr>tq_kernel := k\<rparr>) = timers_valid q"
  "timers_valid (q\<lparr>ran := r\<rparr>) = timers_valid q"
  "timers_valid (q\<lparr>queued := ts\<rparr>) = timers_valid q"
  "timers_valid (q\<lparr>is_running_callback := b\<rparr>) = timers_valid q"
  "timers_valid (q\<lparr>canceling_timer_set := c\<rparr>) = timers_valid q"
  "timers_valid (q\<lparr>active_timer_set := a\<rparr>) = timers_valid q"
  "timers_valid (q\<lparr>timer_list := l\<rparr>) = timers_valid q"
  "timers_valid (q\<lparr>s_global_sequence := n\<rparr>) = timers_valid q"
  by (simp_all add: timers_valid_def)

lemma timers_valid_list_erase: "timers_valid q \<Longrightarrow> timers_valid (list_erase e q)"
  by (auto simp: timers_valid_def list_erase_def split: option.splits if_splits)

lemma timers_valid_list_assign: "timers_valid q \<Longrightarrow> timers_valid (list_assign e p q)"
  by (auto simp: timers_valid_def list_assign_def split: option.splits if_splits)

lemma timers_valid_upd:
  "timers_valid q \<Longrightarrow> vaild (expiration t) \<Longrightarrow> (repeat t \<Longrightarrow> 0 < interval t) \<Longrightarrow>
   timers_valid (q\<lparr>timer_heap := (timer_heap q)(p \<mapsto> t)\<rparr>)"
  by (auto simp: timers_valid_def)

lemma timers_valid_erase: "tq_erase d q = Inr q' \<Longrightarrow> timers_valid q \<Longrightarrow> timers_valid q'"
  by (auto simp: tq_erase_def and_then_Inr_iff Let_def timers_valid_list_erase split: option.splits)

lemma timers_valid_insert: "tq_insert b p q = Inr (c, q') \<Longrightarrow> timers_valid q \<Longrightarrow> timers_valid q'"
  by (auto simp: tq_insert_def and_then_Inr_iff Let_def timers_valid_list_assign)

lemma timers_valid_addTimerInLoop:
  "addTimerInLoop S b p q = Inr q' \<Longrightarrow> timers_valid q \<Longrightarrow> timers_valid q'"
  by (auto simp: addTimerInLoop_def and_then_Inr_iff dest: timers_valid_insert split: if_splits)

lemma timers_valid_cancelTimerInLoop:
  "cancelTimerInLoop b i q = Inr q' \<Longrightarrow> timers_valid q \<Longrightarrow> timers_valid q'"
  by (auto simp: cancelTimerInLoop_def and_then_Inr_iff Let_def dest: timers_valid_erase split: if_splits)

lemma timers_valid_run_task: "run_task S t q = Inr q' \<Longrightarrow> timers_valid q \<Longrightarrow> timers_valid q'"
  by (cases t) (auto dest: timers_valid_addTimerInLoop timers_valid_cancelTimerInLoop)

lemma timers_valid_addTimer:
  assumes "addTimer S b cb w ival q = Inr (i, q')" and "vaild w" and "timers_valid q"
  shows "timers_valid q'"
proof -
  let ?t = "fst (Timer_new cb w ival (s_global_sequence q))"
  let ?p = "new_addr S (dom (timer_heap q))"
  let ?q = "q\<lparr>timer_heap := (timer_heap q)(?p \<mapsto> ?t), s_global_sequence := s_global_sequence q + 1\<rparr>"
  have "timers_valid (q\<lparr>timer_heap := (timer_heap q)(?p \<mapsto> ?t)\<rparr>)"
    using assms by (intro timers_valid_upd) (auto simp: Timer_new_def)
  then have v: "timers_valid ?q" by (simp add: timers_valid_def)
  from assms(1) have "tq_runInLoop S b (TaskAddTimer ?p) ?q = Inr q'"
    by (auto simp: addTimer_def Timer_new_def Let_def and_then_Inr_iff)
  then show ?thesis
    using v by (auto simp: tq_runInLoop_def simp del: run_task.simps dest: timers_valid_run_task split: if_splits)
qed

text \<open>What is asked of the callbacks, of the clock and of the timerfd.\<close>

fun act_valid :: "'cb tq_action \<Rightarrow> bool" where
  "act_valid (AddTimer cb w ival) = vaild w"
| "act_valid (CancelTimer i) = True"

definition callbacks_valid :: "('cb, 'k) tq_callbacks \<Rightarrow> bool" where
  "callbacks_valid U \<longleftrightarrow> (\<forall>cb q. \<forall>a \<in> set (U cb q). act_valid a)"

definition clock_valid :: "'k tq_sys \<Rightarrow> bool" where
  "clock_valid S \<longleftrightarrow> (\<forall>k. vaild (fst (clock_now S k)))"

text \<open>
  \<open>clk\<close> is the steady clock's time and \<open>arm\<close> the time at which the timerfd becomes
  readable, both in microseconds: reading the clock returns the time, \<open>timerfd_settime\<close>
  with a relative time succeeds and counts from now, and whatever else happens only lets
  time pass.  The clock is read and the timer set at the same instant.
\<close>

definition timerfd_laws :: "'k tq_sys \<Rightarrow> ('k \<Rightarrow> 'k \<Rightarrow> bool) \<Rightarrow> ('k \<Rightarrow> int) \<Rightarrow> ('k \<Rightarrow> int option) \<Rightarrow> bool" where
  "timerfd_laws S R clk arm \<longleftrightarrow>
     (\<forall>k. \<exists>k'. clock_now S k = (MonotonicTimestamp (clk k), k') \<and> clk k' = clk k \<and> arm k' = arm k) \<and>
     (\<forall>k ts. \<exists>k'. timerfd_settime S k ts = (SOk (), k') \<and> clk k' = clk k \<and>
        arm k' = Some (clk k + tv_sec ts * 1000000 + tv_nsec ts div 1000)) \<and>
     (\<forall>k k'. R k k' \<longrightarrow> clk k \<le> clk k' \<and> arm k' = arm k)"

lemma resetTimerFd_arms:
  assumes "timerfd_laws S R clk arm"
  shows "arm (resetTimerFd S w k) = Some (max (microSecondsSinceEpoch w) (clk k + 100)) \<and>
    clk (resetTimerFd S w k) = clk k"
proof -
  from assms obtain k1 where k1: "clock_now S k = (MonotonicTimestamp (clk k), k1)" "clk k1 = clk k"
    unfolding timerfd_laws_def by blast
  let ?ts = "howMuchTimeFromNow w (MonotonicTimestamp (clk k))"
  from assms obtain k2 where k2: "timerfd_settime S k1 ?ts = (SOk (), k2)" "clk k2 = clk k1"
      "arm k2 = Some (clk k1 + tv_sec ?ts * 1000000 + tv_nsec ?ts div 1000)"
    unfolding timerfd_laws_def by blast
  have "tv_sec ?ts * 1000000 + tv_nsec ?ts div 1000 = max (microSecondsSinceEpoch w - clk k) 100"
    by (simp add: howMuchTimeFromNow_def Let_def)
  with k1 k2 show ?thesis by (auto simp: resetTimerFd_def)
qed

lemma timers_valid_acts:
  assumes "fold_r (tq_act S) as q = Inr q'" and "timers_valid q" and "\<forall>a \<in> set as. act_valid a"
  shows "timers_valid q'"
proof (rule fold_r_preserves [OF assms(1), where P = timers_valid])
  fix a q q'
  assume *: "a \<in> set as" "timers_valid q" "tq_act S a q = Inr q'"
  with assms(3) have "act_valid a" by blast
  with *(2,3) show "timers_valid q'"
    by (cases a) (auto simp: and_then_Inr_iff cancelTimer_def tq_runInLoop_def
        dest: timers_valid_addTimer timers_valid_cancelTimerInLoop)
qed (rule assms(2))

lemma timers_valid_run_entry:
  assumes "run_entry S U e q = Inr q'" and "timers_valid q" and "callbacks_valid U"
  shows "timers_valid q'"
proof -
  obtain p tl where at: "om_at 0 e (timer_list q) = (p, tl)" by fastforce
  let ?q = "q\<lparr>timer_list := tl, ran := ran q @ [p]\<rparr>"
  from assms(1) consider "q' = ?q" | cb where "fold_r (tq_act S) (U cb ?q) ?q = Inr q'"
    by (auto simp: run_entry_def at and_then_Inr_iff Let_def split: option.splits)
  then show ?thesis
  proof cases
    case 1
    with assms(2) show ?thesis by simp
  next
    case (2 cb)
    then show ?thesis by (rule timers_valid_acts) (use assms(2,3) in \<open>auto simp: callbacks_valid_def\<close>)
  qed
qed

lemma vaild_addTime: "vaild t \<Longrightarrow> 0 < s \<Longrightarrow> vaild (addTime t s)"
  using duration_cast_us_nonneg [of s] by (simp add: vaild_def addTime_def)

lemma timers_valid_reset_one:
  assumes "reset_one now e q = Inr q'" and "timers_valid q" and "vaild now"
  shows "timers_valid q'"
proof -
  obtain p tl where at: "om_at 0 e (timer_list q) = (p, tl)" by fastforce
  from assms(1) obtain t where t: "timer_heap q p = Some t"
    by (auto simp: reset_one_def at deref_def and_then_Inr_iff split: option.splits)
  have "timers_valid (q\<lparr>timer_heap := (timer_heap q)(p \<mapsto> restart now t)\<rparr>)" if "repeat t"
    using assms(2,3) t that by (intro timers_valid_upd) (auto simp: restart_def vaild_addTime timers_valid_def)
  then have "timers_valid (list_assign (expiration (restart now t), snd e) p
      (q\<lparr>timer_list := om_erase e tl, timer_heap := (timer_heap q)(p \<mapsto> restart now t)\<rparr>))" if "repeat t"
    using that by (intro timers_valid_list_assign) (simp add: timers_valid_def)
  then show ?thesis
    using assms(1,2) t
    by (auto simp: reset_one_def at deref_def and_then_Inr_iff Let_def
        dest!: timers_valid_erase split: if_splits)
qed

lemma timers_valid_handleRead:
  assumes "tq_handleRead S U q = Inr q'" and "timers_valid q" and "callbacks_valid U" and "clock_valid S"
  shows "timers_valid q'"
proof -
  obtain now k where clk: "clock_now S (tq_kernel q) = (now, k)" by fastforce
  have now: "vaild now" using assms(4) clk by (metis clock_valid_def fst_conv)
  from assms(1) obtain es q2 q3 where
    q2: "fold_r (run_entry S U) es (q\<lparr>tq_kernel := readTimerFd S k, is_running_callback := True\<rparr>) = Inr q2"
    and q3: "tq_reset S es now (q2\<lparr>is_running_callback := False\<rparr>) = Inr q3" and "q' = q3"
    by (auto simp: tq_handleRead_def clk and_then_Inr_iff Let_def)
  have "timers_valid q2"
    using fold_r_preserves [OF q2, where P = timers_valid] timers_valid_run_entry assms(2,3) by force
  moreover from q3 obtain r r' where
    r: "fold_r (reset_one now) es (q2\<lparr>is_running_callback := False\<rparr>) = Inr r"
      "fold_r tq_erase (map fst (canceling_timer_set r)) r = Inr r'"
    and eq: "\<exists>kk. q3 = r'\<lparr>canceling_timer_set := [], tq_kernel := kk\<rparr> \<or>
      q3 = r'\<lparr>canceling_timer_set := []\<rparr>"
    by (auto simp: tq_reset_def and_then_Inr_iff Let_def split: if_splits)
  ultimately have "timers_valid r"
    using fold_r_preserves [OF r(1), where P = timers_valid] timers_valid_reset_one now by force
  then have "timers_valid r'"
    using fold_r_preserves [OF r(2), where P = timers_valid] timers_valid_erase by force
  with eq \<open>q' = q3\<close> show ?thesis by auto
qed

section \<open>The timerfd is set for the earliest timer\<close>

definition armed :: "('k \<Rightarrow> int) \<Rightarrow> ('k \<Rightarrow> int option) \<Rightarrow> ('cb, 'k) timer_queue \<Rightarrow> bool" where
  "armed clk arm q \<longleftrightarrow> (timer_list q \<noteq> [] \<longrightarrow>
     (\<exists>a. arm (tq_kernel q) = Some a \<and> (\<forall>r \<in> set (timer_list q).
        a \<le> max (microSecondsSinceEpoch (fst (fst r))) (clk (tq_kernel q) + 100))))"

lemma hd_earliest:
  assumes "tq_core q P" and "r \<in> set (timer_list q)"
  shows "fst (fst (hd (timer_list q))) \<le> fst (fst r)"
  using om_inv_hd_least [OF tq_coreD(1) [OF assms(1)] assms(2)]
  by (cases "fst (hd (timer_list q))"; cases "fst r") (auto simp: less_imp_le)

text \<open>Inserting a timer with the rule of \<open>insert\<close>: set the timerfd when the new one is earliest.\<close>

lemma armed_insert:
  assumes core: "tq_core q P" and arm: "armed clk arm q" and laws: "timerfd_laws S R clk arm"
    and sets: "set (timer_list q') = insert ((w, s), p) (set (timer_list q))"
    and kern: "tq_kernel q' = (if timer_list q = [] \<or> w < fst (fst (hd (timer_list q)))
                    then resetTimerFd S w (tq_kernel q) else tq_kernel q)"
  shows "armed clk arm q'"
proof (cases "timer_list q = [] \<or> w < fst (fst (hd (timer_list q)))")
  case True
  have "w \<le> fst (fst r)" if "r \<in> set (timer_list q')" for r
    using that True hd_earliest [OF core, of r] unfolding sets by auto
  then show ?thesis
    using True kern resetTimerFd_arms [OF laws, of w "tq_kernel q"] by (force simp: armed_def mono_ord)
next
  case False
  then obtain a where a: "arm (tq_kernel q) = Some a" "\<And>r. r \<in> set (timer_list q) \<Longrightarrow>
      a \<le> max (microSecondsSinceEpoch (fst (fst r))) (clk (tq_kernel q) + 100)"
    using arm by (auto simp: armed_def)
  have "fst (fst (hd (timer_list q))) \<le> w" using False by (simp add: not_less)
  then have "a \<le> max (microSecondsSinceEpoch w) (clk (tq_kernel q) + 100)"
    using a(2) [of "hd (timer_list q)"] False by (auto simp: mono_ord)
  with a False kern show ?thesis by (auto simp: armed_def sets)
qed

lemma armed_subset:
  assumes "armed clk arm q" and "set (timer_list q') \<subseteq> set (timer_list q)"
    and "arm (tq_kernel q') = arm (tq_kernel q)" and "clk (tq_kernel q) \<le> clk (tq_kernel q')"
  shows "armed clk arm q'"
proof (cases "timer_list q = []")
  case True
  then show ?thesis using assms(2) by (simp add: armed_def)
next
  case False
  then show ?thesis using assms unfolding armed_def by fastforce
qed

lemma armed_run_task:
  assumes core: "tq_core q P" and idle: "\<not> is_running_callback q" and arm: "armed clk arm q"
    and laws: "timerfd_laws S R clk arm" and t: "\<And>p. t = TaskAddTimer p \<Longrightarrow> p \<in> P"
    and run: "run_task S t q = Inr q'"
  shows "armed clk arm q'"
proof (cases t)
  case (TaskAddTimer p)
  from core_addTimerInLoop [OF core t [OF this], of S] obtain w s r where
    "addTimerInLoop S True p q = Inr r"
    "set (timer_list r) = insert ((w, s), p) (set (timer_list q))"
    "tq_kernel r = (if timer_list q = [] \<or> w < fst (fst (hd (timer_list q)))
                    then resetTimerFd S w (tq_kernel q) else tq_kernel q)"
    by blast
  moreover from this(1) run TaskAddTimer have "r = q'" by simp
  ultimately show ?thesis using armed_insert [OF core arm laws] by blast
next
  case (TaskCancelTimer i)
  with core_cancel_idle [OF core idle, of i] run have "erased (id_timer i, id_sequence i) q q'" by auto
  with armed_subset [OF arm, of q'] show ?thesis by (auto simp: erased_def)
qed

lemma armed_handleRead:
  assumes idle: "tq_idle q" and alloc: "alloc_ok S" and seq: "s_global_sequence q \<le> LLONG_MAX"
    and laws: "timerfd_laws S R clk arm" and v: "timers_valid q'" and run: "tq_handleRead S U q = Inr q'"
  shows "armed clk arm q'"
proof (cases "timer_list q' = []")
  case True
  then show ?thesis by (simp add: armed_def)
next
  case False
  obtain now k where clk: "clock_now S (tq_kernel q) = (now, k)" by fastforce
  have "tq_core q (set (added (queued q)))" using idle by (simp add: tq_idle_def tq_inv_def)
  from core_handleRead [OF this alloc seq clk, of U] obtain k2 r where
    r: "tq_handleRead S U q = Inr r" "tq_core r (set (added (queued q)))"
      "tq_kernel r = (if timer_list r \<noteq> [] \<and> vaild (fst (fst (hd (timer_list r))))
             then resetTimerFd S (fst (fst (hd (timer_list r)))) k2 else k2)"
    by blast
  with run have core: "tq_core q' (set (added (queued q)))"
    and kern: "tq_kernel q' = (if timer_list q' \<noteq> [] \<and> vaild (fst (fst (hd (timer_list q'))))
             then resetTimerFd S (fst (fst (hd (timer_list q')))) k2 else k2)"
    by simp_all
  have "hd (timer_list q') \<in> set (timer_list q')" using False by simp
  then obtain t where "timer_heap q' (snd (hd (timer_list q'))) = Some t"
    "fst (hd (timer_list q')) = (expiration t, sequence t)"
    using tq_coreD(6) [OF core, of "fst (hd (timer_list q'))" "snd (hd (timer_list q'))"] by auto
  then have "vaild (fst (fst (hd (timer_list q'))))" using v by (auto simp: timers_valid_def)
  with False kern resetTimerFd_arms [OF laws] hd_earliest [OF core] show ?thesis
    by (fastforce simp: armed_def mono_ord)
qed

lemma armed_addTimer:
  assumes run: "addTimer S in_loop cb w ival q = Inr (i, q')" and core: "tq_core q P" and alloc: "alloc_ok S"
    and arm: "armed clk arm q" and laws: "timerfd_laws S R clk arm"
  shows "armed clk arm q'"
proof (cases in_loop)
  case True
  from core_addTimer [OF core alloc, of cb w ival] run True show ?thesis
    using armed_insert [OF core arm laws, of q'] by auto
next
  case False
  with run have "timer_list q' = timer_list q" "tq_kernel q' = tq_kernel q"
    by (auto simp: addTimer_def tq_runInLoop_def Timer_new_def Let_def)
  then show ?thesis using arm by (simp add: armed_def)
qed

lemma armed_run_queued:
  assumes run: "run_queued S q = Inr q'" and idle: "tq_idle q" and v: "timers_valid q"
    and arm: "armed clk arm q" and laws: "timerfd_laws S R clk arm"
  shows "timers_valid q' \<and> armed clk arm q'"
proof (cases "queued q")
  case Nil
  with run v arm show ?thesis by (simp add: run_queued_def)
next
  case (Cons t ts)
  with run have step: "run_task S t (q\<lparr>queued := ts\<rparr>) = Inr q'" by (simp add: run_queued_def)
  have "armed clk arm (q\<lparr>queued := ts\<rparr>)" using arm by (simp add: armed_def)
  from armed_run_task [OF _ _ this laws _ step, of "set (added (queued q))"]
    timers_valid_run_task [OF step] v idle Cons show ?thesis
    by (auto simp: tq_idle_def tq_inv_def)
qed

lemma armed_step:
  assumes step: "tq_step S U vaild R q (Inr q')" and idle: "tq_idle q" and alloc: "alloc_ok S"
    and v: "timers_valid q" and arm: "armed clk arm q" and laws: "timerfd_laws S R clk arm"
    and cbs: "callbacks_valid U" and clock: "clock_valid S"
  shows "timers_valid q' \<and> armed clk arm q'"
  using step
proof cases
  case (add w in_loop cb ival)
  then obtain i where i: "addTimer S in_loop cb w ival q = Inr (i, q')"
    by (cases "addTimer S in_loop cb w ival q") auto
  have "tq_core q (set (added (queued q)))" using idle by (simp add: tq_idle_def tq_inv_def)
  from armed_addTimer [OF i this alloc arm laws] timers_valid_addTimer [OF i] add v show ?thesis by blast
next
  case (cancel in_loop i)
  show ?thesis
  proof (cases in_loop)
    case True
    with cancel have run: "run_task S (TaskCancelTimer i) q = Inr q'"
      by (simp add: cancelTimer_def tq_runInLoop_def)
    from armed_run_task [OF _ _ arm laws _ run] timers_valid_run_task [OF run v] idle show ?thesis
      by (auto simp: tq_idle_def tq_inv_def)
  next
    case False
    with cancel v arm show ?thesis by (simp add: cancelTimer_def tq_runInLoop_def armed_def)
  qed
next
  case expire
  then have run: "tq_handleRead S U q = Inr q'" by simp
  from timers_valid_handleRead [OF run v cbs clock] armed_handleRead [OF idle alloc _ laws _ run]
    expire show ?thesis by blast
next
  case queued
  then have "run_queued S q = Inr q'" by simp
  from armed_run_queued [OF this idle v arm laws] show ?thesis .
next
  case (others n k)
  with laws have "arm k = arm (tq_kernel q)" "clk (tq_kernel q) \<le> clk k"
    by (auto simp: timerfd_laws_def)
  with others armed_subset [OF arm, of q'] v show ?thesis by simp
qed

lemma armed_reachable:
  assumes "tq_reachable S U vaild R r" and "alloc_ok S" and "timerfd_laws S R clk arm"
    and "callbacks_valid U" and "clock_valid S"
  shows "\<exists>q. r = Inr q \<and> tq_idle q \<and> timers_valid q \<and> armed clk arm q"
  using assms(1)
proof (induction rule: tq_reachable.induct)
  case (start k)
  then show ?case
    by (simp add: tq_idle_def tq_inv_new) (simp add: TimerQueue_new_def timers_valid_def armed_def)
next
  case (step q r)
  with tq_step_idle [OF step.hyps(2) _ assms(2)] armed_step [OF _ _ assms(2) _ _ assms(3-5)]
  show ?case by blast
qed

section \<open>Properties\<close>

text \<open>A clock with a settable timer and an allocator, to instantiate the parameters.\<close>

definition sample_sys :: "(int \<times> int option) tq_sys" where
  "sample_sys = \<lparr>clock_now = (\<lambda>k. (MonotonicTimestamp (fst k), k)),
     timerfd_settime = (\<lambda>k ts. (SOk (), (fst k, Some (fst k + tv_sec ts * 1000000 + tv_nsec ts div 1000)))),
     timerfd_read = (\<lambda>k. (SOk 8, k)),
     new_addr = (\<lambda>A. Suc (Max (insert 0 A)))\<rparr>"

lemma sample_alloc_ok: "alloc_ok sample_sys"
proof -
  have "Suc (Max (insert 0 A)) \<notin> A" if "finite A" for A :: "nat set"
  proof
    assume "Suc (Max (insert 0 A)) \<in> A"
    then have "Suc (Max (insert 0 A)) \<le> Max (insert 0 A)"
      using that by (intro Max_ge) auto
    then show False by simp
  qed
  then show ?thesis by (simp add: alloc_ok_def sample_sys_def)
qed

text \<open>A queue with a repeating timer at address 1, sequence 0, due at time 5, and a later one.\<close>

definition sample_queue :: "(nat, int \<times> int option) timer_queue" where
  "sample_queue = \<lparr>timer_list = [((MonotonicTimestamp 5, 0), 1), ((MonotonicTimestamp 900, 1), 2)],
     active_timer_set = [((1, 0), ()), ((2, 1), ())], canceling_timer_set = [],
     is_running_callback = False,
     timer_heap = [1 \<mapsto> fst (Timer_new (Some 7) (MonotonicTimestamp 5) 1 0),
                   2 \<mapsto> fst (Timer_new None (MonotonicTimestamp 900) 0 1)],
     s_global_sequence = 2, queued = [], ran = [], tq_kernel = (20, None)\<rparr>"

lemma sample_queue_idle: "tq_idle sample_queue"
  by (auto simp: tq_idle_def tq_inv_def tq_core_def sample_queue_def om_inv_def Timer_new_def mono_ord
      split: if_splits)



text \<open>
  C15: when the timerfd fires, \<open>handleRead\<close> runs every timer whose expiration is not later
  than the current time exactly once, in the order of expiration and creation, and runs
  no other; a cancellation made by one of the callbacks does not take back a timer of the
  same round.
\<close>

theorem expiry_runs_expired:
  assumes "tq_idle q" and "alloc_ok S" and "s_global_sequence q \<le> LLONG_MAX"
    and "clock_now S (tq_kernel q) = (now, k)"
  shows "\<exists>q' es. tq_handleRead S U q = Inr q' \<and> ran q' = ran q @ map snd es \<and>
    sorted_wrt (<) (map fst es) \<and> set es = {(e, p) \<in> set (timer_list q). fst e \<le> now}"
proof -
  have core: "tq_core q (set (added (queued q)))" using assms(1) by (simp add: tq_idle_def tq_inv_def)
  have "sorted_wrt (<) (map fst (expired now q))"
    using om_inv_upto [OF tq_coreD(1) [OF core], of "(now, LLONG_MAX)"]
    by (simp add: om_inv_def om_upto_expired(1) [OF core assms(3)])
  moreover have "set (expired now q) = {(e, p) \<in> set (timer_list q). fst e \<le> now}"
    by (auto simp: expired_def)
  ultimately show ?thesis using core_handleRead [OF core assms(2-4), of U] by blast
qed

theorem expiry_runs_expired_witness:
  "\<exists>q' es. tq_handleRead sample_sys (\<lambda>_ _. [CancelTimer \<lparr>id_timer = 1, id_sequence = 0\<rparr>]) sample_queue =
      Inr q' \<and> ran q' = ran sample_queue @ map snd es \<and> sorted_wrt (<) (map fst es) \<and>
    set es = {(e, p) \<in> set (timer_list sample_queue). fst e \<le> MonotonicTimestamp 20}"
  by (rule expiry_runs_expired [OF sample_queue_idle sample_alloc_ok, where k = "(20, None)"])
     (simp_all add: sample_queue_def LLONG_MAX_def sample_sys_def)

text \<open>
  C16: what \<open>handleRead\<close> leaves in the queue, in terms of the state \<open>q2\<close> at the end of the
  callbacks: a timer that has not expired stays exactly when no callback cancelled it, also
  one that a callback added; an expired timer stays exactly when it repeats and was not
  cancelled, and then it is due one interval after \<open>now\<close>; all bookkeeping of the round
  is cleared.
\<close>

theorem expiry_final_queue:
  assumes "tq_idle q" and "alloc_ok S" and "s_global_sequence q \<le> LLONG_MAX"
    and "clock_now S (tq_kernel q) = (now, k)"
  shows "\<exists>q2 q'. after_callbacks S U q = Inr q2 \<and> tq_handleRead S U q = Inr q' \<and>
    tq_idle q' \<and> canceling_timer_set q' = [] \<and>
    (\<forall>x s p. ((x, s), p) \<in> set (timer_list q') \<longleftrightarrow>
       ((p, s), ()) \<notin> set (canceling_timer_set q2) \<and>
       (((x, s), p) \<in> set (timer_list q2) \<and> ((x, s), p) \<notin> set (expired now q) \<or>
        (\<exists>t e. (e, p) \<in> set (expired now q) \<and> timer_heap q2 p = Some t \<and> repeat t \<and>
           sequence t = s \<and> x = addTime now (interval t))))"
proof -
  have inv: "tq_core q (set (added (queued q)))" "distinct (added (queued q))"
    using assms(1) by (simp_all add: tq_idle_def tq_inv_def)
  from core_handleRead [OF inv(1) assms(2-4), of U] obtain q2 q' where
    q': "after_callbacks S U q = Inr q2" "tq_handleRead S U q = Inr q'" "tq_core q' (set (added (queued q)))"
      "canceling_timer_set q' = []" "\<not> is_running_callback q'" "queued q' = queued q"
    and sets: "set (timer_list q') = {(e, p) \<in> set (timer_list q2) - set (expired now q).
        ((p, snd e), ()) \<notin> set (canceling_timer_set q2)} \<union> rescheduled now q2 (set (expired now q))"
    by blast
  have "tq_idle q'" using q' inv(2) by (simp add: tq_idle_def tq_inv_def)
  moreover have "((x, s), p) \<in> rescheduled now q2 (set (expired now q)) \<longleftrightarrow>
      ((p, s), ()) \<notin> set (canceling_timer_set q2) \<and>
      (\<exists>t e. (e, p) \<in> set (expired now q) \<and> timer_heap q2 p = Some t \<and> repeat t \<and>
         sequence t = s \<and> x = addTime now (interval t))" for x s p
    unfolding rescheduled_def keeps_def next_entry_def by blast
  ultimately show ?thesis using q' by (intro exI [of _ q2] exI [of _ q']) (auto simp: sets)
qed

theorem expiry_final_queue_witness:
  "\<exists>q2 q'. after_callbacks sample_sys (\<lambda>_ _. [AddTimer None (MonotonicTimestamp 3) 0]) sample_queue = Inr q2 \<and>
    tq_handleRead sample_sys (\<lambda>_ _. [AddTimer None (MonotonicTimestamp 3) 0]) sample_queue = Inr q' \<and>
    tq_idle q' \<and> canceling_timer_set q' = [] \<and>
    (\<forall>x s p. ((x, s), p) \<in> set (timer_list q') \<longleftrightarrow>
       ((p, s), ()) \<notin> set (canceling_timer_set q2) \<and>
       (((x, s), p) \<in> set (timer_list q2) \<and> ((x, s), p) \<notin> set (expired (MonotonicTimestamp 20) sample_queue) \<or>
        (\<exists>t e. (e, p) \<in> set (expired (MonotonicTimestamp 20) sample_queue) \<and> timer_heap q2 p = Some t \<and>
           repeat t \<and> sequence t = s \<and> x = addTime (MonotonicTimestamp 20) (interval t))))"
  by (rule expiry_final_queue [OF sample_queue_idle sample_alloc_ok, where k = "(20, None)"])
     (simp_all add: sample_queue_def LLONG_MAX_def sample_sys_def)

lemma tq_idle_add_effect:
  assumes "tq_idle q" and "alloc_ok S"
  shows "\<exists>i q'. addTimer S True cb w ival q = Inr (i, q') \<and> tq_idle q' \<and>
    id_sequence i = s_global_sequence q \<and>
    set (timer_list q') = insert ((w, id_sequence i), id_timer i) (set (timer_list q))"
proof -
  have core: "tq_core q (set (added (queued q)))" using assms(1) by (simp add: tq_idle_def tq_inv_def)
  from core_addTimer [OF core assms(2), of cb w ival] obtain p q' where
    q': "addTimer S True cb w ival q = Inr (\<lparr>id_timer = p, id_sequence = s_global_sequence q\<rparr>, q')"
    "set (timer_list q') = insert ((w, s_global_sequence q), p) (set (timer_list q))"
    by blast
  moreover from tq_idle_add [OF assms, of True cb w ival] q'(1) have "tq_idle q'" by auto
  ultimately show ?thesis by auto
qed

text \<open>
  C23: cancelling a timer in the loop's thread, outside timer callbacks, removes that timer
  and no other; in particular adding a timer and cancelling it with the \<open>TimerId\<close> that
  \<open>addTimer\<close> returned leaves the timers that were there before.
\<close>

theorem add_cancel_roundtrip:
  assumes "tq_idle q" and "alloc_ok S"
  shows "\<exists>i q1 q2. addTimer S True cb w ival q = Inr (i, q1) \<and> cancelTimer S True i q1 = Inr q2 \<and>
    tq_idle q2 \<and> set (timer_list q1) = insert ((w, id_sequence i), id_timer i) (set (timer_list q)) \<and>
    ((w, id_sequence i), id_timer i) \<notin> set (timer_list q) \<and>
    set (timer_list q2) = set (timer_list q)"
proof -
  have core: "tq_core q (set (added (queued q)))" using assms(1) by (simp add: tq_idle_def tq_inv_def)
  from tq_idle_add_effect [OF assms, of cb w ival] obtain i q1 where
    q1: "addTimer S True cb w ival q = Inr (i, q1)" "tq_idle q1" and i: "id_sequence i = s_global_sequence q"
    and sets: "set (timer_list q1) = insert ((w, id_sequence i), id_timer i) (set (timer_list q))"
    by blast
  have old: "s < s_global_sequence q" if "((x, s), p) \<in> set (timer_list q)" for x s p
    using tq_coreD(6,9) [OF core] that by fastforce
  have "tq_core q1 (set (added (queued q1)))" "\<not> is_running_callback q1"
    using q1(2) by (simp_all add: tq_idle_def tq_inv_def)
  from core_cancel_idle [OF this, of i] obtain q2 where
    q2: "cancelTimerInLoop True i q1 = Inr q2" "erased (id_timer i, id_sequence i) q1 q2" by blast
  have run: "cancelTimer S True i q1 = Inr q2" using q2(1) by (simp add: cancelTimer_def tq_runInLoop_def)
  with tq_idle_cancel [OF q1(2), of S True i] have "tq_idle q2" by auto
  moreover have "set (timer_list q2) = set (timer_list q)"
    using q2(2) sets old i by (fastforce simp: erased_def)
  ultimately show ?thesis using q1(1) run sets old i by fastforce
qed

theorem add_cancel_roundtrip_witness:
  "\<exists>i q1 q2. addTimer sample_sys True (Some 4) (MonotonicTimestamp 7) 0 sample_queue = Inr (i, q1) \<and>
    cancelTimer sample_sys True i q1 = Inr q2 \<and> tq_idle q2 \<and>
    set (timer_list q1) = insert ((MonotonicTimestamp 7, id_sequence i), id_timer i) (set (timer_list sample_queue)) \<and>
    ((MonotonicTimestamp 7, id_sequence i), id_timer i) \<notin> set (timer_list sample_queue) \<and>
    set (timer_list q2) = set (timer_list sample_queue)"
  by (rule add_cancel_roundtrip [OF sample_queue_idle sample_alloc_ok])

text \<open>
  C24: a stale \<open>TimerId\<close> is harmless: once its timer is gone, cancelling it changes nothing
  at all, and this stays so after another timer is added, even when the allocator hands out
  the same address again.
\<close>

theorem stale_cancel_noop:
  assumes "tq_idle q" and "alloc_ok S" and "id_sequence i < s_global_sequence q"
    and "\<forall>x. ((x, id_sequence i), id_timer i) \<notin> set (timer_list q)"
  shows "cancelTimer S True i q = Inr q \<and>
    (\<exists>j q'. addTimer S True cb w ival q = Inr (j, q') \<and> cancelTimer S True i q' = Inr q')"
proof -
  have noop: "cancelTimer S True i r = Inr r"
    if r: "tq_idle r" "\<forall>x. ((x, id_sequence i), id_timer i) \<notin> set (timer_list r)" for r :: "('a, 'b) timer_queue"
  proof -
    have core: "tq_core r (set (added (queued r)))" "\<not> is_running_callback r"
      using r(1) by (simp_all add: tq_idle_def tq_inv_def)
    have "om_find (id_timer i, id_sequence i) (active_timer_set r) = None"
      using r(2) tq_coreD(7) [OF core(1), of "id_timer i" "id_sequence i"]
      by (force simp: om_find_None)
    then show ?thesis
      using core(2) core_sizes_agree [OF core(1)]
      by (simp add: cancelTimer_def tq_runInLoop_def cancelTimerInLoop_def tq_erase_def)
  qed
  from tq_idle_add_effect [OF assms(1,2), of cb w ival] obtain j q1 where
    "addTimer S True cb w ival q = Inr (j, q1)" "tq_idle q1" "id_sequence j = s_global_sequence q"
    "set (timer_list q1) = insert ((w, id_sequence j), id_timer j) (set (timer_list q))"
    by blast
  with noop assms(1,3,4) show ?thesis by auto
qed

theorem stale_cancel_noop_witness:
  "cancelTimer sample_sys True \<lparr>id_timer = 3, id_sequence = 1\<rparr> sample_queue = Inr sample_queue \<and>
   (\<exists>j q'. addTimer sample_sys True (Some 4) (MonotonicTimestamp 7) 0 sample_queue = Inr (j, q') \<and>
      cancelTimer sample_sys True \<lparr>id_timer = 3, id_sequence = 1\<rparr> q' = Inr q')"
  by (rule stale_cancel_noop [OF sample_queue_idle sample_alloc_ok]) (simp_all add: sample_queue_def)


text \<open>A clock that always shows a positive time, for the hypotheses on the clock.\<close>

definition late_sys :: "(nat \<times> int option) tq_sys" where
  "late_sys = \<lparr>clock_now = (\<lambda>k. (MonotonicTimestamp (int (fst k) + 1), k)),
     timerfd_settime = (\<lambda>k ts. (SOk (), (fst k, Some (int (fst k) + 1 + tv_sec ts * 1000000 + tv_nsec ts div 1000)))),
     timerfd_read = (\<lambda>k. (SOk 8, k)),
     new_addr = (\<lambda>A. Suc (Max (insert 0 A)))\<rparr>"


end
