(* ===== verification/Buffer.thy ===== *)
theory Buffer
  imports Prelude
begin

text \<open>
  The class \<open>Buffer\<close> (include/Buffer.h, src/Buffer.cc): a \<open>std::vector<char>\<close>
  with two indices that cut it into prependable, readable and writeable bytes.
  Indices and sizes are 64-bit words and wrap as \<open>size_t\<close> does; a growth beyond
  \<open>max_size()\<close> and an access outside the vector are error values.  The abstract
  value of a buffer is the list of its readable bytes (\<open>contents\<close>); the lemmas
  show that the class implements a first-in first-out queue of bytes.
\<close>

section \<open>The class\<close>

record buffer =
  buf :: "byte list"
  read_index :: size_t
  write_index :: size_t

definition kCheapPrepend :: size_t where
  "kCheapPrepend = 8"

definition kInitialSize :: size_t where
  "kInitialSize = 1024"

definition vec_max_size :: nat where
  \<comment> \<open>\<open>std::vector<char>::max_size()\<close>: the largest \<open>ptrdiff_t\<close>\<close>
  "vec_max_size = 2 ^ 63 - 1"

definition vec_size :: "byte list \<Rightarrow> size_t" where
  "vec_size v = of_nat (length v)"

definition vec_resize :: "byte list \<Rightarrow> size_t \<Rightarrow> error + byte list" where
  "vec_resize v n =
     (if vec_max_size < unat n then Inl LengthError
      else Inr (take (unat n) v @ replicate (unat n - length v) 0))"

definition Buffer_new :: "size_t \<Rightarrow> error + buffer" where
  "Buffer_new initial_size =
     and_then (vec_resize [] (kCheapPrepend + initial_size))
       (\<lambda>v. Inr \<lparr>buf = v, read_index = kCheapPrepend, write_index = kCheapPrepend\<rparr>)"

definition readableBytes :: "buffer \<Rightarrow> size_t" where
  "readableBytes b = write_index b - read_index b"

definition writeableBytes :: "buffer \<Rightarrow> size_t" where
  "writeableBytes b = vec_size (buf b) - write_index b"

definition prependableBytes :: "buffer \<Rightarrow> size_t" where
  "prependableBytes b = read_index b"

text \<open>\<open>std::copy\<close> within one array, element by element from the front.\<close>

fun copy_within :: "byte list \<Rightarrow> nat \<Rightarrow> nat \<Rightarrow> nat \<Rightarrow> error + byte list" where
  "copy_within v s d 0 = Inr v"
| "copy_within v s d (Suc n) =
     (if s < length v \<and> d < length v
      then copy_within (v[d := v ! s]) (Suc s) (Suc d) n
      else Inl OutOfBounds)"

text \<open>\<open>std::copy\<close> of \<open>n\<close> bytes at \<open>src\<close> to position \<open>d\<close> of the vector.\<close>

definition copy_into :: "byte list \<Rightarrow> nat \<Rightarrow> byte list \<Rightarrow> nat \<Rightarrow> error + byte list" where
  "copy_into v d src n =
     (if n \<le> length src \<and> d + n \<le> length v
      then Inr (overwrite v d (take n src)) else Inl OutOfBounds)"

text \<open>The bytes of the vector a pointer range covers.\<close>

definition mem_range :: "byte list \<Rightarrow> nat \<Rightarrow> nat \<Rightarrow> error + byte list" where
  "mem_range v i n =
     (if i + n \<le> length v then Inr (take n (drop i v)) else Inl OutOfBounds)"

definition makeSpace :: "size_t \<Rightarrow> buffer \<Rightarrow> error + buffer" where
  "makeSpace len b =
     (if prependableBytes b + writeableBytes b < len + kCheapPrepend
      then and_then (vec_resize (buf b) (write_index b + len))
             (\<lambda>v. Inr (b\<lparr>buf := v\<rparr>))
      else
        let read_data_size = readableBytes b in
        and_then (copy_within (buf b) (unat (read_index b)) (unat kCheapPrepend)
                    (unat (write_index b) - unat (read_index b)))
          (\<lambda>v. Inr (b\<lparr>buf := v, read_index := kCheapPrepend,
                      write_index := kCheapPrepend + read_data_size\<rparr>)))"

definition ensureWriteableBytes :: "size_t \<Rightarrow> buffer \<Rightarrow> error + buffer" where
  "ensureWriteableBytes len b =
     (if writeableBytes b < len then makeSpace len b else Inr b)"

definition append_bytes :: "byte list \<Rightarrow> size_t \<Rightarrow> buffer \<Rightarrow> error + buffer" where
  "append_bytes str len b =
     and_then (ensureWriteableBytes len b) (\<lambda>b1.
     and_then (copy_into (buf b1) (unat (write_index b1)) str (unat len)) (\<lambda>v.
     Inr (b1\<lparr>buf := v, write_index := write_index b1 + len\<rparr>)))"

definition retrieveAll :: "buffer \<Rightarrow> buffer" where
  "retrieveAll b = b\<lparr>read_index := kCheapPrepend, write_index := kCheapPrepend\<rparr>"

definition retrieve :: "size_t \<Rightarrow> buffer \<Rightarrow> buffer" where
  "retrieve len b =
     (if len < readableBytes b then b\<lparr>read_index := read_index b + len\<rparr>
      else retrieveAll b)"

definition retrieveAsString :: "size_t \<Rightarrow> buffer \<Rightarrow> error + (byte list \<times> buffer)" where
  "retrieveAsString len b =
     and_then (mem_range (buf b) (unat (read_index b)) (unat len))
       (\<lambda>data. Inr (data, retrieve len b))"

definition retrieveAllAsString :: "buffer \<Rightarrow> error + (byte list \<times> buffer)" where
  "retrieveAllAsString b = retrieveAsString (readableBytes b) b"

text \<open>
  \<open>readFd\<close> and \<open>writeFd\<close> call \<open>readv\<close> and \<open>write\<close>; the two calls are parameters
  that act on a kernel state and see the lengths of the buffers, respectively the
  bytes, the code hands over.  \<open>readv\<close> returns the bytes it scattered.
\<close>

type_synonym 'k readv_call = "'k \<Rightarrow> int \<Rightarrow> nat list \<Rightarrow> byte list sysret \<times> 'k"
type_synonym 'k write_call = "'k \<Rightarrow> int \<Rightarrow> byte list \<Rightarrow> nat sysret \<times> 'k"

definition extra_buffer_size :: nat where
  "extra_buffer_size = 65536"

definition readFd ::
    "'k readv_call \<Rightarrow> int \<Rightarrow> 'k \<Rightarrow> buffer \<Rightarrow> error + (nat sysret \<times> 'k \<times> buffer)" where
  "readFd readv fd k b =
     (let writeable = writeableBytes b;
          vec = (if extra_buffer_size < unat writeable then [unat writeable]
                 else [unat writeable, extra_buffer_size]);
          (r, k') = readv k fd vec
      in case r of
           SErr errno \<Rightarrow> Inr (SErr errno, k', b)
         | SOk bs \<Rightarrow>
             let n = length bs;
                 v = overwrite (buf b) (unat (write_index b)) (take (unat writeable) bs);
                 extra = drop (unat writeable) bs
             in if of_nat n \<le> writeable
                then Inr (SOk n, k', b\<lparr>buf := v, write_index := write_index b + of_nat n\<rparr>)
                else and_then
                       (append_bytes extra (of_nat n - writeable)
                          (b\<lparr>buf := v, write_index := vec_size v\<rparr>))
                       (\<lambda>b'. Inr (SOk n, k', b')))"

definition writeFd ::
    "'k write_call \<Rightarrow> int \<Rightarrow> 'k \<Rightarrow> buffer \<Rightarrow> error + (nat sysret \<times> 'k)" where
  "writeFd wr fd k b =
     and_then (mem_range (buf b) (unat (read_index b)) (unat (readableBytes b)))
       (\<lambda>bs. Inr (wr k fd bs))"

text \<open>What POSIX says of the two calls: a count never exceeds what was asked for.\<close>

definition readv_bounded :: "'k readv_call \<Rightarrow> bool" where
  "readv_bounded readv \<longleftrightarrow>
     (\<forall>k fd ls bs k'. readv k fd ls = (SOk bs, k') \<longrightarrow> length bs \<le> sum_list ls)"

definition write_bounded :: "'k write_call \<Rightarrow> bool" where
  "write_bounded wr \<longleftrightarrow>
     (\<forall>k fd bs n k'. wr k fd bs = (SOk n, k') \<longrightarrow> n \<le> length bs)"

section \<open>Invariant and abstract value\<close>

definition buf_inv :: "buffer \<Rightarrow> bool" where
  "buf_inv b \<longleftrightarrow>
     8 \<le> unat (read_index b) \<and> unat (read_index b) \<le> unat (write_index b) \<and>
     unat (write_index b) \<le> length (buf b) \<and> length (buf b) \<le> vec_max_size"

definition contents :: "buffer \<Rightarrow> byte list" where
  "contents b =
     take (unat (write_index b) - unat (read_index b)) (drop (unat (read_index b)) (buf b))"

text \<open>The operations of the public interface as data, for statements about runs.\<close>

datatype buf_op = Append "byte list" | Retrieve size_t | RetrieveAll

fun buf_step :: "buf_op \<Rightarrow> buffer \<Rightarrow> error + buffer" where
  "buf_step (Append xs) b = append_bytes xs (of_nat (length xs)) b"
| "buf_step (Retrieve n) b = Inr (retrieve n b)"
| "buf_step RetrieveAll b = Inr (retrieveAll b)"

fun queue_step :: "buf_op \<Rightarrow> byte list \<Rightarrow> byte list" where
  "queue_step (Append xs) q = q @ xs"
| "queue_step (Retrieve n) q = drop (unat n) q"
| "queue_step RetrieveAll q = []"

fun appended :: "buf_op list \<Rightarrow> nat" where
  "appended [] = 0"
| "appended (Append xs # ops) = length xs + appended ops"
| "appended (_ # ops) = appended ops"

section \<open>Sizes\<close>

lemma unat_kCheapPrepend [simp]: "unat kCheapPrepend = 8"
  by (simp add: kCheapPrepend_def)

lemma vec_max_lt: "n \<le> vec_max_size \<Longrightarrow> n < 18446744073709551616"
  by (simp add: vec_max_size_def)

lemma buf_invD:
  assumes "buf_inv b"
  shows "8 \<le> unat (read_index b)" "unat (read_index b) \<le> unat (write_index b)"
    "unat (write_index b) \<le> length (buf b)" "length (buf b) \<le> vec_max_size"
  using assms by (auto simp: buf_inv_def)

lemma unat_vec_size: "length v \<le> vec_max_size \<Longrightarrow> unat (vec_size v) = length v"
  by (simp add: vec_size_def word_nat vec_max_lt)

lemma unat_readable: "buf_inv b \<Longrightarrow> unat (readableBytes b) = length (contents b)"
  by (auto simp: readableBytes_def contents_def word_nat buf_inv_def)

lemma unat_readable_idx:
  "buf_inv b \<Longrightarrow> unat (readableBytes b) = unat (write_index b) - unat (read_index b)"
  by (auto simp: readableBytes_def word_nat buf_inv_def)

lemma length_contents:
  "buf_inv b \<Longrightarrow> length (contents b) = unat (write_index b) - unat (read_index b)"
  by (auto simp: contents_def buf_inv_def)

lemma unat_writeable:
  "buf_inv b \<Longrightarrow> unat (writeableBytes b) = length (buf b) - unat (write_index b)"
  by (auto simp: writeableBytes_def word_nat unat_vec_size buf_inv_def)

lemma unat_prep_writeable:
  assumes "buf_inv b"
  shows "unat (prependableBytes b + writeableBytes b) =
    unat (read_index b) + (length (buf b) - unat (write_index b))"
proof -
  have "unat (read_index b) + (length (buf b) - unat (write_index b)) < 2 ^ 64"
    using buf_invD [OF assms] vec_max_lt by fastforce
  then show ?thesis
    using assms by (simp add: prependableBytes_def unat_add_nowrap unat_writeable)
qed

section \<open>Copying\<close>

lemma copy_within_overwrite:
  assumes "d \<le> s" and "s + n \<le> length v"
  shows "copy_within v s d n = Inr (overwrite v d (take n (drop s v)))"
  using assms
proof (induction n arbitrary: v s d)
  case 0
  then show ?case by simp
next
  case (Suc n)
  let ?v = "v[d := v ! s]"
  have "copy_within v s d (Suc n) = copy_within ?v (Suc s) (Suc d) n"
    using Suc.prems by simp
  also have "\<dots> = Inr (overwrite ?v (Suc d) (take n (drop (Suc s) ?v)))"
    using Suc.prems by (intro Suc.IH) auto
  also have "overwrite ?v (Suc d) (take n (drop (Suc s) ?v)) =
      overwrite v d (take (Suc n) (drop s v))"
    using Suc.prems
    by (simp add: overwrite_def take_Suc_conv_app_nth take_Suc Cons_nth_drop_Suc [symmetric]
        nth_append)
  finally show ?case .
qed

section \<open>Making room\<close>

lemma vec_resize_grow:
  assumes "length v \<le> unat n" and "unat n \<le> vec_max_size"
  shows "vec_resize v n = Inr (v @ replicate (unat n - length v) 0)"
  using assms by (simp add: vec_resize_def)

text \<open>
  The growth branch is taken only when the free bytes do not suffice, so the new size is
  bounded by the readable bytes and twice the request; only a vector that would pass the
  largest size makes an operation fail.
\<close>

definition if_room :: "buffer \<Rightarrow> nat \<Rightarrow> error + buffer \<Rightarrow> (buffer \<Rightarrow> bool) \<Rightarrow> bool" where
  "if_room b n r P \<longleftrightarrow>
     r = Inl LengthError \<and> vec_max_size < length (contents b) + 2 * n + 8 \<or> (\<exists>b'. r = Inr b' \<and> P b')"

definition made_room :: "buffer \<Rightarrow> nat \<Rightarrow> buffer \<Rightarrow> bool" where
  "made_room b n b' \<longleftrightarrow> buf_inv b' \<and> contents b' = contents b \<and> n \<le> length (buf b') - unat (write_index b') \<and>
     length (buf b') \<le> max (length (buf b)) (length (contents b) + 2 * n + 8)"

lemma makeSpace_grow:
  assumes inv: "buf_inv b" and full: "writeableBytes b < len" and len: "unat len \<le> vec_max_size"
    and few: "unat (read_index b) + (length (buf b) - unat (write_index b)) < unat len + 8"
    and grow: "prependableBytes b + writeableBytes b < len + kCheapPrepend"
  shows "if_room b (unat len) (makeSpace len b) (made_room b (unat len))"
proof -
  note d = buf_invD [OF inv]
  have bnd: "unat (write_index b) + unat len \<le> length (contents b) + 2 * unat len + 8"
    using few d by (simp add: length_contents inv)
  have wl: "unat (write_index b + len) = unat (write_index b) + unat len"
    using d len by (intro unat_add_nowrap) (auto simp: vec_max_size_def)
  have le: "length (buf b) \<le> unat (write_index b + len)"
    using full d by (simp add: wl word_less_nat_alt unat_writeable inv)
  show ?thesis
  proof (cases "unat (write_index b) + unat len \<le> vec_max_size")
    case True
    then have "makeSpace len b = Inr (b\<lparr>buf := buf b @ replicate (unat (write_index b + len) - length (buf b)) 0\<rparr>)"
      using grow le by (simp add: makeSpace_def vec_resize_grow wl)
    then show ?thesis
      using d bnd True full by (auto simp: if_room_def made_room_def wl buf_inv_def contents_def)
  next
    case False
    then show ?thesis using grow bnd by (simp add: if_room_def makeSpace_def vec_resize_def wl)
  qed
qed

lemma makeSpace_move:
  assumes inv: "buf_inv b" and enough: "unat len + 8 \<le> unat (read_index b) + (length (buf b) - unat (write_index b))"
    and move: "\<not> prependableBytes b + writeableBytes b < len + kCheapPrepend"
  shows "if_room b (unat len) (makeSpace len b) (made_room b (unat len))"
proof -
  note d = buf_invD [OF inv]
  let ?c = "contents b"
  let ?w = "kCheapPrepend + readableBytes b"
  have c: "take (unat (write_index b) - unat (read_index b)) (drop (unat (read_index b)) (buf b)) = ?c"
    by (simp add: contents_def)
  have w: "unat ?w = 8 + length ?c"
    using d vec_max_lt by (subst unat_add_nowrap) (auto simp: unat_readable inv length_contents)
  have "makeSpace len b = Inr (b\<lparr>buf := overwrite (buf b) 8 ?c,
      read_index := kCheapPrepend, write_index := ?w\<rparr>)"
    using move d by (simp add: makeSpace_def copy_within_overwrite Let_def c)
  then show ?thesis
    using d enough by (auto simp: if_room_def made_room_def w buf_inv_def length_contents inv contents_def overwrite_def)
qed

lemma ensureWriteableBytes_cases:
  assumes inv: "buf_inv b" and len: "unat len \<le> vec_max_size"
  shows "if_room b (unat len) (ensureWriteableBytes len b) (made_room b (unat len))"
proof (cases "writeableBytes b < len")
  case True
  have len8: "unat (len + kCheapPrepend) = unat len + 8"
    using len by (subst unat_add_nowrap) (auto simp: vec_max_size_def)
  have "prependableBytes b + writeableBytes b < len + kCheapPrepend \<longleftrightarrow>
      unat (read_index b) + (length (buf b) - unat (write_index b)) < unat len + 8"
    by (simp add: word_less_nat_alt unat_prep_writeable inv len8)
  with makeSpace_grow [OF inv True len] makeSpace_move [OF inv, of len] True show ?thesis
    by (auto simp: ensureWriteableBytes_def)
next
  case False
  with inv show ?thesis
    by (auto simp: if_room_def made_room_def ensureWriteableBytes_def word_less_nat_alt unat_writeable)
qed

section \<open>The operations on the abstract value\<close>

text \<open>
  \<open>append\<close> never loses or reorders bytes, whether the bytes fit, the readable bytes are moved to
  the front or the vector grows: it succeeds, the new readable bytes are the old ones followed by
  the data, and the vector is never larger than it was or than the readable bytes plus twice the
  data plus the reserved prefix.
\<close>

lemma append_bytes_cases:
  assumes inv: "buf_inv b" and len: "unat len \<le> length str" "unat len \<le> vec_max_size"
  shows "if_room b (unat len) (append_bytes str len b) (\<lambda>b'. buf_inv b' \<and>
    contents b' = contents b @ take (unat len) str \<and>
    length (buf b') \<le> max (length (buf b)) (length (contents b) + 2 * unat len + 8))"
proof (cases "ensureWriteableBytes len b")
  case (Inl e)
  with ensureWriteableBytes_cases [OF inv len(2)] show ?thesis by (simp add: if_room_def append_bytes_def)
next
  case (Inr b1)
  with ensureWriteableBytes_cases [OF inv len(2)] have b1: "made_room b (unat len) b1" by (simp add: if_room_def)
  note d = buf_invD [OF b1 [unfolded made_room_def, THEN conjunct1]]
  have room: "unat (write_index b1) + unat len \<le> length (buf b1)"
    using b1 d unfolding made_room_def by linarith
  let ?v = "overwrite (buf b1) (unat (write_index b1)) (take (unat len) str)"
  have w: "unat (write_index b1 + len) = unat (write_index b1) + unat len"
    using room d vec_max_lt by (intro unat_add_nowrap) fastforce
  have "append_bytes str len b = Inr (b1\<lparr>buf := ?v, write_index := write_index b1 + len\<rparr>)"
    using len(1) room by (simp add: append_bytes_def Inr copy_into_def)
  moreover have "contents (b1\<lparr>buf := ?v, write_index := write_index b1 + len\<rparr>) =
      contents b1 @ take (unat len) str"
    using overwrite_window [of "unat (read_index b1)" "unat (write_index b1)"
        "take (unat len) str" "buf b1"] d len(1) room
    by (simp add: contents_def w)
  ultimately show ?thesis
    using d room b1 len(1) by (auto simp: if_room_def made_room_def buf_inv_def w)
qed

lemma append_bytes_ok:
  assumes "buf_inv b" and "unat len \<le> length str" and fits: "length (contents b) + 2 * unat len + 8 \<le> vec_max_size"
  shows "\<exists>b'. append_bytes str len b = Inr b' \<and> buf_inv b' \<and>
    contents b' = contents b @ take (unat len) str \<and>
    length (buf b') \<le> max (length (buf b)) (length (contents b) + 2 * unat len + 8)"
  using append_bytes_cases [OF assms(1,2)] fits by (auto simp: if_room_def)

lemma retrieveAll_ok: "buf_inv b \<Longrightarrow> buf_inv (retrieveAll b) \<and> contents (retrieveAll b) = []"
  by (auto simp: retrieveAll_def buf_inv_def contents_def)

lemma retrieve_ok:
  assumes inv: "buf_inv b"
  shows "buf_inv (retrieve len b) \<and> contents (retrieve len b) = drop (unat len) (contents b)"
proof (cases "len < readableBytes b")
  case True
  note d = buf_invD [OF inv]
  have lt: "unat len < unat (write_index b) - unat (read_index b)"
    using True by (simp add: word_less_nat_alt unat_readable_idx inv)
  have r: "unat (read_index b + len) = unat (read_index b) + unat len"
    using lt unat_bound64 [of "write_index b"] by (intro unat_add_nowrap) simp
  show ?thesis
    using True lt d
    by (auto simp: retrieve_def buf_inv_def contents_def r drop_take add.commute [of "unat len"])
next
  case False
  then have "length (contents b) \<le> unat len"
    by (simp add: word_less_nat_alt unat_readable inv)
  with False retrieveAll_ok [OF inv] show ?thesis by (simp add: retrieve_def)
qed

lemma mem_range_contents:
  assumes inv: "buf_inv b" and "n \<le> length (contents b)"
  shows "mem_range (buf b) (unat (read_index b)) n = Inr (take n (contents b))"
proof -
  have "n \<le> unat (write_index b) - unat (read_index b)"
    using assms by (simp add: length_contents)
  then show ?thesis
    using buf_invD [OF inv] by (simp add: mem_range_def contents_def min_def)
qed

lemma retrieveAsString_ok:
  assumes inv: "buf_inv b" and "unat len \<le> length (contents b)"
  shows "retrieveAsString len b = Inr (take (unat len) (contents b), retrieve len b)"
  using assms by (simp add: retrieveAsString_def mem_range_contents)

lemma retrieveAllAsString_ok:
  assumes "buf_inv b"
  shows "retrieveAllAsString b = Inr (contents b, retrieveAll b)"
  using assms
  by (simp add: retrieveAllAsString_def retrieveAsString_ok unat_readable retrieve_def)

lemma writeFd_ok:
  assumes "buf_inv b"
  shows "writeFd wr fd k b = Inr (wr k fd (contents b))"
  using assms by (simp add: writeFd_def mem_range_contents unat_readable)

lemma Buffer_new_ok:
  assumes "unat initial_size + 8 \<le> vec_max_size"
  shows "\<exists>b. Buffer_new initial_size = Inr b \<and> buf_inv b \<and> contents b = [] \<and>
    unat (writeableBytes b) = unat initial_size"
proof -
  have "unat (kCheapPrepend + initial_size) = 8 + unat initial_size"
    using assms vec_max_lt by (subst unat_add_nowrap) (auto simp: add.commute)
  then have "Buffer_new initial_size = Inr \<lparr>buf = replicate (8 + unat initial_size) 0,
      read_index = kCheapPrepend, write_index = kCheapPrepend\<rparr>"
    using assms by (simp add: Buffer_new_def vec_resize_def)
  then show ?thesis
    using assms
    by (auto simp: buf_inv_def contents_def writeableBytes_def vec_size_def word_nat vec_max_lt)
qed

section \<open>Reading from a descriptor\<close>

lemma readFd_error:
  assumes "readv k fd (if extra_buffer_size < unat (writeableBytes b) then [unat (writeableBytes b)]
      else [unat (writeableBytes b), extra_buffer_size]) = (SErr e, k')"
  shows "readFd readv fd k b = Inr (SErr e, k', b)"
  using assms by (simp add: readFd_def Let_def)

lemma fill_writeable:
  assumes inv: "buf_inv b" and n: "length bs \<le> unat (writeableBytes b)"
  shows "buf_inv (b\<lparr>buf := overwrite (buf b) (unat (write_index b)) bs,
             write_index := write_index b + of_nat (length bs)\<rparr>)"
    and "contents (b\<lparr>buf := overwrite (buf b) (unat (write_index b)) bs,
             write_index := write_index b + of_nat (length bs)\<rparr>) = contents b @ bs"
proof -
  note d = buf_invD [OF inv]
  have room: "unat (write_index b) + length bs \<le> length (buf b)"
    using n d by (simp add: unat_writeable inv)
  have bs: "unat (of_nat (length bs) :: size_t) = length bs"
    using room d vec_max_lt by (intro unat_of_nat_small) fastforce
  have w: "unat (write_index b + of_nat (length bs)) = unat (write_index b) + length bs"
    using room d vec_max_lt by (subst unat_add_nowrap) (fastforce simp: bs)+
  show "buf_inv (b\<lparr>buf := overwrite (buf b) (unat (write_index b)) bs,
             write_index := write_index b + of_nat (length bs)\<rparr>)"
    using d room by (simp add: buf_inv_def w)
  show "contents (b\<lparr>buf := overwrite (buf b) (unat (write_index b)) bs,
             write_index := write_index b + of_nat (length bs)\<rparr>) = contents b @ bs"
    using overwrite_window [of "unat (read_index b)" "unat (write_index b)" bs "buf b"] d room
    by (simp add: contents_def w)
qed

text \<open>More bytes than fit: the vector is filled and the rest is appended from the extra buffer.\<close>

lemma readFd_overflow:
  assumes inv: "buf_inv b" and n: "unat (writeableBytes b) < length bs"
    and len: "length bs \<le> unat (writeableBytes b) + extra_buffer_size"
    and small: "unat (writeableBytes b) \<le> extra_buffer_size"
  defines "r \<equiv> append_bytes (drop (unat (writeableBytes b)) bs) (of_nat (length bs) - writeableBytes b)
      (b\<lparr>buf := overwrite (buf b) (unat (write_index b)) (take (unat (writeableBytes b)) bs),
         write_index := vec_size (overwrite (buf b) (unat (write_index b))
           (take (unat (writeableBytes b)) bs))\<rparr>)"
  shows "r = Inl LengthError \<and> vec_max_size < length (contents b) + 3 * extra_buffer_size + 8 \<or>
    (\<exists>b'. r = Inr b' \<and> buf_inv b' \<and> contents b' = contents b @ bs)"
proof -
  let ?m = "unat (writeableBytes b)"
  let ?b = "b\<lparr>buf := overwrite (buf b) (unat (write_index b)) (take ?m bs),
     write_index := write_index b + of_nat (length (take ?m bs))\<rparr>"
  note d = buf_invD [OF inv]
  have fill: "buf_inv ?b" "contents ?b = contents b @ take ?m bs"
    using fill_writeable [OF inv, of "take ?m bs"] by auto
  have room: "unat (write_index b) + ?m = length (buf b)"
    using d by (simp add: unat_writeable inv)
  have eq: "vec_size (overwrite (buf b) (unat (write_index b)) (take ?m bs)) =
      write_index b + of_nat (length (take ?m bs))"
  proof -
    have "length (overwrite (buf b) (unat (write_index b)) (take ?m bs)) = unat (write_index b) + ?m"
      using n room by simp
    then show ?thesis using n by (simp add: vec_size_def)
  qed
  have bs: "unat (of_nat (length bs) :: size_t) = length bs"
    using len small by (intro unat_of_nat_small) (simp add: extra_buffer_size_def)
  have sub: "unat (of_nat (length bs) - writeableBytes b) = length bs - ?m"
    using n by (simp add: unat_sub_nowrap bs)
  have "length bs - ?m \<le> vec_max_size"
    using len by (simp add: extra_buffer_size_def vec_max_size_def)
  then have "if_room ?b (length bs - ?m) r (\<lambda>b'. buf_inv b' \<and> contents b' = contents ?b @ drop ?m bs \<and>
        length (buf b') \<le> max (length (buf ?b)) (length (contents ?b) + 2 * (length bs - ?m) + 8))"
    using append_bytes_cases [OF fill(1), of "of_nat (length bs) - writeableBytes b" "drop ?m bs"]
    by (simp add: sub r_def eq)
  then consider "r = Inl LengthError" "vec_max_size < length (contents ?b) + 2 * (length bs - ?m) + 8"
    | b' where "r = Inr b'" "buf_inv b'" "contents b' = contents ?b @ drop ?m bs"
    unfolding if_room_def by blast
  then show ?thesis
  proof cases
    case 1
    then show ?thesis using len small n unfolding fill(2) by simp
  next
    case 2
    then show ?thesis unfolding fill(2) by simp
  qed
qed

text \<open>\<open>readFd\<close> keeps every byte it got, or the vector would be too large.\<close>

lemma readFd_cases:
  assumes inv: "buf_inv b" and bounded: "readv_bounded readv"
    and call: "readv k fd (if extra_buffer_size < unat (writeableBytes b) then [unat (writeableBytes b)]
      else [unat (writeableBytes b), extra_buffer_size]) = (SOk bs, k')"
  shows "readFd readv fd k b = Inl LengthError \<and> vec_max_size < length (contents b) + 3 * extra_buffer_size + 8 \<or>
    (\<exists>b'. readFd readv fd k b = Inr (SOk (length bs), k', b') \<and> buf_inv b' \<and> contents b' = contents b @ bs)"
proof -
  let ?m = "unat (writeableBytes b)"
  have len: "length bs \<le> (if extra_buffer_size < ?m then ?m else ?m + extra_buffer_size)"
    using bounded call unfolding readv_bounded_def by (fastforce split: if_splits)
  have "?m \<le> vec_max_size"
    using buf_invD [OF inv] by (simp add: unat_writeable inv)
  then have "length bs < 18446744073709551616"
    using len by (auto simp: vec_max_size_def extra_buffer_size_def split: if_splits)
  then have le: "of_nat (length bs) \<le> writeableBytes b \<longleftrightarrow> length bs \<le> ?m"
    by (simp add: word_le_nat_alt unat_of_nat_small)
  show ?thesis
  proof (cases "length bs \<le> ?m")
    case True
    with fill_writeable [OF inv True] call show ?thesis
      by (simp add: readFd_def Let_def le)
  next
    case False
    with len have "?m < length bs" "length bs \<le> ?m + extra_buffer_size" "?m \<le> extra_buffer_size"
      by (auto split: if_splits)
    from readFd_overflow [OF inv this] False call show ?thesis
      by (auto simp: readFd_def Let_def le)
  qed
qed

lemma readFd_ok:
  assumes "buf_inv b" and "readv_bounded readv"
    and "length (contents b) + 3 * extra_buffer_size + 8 \<le> vec_max_size"
    and "readv k fd (if extra_buffer_size < unat (writeableBytes b) then [unat (writeableBytes b)]
      else [unat (writeableBytes b), extra_buffer_size]) = (SOk bs, k')"
  shows "\<exists>b'. readFd readv fd k b = Inr (SOk (length bs), k', b') \<and> buf_inv b' \<and>
    contents b' = contents b @ bs"
  using readFd_cases [OF assms(1,2,4)] assms(3) by auto

section \<open>The interface: a queue of bytes\<close>

text \<open>
  What a connection relies on when it keeps bytes in a buffer: appending adds at the
  end as long as the sizes stay below the capacity, retrieving drops from the front.
\<close>

locale byte_queue =
  fixes inv :: "'b \<Rightarrow> bool"
    and con :: "'b \<Rightarrow> byte list"
    and app :: "byte list \<Rightarrow> 'b \<Rightarrow> error + 'b"
    and ret :: "size_t \<Rightarrow> 'b \<Rightarrow> 'b"
    and clear :: "'b \<Rightarrow> 'b"
    and cap :: nat
  assumes app_ok: "inv b \<Longrightarrow> length (con b) + 2 * length xs + 8 \<le> cap \<Longrightarrow>
      \<exists>b'. app xs b = Inr b' \<and> inv b' \<and> con b' = con b @ xs"
    and ret_inv: "inv b \<Longrightarrow> inv (ret n b)"
    and ret_con: "inv b \<Longrightarrow> con (ret n b) = drop (unat n) (con b)"
    and clear_inv: "inv b \<Longrightarrow> inv (clear b)"
    and clear_con: "inv b \<Longrightarrow> con (clear b) = []"
begin

lemma run_refines:
  assumes "inv b" and "length (con b) + 2 * appended ops + 8 \<le> cap"
  shows "\<exists>b'. fold_r (\<lambda>op b. case op of Append xs \<Rightarrow> app xs b | Retrieve n \<Rightarrow> Inr (ret n b)
      | RetrieveAll \<Rightarrow> Inr (clear b)) ops b = Inr b' \<and> inv b' \<and>
    con b' = fold queue_step ops (con b)"
  using assms
proof (induction ops arbitrary: b)
  case Nil
  then show ?case by simp
next
  case (Cons op ops)
  show ?case
  proof (cases op)
    case (Append xs)
    with app_ok [OF Cons.prems(1), of xs] Cons.prems(2) obtain b1 where
      "app xs b = Inr b1" "inv b1" "con b1 = con b @ xs" by auto
    with Cons.IH [of b1] Cons.prems(2) Append show ?thesis by auto
  next
    case (Retrieve n)
    with Cons.IH [of "ret n b"] Cons.prems show ?thesis
      by (auto simp: ret_inv ret_con)
  next
    case RetrieveAll
    with Cons.IH [of "clear b"] Cons.prems show ?thesis
      by (auto simp: clear_inv clear_con)
  qed
qed

lemma app_then_ret:
  assumes "inv b" and "length (con b) + 2 * length xs + 8 \<le> cap"
    and "length (con b) < 2 ^ 64" and "app xs b = Inr b'"
  shows "con (ret (of_nat (length (con b))) b') = xs"
  using assms app_ok [OF assms(1,2)] by (auto simp: ret_con unat_of_nat_small)

end

interpretation bq: byte_queue buf_inv contents "\<lambda>xs. append_bytes xs (of_nat (length xs))"
  retrieve retrieveAll vec_max_size
proof (unfold_locales, goal_cases)
  case (1 b xs)
  then have "unat (of_nat (length xs) :: size_t) = length xs"
    by (intro unat_of_nat_small) (simp add: vec_max_size_def)
  with append_bytes_ok [of b "of_nat (length xs)" xs] 1 show ?case by auto
qed (use retrieve_ok retrieveAll_ok in auto)

lemma buf_step_cases:
  "buf_step op b = (case op of Append xs \<Rightarrow> append_bytes xs (of_nat (length xs)) b
     | Retrieve n \<Rightarrow> Inr (retrieve n b) | RetrieveAll \<Rightarrow> Inr (retrieveAll b))"
  by (cases op) simp_all

section \<open>Properties\<close>

text \<open>
  C12: the buffer refines a first-in first-out queue of bytes.  Any sequence of
  \<open>append\<close>, \<open>retrieve\<close> and \<open>retrieveAll\<close>, on a well-formed buffer and within the
  vector's maximal size, succeeds, keeps the index invariant, and its readable
  bytes are those of the abstract queue after the same operations.
\<close>

theorem buffer_refines_queue:
  assumes "buf_inv b" and "length (contents b) + 2 * appended ops + 8 \<le> vec_max_size"
  shows "\<exists>b'. fold_r buf_step ops b = Inr b' \<and> buf_inv b' \<and>
    contents b' = fold queue_step ops (contents b)"
  using bq.run_refines [OF assms] by (simp add: buf_step_cases [abs_def])

theorem buffer_refines_queue_witness:
  "\<exists>b'. fold_r buf_step [Append [1, 2, 3], Retrieve 2, Append [4]]
      \<lparr>buf = replicate 16 0, read_index = 8, write_index = 8\<rparr> = Inr b' \<and> buf_inv b' \<and>
    contents b' = [3, 4]"
  using buffer_refines_queue
    [of "\<lparr>buf = replicate 16 0, read_index = 8, write_index = 8\<rparr>"
      "[Append [1, 2, 3], Retrieve 2, Append [4]]"]
  by (simp add: buf_inv_def contents_def vec_max_size_def)

text \<open>
  C22: \<open>readFd\<close> delivers every byte the kernel returned, in order, behind the bytes
  already buffered, also when they overflow into the 64 KiB stack buffer; on an
  error the buffer is unchanged and the error number is passed on.
\<close>

theorem readFd_correct:
  assumes "buf_inv b" and "readv_bounded readv"
    and "length (contents b) + 3 * extra_buffer_size + 8 \<le> vec_max_size"
  shows "case readv k fd (if extra_buffer_size < unat (writeableBytes b)
        then [unat (writeableBytes b)] else [unat (writeableBytes b), extra_buffer_size]) of
      (SErr e, k') \<Rightarrow> readFd readv fd k b = Inr (SErr e, k', b)
    | (SOk bs, k') \<Rightarrow> \<exists>b'. readFd readv fd k b = Inr (SOk (length bs), k', b') \<and>
        buf_inv b' \<and> contents b' = contents b @ bs"
  using readFd_ok [OF assms] readFd_error [of readv k fd b]
  by (auto split: prod.splits sysret.splits)

theorem readFd_correct_witness:
  "\<exists>b'. readFd (\<lambda>k fd ls. (SOk (take (sum_list ls) k), drop (sum_list ls) k)) 5 [1, 2, 3]
      \<lparr>buf = replicate 10 0, read_index = 8, write_index = 8\<rparr> = Inr (SOk 3, [], b') \<and>
    buf_inv b' \<and> contents b' = [1, 2, 3]"
  using readFd_correct
    [of "\<lparr>buf = replicate 10 0, read_index = 8, write_index = 8\<rparr>"
      "\<lambda>k fd ls. (SOk (take (sum_list ls) k), drop (sum_list ls) k)" 5 "[1, 2, 3]"]
  by (simp add: buf_inv_def contents_def vec_max_size_def readv_bounded_def extra_buffer_size_def
      writeableBytes_def vec_size_def numeral_3_eq_3)

text \<open>
  Round trip: what is appended to an empty buffer is what
  \<open>retrieveAllAsString\<close> returns, and the buffer is empty again afterwards.
\<close>

lemma append_retrieveAllAsString:
  assumes "buf_inv b" and "contents b = []" and "2 * length xs + 8 \<le> vec_max_size"
  shows "\<exists>b'. and_then (append_bytes xs (of_nat (length xs)) b) retrieveAllAsString = Inr (xs, b') \<and>
    buf_inv b' \<and> contents b' = []"
  using bq.app_ok [of b xs] assms by (auto simp: retrieveAllAsString_ok retrieveAll_ok)

text \<open>
  C40: \<open>retrieveAsString\<close> does not check its length against the readable bytes.  A
  longer request returns the readable bytes followed by whatever the writeable area
  holds, and reads outside the vector when the request passes its end.
\<close>

theorem retrieveAsString_overread:
  assumes "buf_inv b" and "length (contents b) < unat len"
  shows "retrieveAsString len b =
    (if unat (read_index b) + unat len \<le> length (buf b)
     then Inr (contents b @ take (unat len - length (contents b)) (drop (unat (write_index b)) (buf b)),
               retrieveAll b)
     else Inl OutOfBounds)"
proof -
  note d = buf_invD [OF assms(1)]
  let ?n = "unat (write_index b) - unat (read_index b)"
  have n: "length (contents b) = ?n" "?n < unat len"
    using assms by (auto simp: length_contents)
  have "take (unat len) (drop (unat (read_index b)) (buf b)) =
      take ?n (drop (unat (read_index b)) (buf b)) @
      take (unat len - ?n) (drop ?n (drop (unat (read_index b)) (buf b)))"
    using n(2) by (metis le_add_diff_inverse less_imp_le take_add)
  moreover have "\<not> len < readableBytes b"
    using assms by (simp add: word_less_nat_alt unat_readable)
  ultimately show ?thesis
    using d n by (simp add: retrieveAsString_def mem_range_def retrieve_def contents_def)
qed

theorem retrieveAsString_overread_witness:
  "retrieveAsString 3 \<lparr>buf = replicate 9 1 @ [8, 9], read_index = 8, write_index = 9\<rparr> =
    Inr ([1, 8, 9], \<lparr>buf = replicate 9 1 @ [8, 9], read_index = 8, write_index = 8\<rparr>)"
  using retrieveAsString_overread
    [of "\<lparr>buf = replicate 9 1 @ [8, 9], read_index = 8, write_index = 9\<rparr>" 3]
  by (simp add: buf_inv_def contents_def vec_max_size_def retrieveAll_def kCheapPrepend_def)

end
