(* ===== verification/Channel_Poller.thy ===== *)
theory Channel_Poller
  imports Timestamps
begin

text \<open>
  \<open>Channel\<close> (include/Channel.h, src/Channel.cc), the base class \<open>Poller\<close> (include/Poller.h,
  src/Poller.cc, src/DefaultPoller.cc) and \<open>EPollPoller\<close> (include/EPollPoller.h,
  src/EPollPoller.cc).  Channels live in a heap of addresses; the poller keeps the map from
  descriptors to channels; the kernel's epoll instance is a parameter whose documented
  behaviour is \<open>epoll_laws\<close>.  The state record is extended by the event loop, so every
  operation works on any extension of it.
\<close>

unbundle bit_operations_syntax

section \<open>Channels\<close>

type_synonym event_mask = "32 word"

definition EPOLLIN :: event_mask where "EPOLLIN = 1"
definition EPOLLPRI :: event_mask where "EPOLLPRI = 2"
definition EPOLLOUT :: event_mask where "EPOLLOUT = 4"
definition EPOLLERR :: event_mask where "EPOLLERR = 8"
definition EPOLLHUP :: event_mask where "EPOLLHUP = 16"

definition kReadEvent :: event_mask where
  "kReadEvent = EPOLLIN OR EPOLLPRI"

definition kWriteEvent :: event_mask where
  "kWriteEvent = EPOLLOUT"

definition kNoneEvent :: event_mask where
  "kNoneEvent = 0"

text \<open>A callback slot holds the name of a callback or is empty; \<open>tie\<close> is the \<open>weak_ptr\<close>.\<close>

record 'cb channel =
  ch_loop :: ptr
  ch_fd :: int
  events :: event_mask
  revent :: event_mask
  index :: int
  tie_obj :: "ptr option"
  tied :: bool
  read_callback :: "'cb option"
  write_callback :: "'cb option"
  close_callback :: "'cb option"
  error_callback :: "'cb option"

definition Channel_new :: "ptr \<Rightarrow> int \<Rightarrow> 'cb channel" where
  "Channel_new loop fd =
     \<lparr>ch_loop = loop, ch_fd = fd, events = 0, revent = 0, index = -1, tie_obj = None, tied = False,
      read_callback = None, write_callback = None, close_callback = None, error_callback = None\<rparr>"

definition isReading :: "'cb channel \<Rightarrow> bool" where
  "isReading c \<longleftrightarrow> events c AND kReadEvent \<noteq> 0"

definition isWriting :: "'cb channel \<Rightarrow> bool" where
  "isWriting c \<longleftrightarrow> events c AND kWriteEvent \<noteq> 0"

definition isNoneEvent :: "'cb channel \<Rightarrow> bool" where
  "isNoneEvent c \<longleftrightarrow> events c = kNoneEvent"

section \<open>The poller\<close>

definition kNew :: int where "kNew = -1"
definition kAdd :: int where "kAdd = 1"
definition kDelete :: int where "kDelete = 2"

definition kEpollEventListSize :: nat where
  "kEpollEventListSize = 16"

type_synonym epoll_event = "event_mask \<times> ptr"

datatype epoll_op = EPOLL_CTL_ADD | EPOLL_CTL_MOD | EPOLL_CTL_DEL

record 'k epoll_sys =
  epoll_ctl :: "'k \<Rightarrow> epoll_op \<Rightarrow> int \<Rightarrow> epoll_event \<Rightarrow> unit sysret \<times> 'k"
  epoll_wait :: "'k \<Rightarrow> nat \<Rightarrow> int \<Rightarrow> epoll_event list sysret \<times> 'k"
  wall_clock :: "'k \<Rightarrow> Timestamp \<times> 'k"

record ('cb, 'k) poller =
  channels :: "int \<rightharpoonup> ptr"
  channel_heap :: "ptr \<rightharpoonup> 'cb channel"
  kernel :: 'k

definition ch_deref :: "ptr \<Rightarrow> ('cb, 'k, 'z) poller_scheme \<Rightarrow> error + 'cb channel" where
  "ch_deref p s = (case channel_heap s p of None \<Rightarrow> Inl NullPointer | Some c \<Rightarrow> Inr c)"

definition ch_set :: "ptr \<Rightarrow> 'cb channel \<Rightarrow> ('cb, 'k, 'z) poller_scheme \<Rightarrow> ('cb, 'k, 'z) poller_scheme" where
  "ch_set p c s = s\<lparr>channel_heap := (channel_heap s)(p \<mapsto> c)\<rparr>"

definition hasChannel :: "ptr \<Rightarrow> ('cb, 'k, 'z) poller_scheme \<Rightarrow> error + bool" where
  "hasChannel p s = and_then (ch_deref p s) (\<lambda>c. Inr (channels s (ch_fd c) = Some p))"

text \<open>\<open>EPollPoller::update\<close>: a failed removal is logged, a failed addition or change is fatal.\<close>

definition ep_update :: "('k, 'y) epoll_sys_scheme \<Rightarrow> epoll_op \<Rightarrow> ptr \<Rightarrow> ('cb, 'k, 'z) poller_scheme \<Rightarrow>
    error + ('cb, 'k, 'z) poller_scheme" where
  "ep_update S operation p s =
     and_then (ch_deref p s) (\<lambda>c.
     let (r, k) = epoll_ctl S (kernel s) operation (ch_fd c) (events c, p)
     in case r of
          SOk _ \<Rightarrow> Inr (s\<lparr>kernel := k\<rparr>)
        | SErr _ \<Rightarrow> if operation = EPOLL_CTL_DEL then Inr (s\<lparr>kernel := k\<rparr>) else Inl FatalExit)"

definition setIndex :: "ptr \<Rightarrow> int \<Rightarrow> ('cb, 'k, 'z) poller_scheme \<Rightarrow> error + ('cb, 'k, 'z) poller_scheme" where
  "setIndex p i s = and_then (ch_deref p s) (\<lambda>c. Inr (ch_set p (c\<lparr>index := i\<rparr>) s))"

definition updateChannel :: "('k, 'y) epoll_sys_scheme \<Rightarrow> ptr \<Rightarrow> ('cb, 'k, 'z) poller_scheme \<Rightarrow>
    error + ('cb, 'k, 'z) poller_scheme" where
  "updateChannel S p s =
     and_then (ch_deref p s) (\<lambda>c.
     let idx = index c; cfd = ch_fd c
     in if idx = kNew \<or> idx = kDelete
        then if isNoneEvent c then Inr s
             else let s1 = (if idx = kNew then s\<lparr>channels := (channels s)(cfd \<mapsto> p)\<rparr> else s)
                  in and_then (ep_update S EPOLL_CTL_ADD p s1) (setIndex p kAdd)
        else if isNoneEvent c
             then and_then (ep_update S EPOLL_CTL_DEL p s) (setIndex p kDelete)
             else ep_update S EPOLL_CTL_MOD p s)"

definition removeChannel :: "('k, 'y) epoll_sys_scheme \<Rightarrow> ptr \<Rightarrow> ('cb, 'k, 'z) poller_scheme \<Rightarrow>
    error + ('cb, 'k, 'z) poller_scheme" where
  "removeChannel S p s =
     and_then (ch_deref p s) (\<lambda>c.
     let idx = index c; fd = ch_fd c
     in if idx = kNew then Inr s
        else let s1 = s\<lparr>channels := (channels s)(fd := None)\<rparr>
             in and_then (if idx = kAdd then ep_update S EPOLL_CTL_DEL p s1 else Inr s1)
                  (setIndex p kNew))"

text \<open>\<open>fillActiveChannels\<close>: record what happened in each channel and list the channels.\<close>

fun fillActiveChannels :: "epoll_event list \<Rightarrow> ptr list \<Rightarrow> ('cb, 'k, 'z) poller_scheme \<Rightarrow>
    error + (ptr list \<times> ('cb, 'k, 'z) poller_scheme)" where
  "fillActiveChannels [] active s = Inr (active, s)"
| "fillActiveChannels ((ev, p) # evs) active s =
     and_then (ch_deref p s) (\<lambda>c.
     fillActiveChannels evs (active @ [p]) (ch_set p (c\<lparr>revent := ev\<rparr>) s))"

definition poll :: "('k, 'y) epoll_sys_scheme \<Rightarrow> int \<Rightarrow> ptr list \<Rightarrow> ('cb, 'k, 'z) poller_scheme \<Rightarrow>
    error + (Timestamp \<times> ptr list \<times> ('cb, 'k, 'z) poller_scheme)" where
  "poll S time_out active s =
     (let (r, k1) = epoll_wait S (kernel s) kEpollEventListSize time_out;
          (st, k2) = wall_clock S k1;
          s1 = s\<lparr>kernel := k2\<rparr>
      in case r of
           SErr _ \<Rightarrow> Inr (st, active, s1)
         | SOk evs \<Rightarrow> and_then (fillActiveChannels evs active s1) (\<lambda>(active', s2). Inr (st, active', s2)))"

section \<open>Operations of a channel\<close>

type_synonym ('cb, 'k, 'y, 'z) channel_op =
  "('k, 'y) epoll_sys_scheme \<Rightarrow> ptr \<Rightarrow> ('cb, 'k, 'z) poller_scheme \<Rightarrow> error + ('cb, 'k, 'z) poller_scheme"

definition set_events :: "('k, 'y) epoll_sys_scheme \<Rightarrow> ptr \<Rightarrow> (event_mask \<Rightarrow> event_mask) \<Rightarrow>
    ('cb, 'k, 'z) poller_scheme \<Rightarrow> error + ('cb, 'k, 'z) poller_scheme" where
  "set_events S p f s =
     and_then (ch_deref p s) (\<lambda>c. updateChannel S p (ch_set p (c\<lparr>events := f (events c)\<rparr>) s))"

definition enableReading :: "('cb, 'k, 'y, 'z) channel_op" where
  "enableReading S p = set_events S p (\<lambda>e. e OR kReadEvent)"

definition disableReading :: "('cb, 'k, 'y, 'z) channel_op" where
  "disableReading S p = set_events S p (\<lambda>e. e AND NOT kReadEvent)"

definition enableWriting :: "('cb, 'k, 'y, 'z) channel_op" where
  "enableWriting S p = set_events S p (\<lambda>e. e OR kWriteEvent)"

definition disableWriting :: "('cb, 'k, 'y, 'z) channel_op" where
  "disableWriting S p = set_events S p (\<lambda>e. e AND NOT kWriteEvent)"

definition disableAll :: "('cb, 'k, 'y, 'z) channel_op" where
  "disableAll S p = set_events S p (\<lambda>e. kNoneEvent)"

definition tie_channel :: "ptr \<Rightarrow> ptr \<Rightarrow> ('cb, 'k, 'z) poller_scheme \<Rightarrow> error + ('cb, 'k, 'z) poller_scheme" where
  "tie_channel p obj s = and_then (ch_deref p s) (\<lambda>c. Inr (ch_set p (c\<lparr>tie_obj := Some obj, tied := True\<rparr>) s))"

text \<open>
  Dispatch.  \<open>invoke\<close> runs a callback and \<open>alive\<close> says whether the object of a \<open>weak_ptr\<close> can
  still be locked; the channel is read again before each test, as the code reads its fields.
\<close>

datatype 'cb call = Call 'cb | CallRead 'cb Timestamp

type_synonym ('cb, 'k, 'z) invoke = "'cb call \<Rightarrow> ('cb, 'k, 'z) poller_scheme \<Rightarrow> error + ('cb, 'k, 'z) poller_scheme"

definition run_slot :: "('cb, 'k, 'z) invoke \<Rightarrow> ('cb channel \<Rightarrow> bool) \<Rightarrow> ('cb channel \<Rightarrow> 'cb call option) \<Rightarrow>
    ptr \<Rightarrow> ('cb, 'k, 'z) poller_scheme \<Rightarrow> error + ('cb, 'k, 'z) poller_scheme" where
  "run_slot invoke cond slot p s =
     and_then (ch_deref p s) (\<lambda>c.
       if cond c then (case slot c of None \<Rightarrow> Inr s | Some cb \<Rightarrow> invoke cb s) else Inr s)"

definition wants_close :: "'cb channel \<Rightarrow> bool" where
  "wants_close c \<longleftrightarrow> revent c AND EPOLLHUP \<noteq> 0 \<and> revent c AND EPOLLIN = 0"

definition wants_read :: "'cb channel \<Rightarrow> bool" where
  "wants_read c \<longleftrightarrow> revent c AND (EPOLLIN OR EPOLLPRI) \<noteq> 0"

definition wants_write :: "'cb channel \<Rightarrow> bool" where
  "wants_write c \<longleftrightarrow> revent c AND EPOLLOUT \<noteq> 0"

definition wants_error :: "'cb channel \<Rightarrow> bool" where
  "wants_error c \<longleftrightarrow> revent c AND EPOLLERR \<noteq> 0"

definition handleEventWithGuard :: "('cb, 'k, 'z) invoke \<Rightarrow> Timestamp \<Rightarrow> ptr \<Rightarrow>
    ('cb, 'k, 'z) poller_scheme \<Rightarrow> error + ('cb, 'k, 'z) poller_scheme" where
  "handleEventWithGuard invoke receive_time p s =
     and_then (run_slot invoke wants_close (\<lambda>c. map_option Call (close_callback c)) p s) (\<lambda>s1.
     and_then (run_slot invoke wants_read (\<lambda>c. map_option (\<lambda>cb. CallRead cb receive_time) (read_callback c)) p s1) (\<lambda>s2.
     and_then (run_slot invoke wants_write (\<lambda>c. map_option Call (write_callback c)) p s2) (\<lambda>s3.
     run_slot invoke wants_error (\<lambda>c. map_option Call (error_callback c)) p s3)))"

definition handleEvent :: "('cb, 'k, 'z) invoke \<Rightarrow> (ptr option \<Rightarrow> ('cb, 'k, 'z) poller_scheme \<Rightarrow> bool) \<Rightarrow>
    Timestamp \<Rightarrow> ptr \<Rightarrow> ('cb, 'k, 'z) poller_scheme \<Rightarrow> error + ('cb, 'k, 'z) poller_scheme" where
  "handleEvent invoke alive receive_time p s =
     and_then (ch_deref p s) (\<lambda>c.
       if tied c
       then if alive (tie_obj c) s then handleEventWithGuard invoke receive_time p s else Inr s
       else handleEventWithGuard invoke receive_time p s)"

section \<open>The invariant\<close>

text \<open>
  What epoll documents, over the set of descriptors it can watch and its interest list: an
  addition of a new open descriptor and a change or removal of a listed one succeed and do
  just that; adding a listed one fails; waiting reports each listed descriptor at most once,
  no more than the given number, with the data it was listed with.
\<close>

definition epoll_laws ::
    "('k, 'y) epoll_sys_scheme \<Rightarrow> ('k \<Rightarrow> int \<rightharpoonup> epoll_event) \<Rightarrow> ('k \<Rightarrow> int set) \<Rightarrow> bool" where
  "epoll_laws S interest opened \<longleftrightarrow>
     (\<forall>k fd ev. fd \<in> opened k \<longrightarrow> interest k fd = None \<longrightarrow>
        (\<exists>k'. epoll_ctl S k EPOLL_CTL_ADD fd ev = (SOk (), k') \<and>
           interest k' = (interest k)(fd \<mapsto> ev) \<and> opened k' = opened k)) \<and>
     (\<forall>k fd ev. interest k fd \<noteq> None \<longrightarrow> (\<exists>err k'. epoll_ctl S k EPOLL_CTL_ADD fd ev = (SErr err, k'))) \<and>
     (\<forall>k fd ev. interest k fd \<noteq> None \<longrightarrow>
        (\<exists>k'. epoll_ctl S k EPOLL_CTL_MOD fd ev = (SOk (), k') \<and>
           interest k' = (interest k)(fd \<mapsto> ev) \<and> opened k' = opened k)) \<and>
     (\<forall>k fd ev. interest k fd \<noteq> None \<longrightarrow>
        (\<exists>k'. epoll_ctl S k EPOLL_CTL_DEL fd ev = (SOk (), k') \<and>
           interest k' = (interest k)(fd := None) \<and> opened k' = opened k)) \<and>
     (\<forall>k n t r k'. epoll_wait S k n t = (r, k') \<longrightarrow> interest k' = interest k \<and> opened k' = opened k) \<and>
     (\<forall>k n t evs k'. epoll_wait S k n t = (SOk evs, k') \<longrightarrow> length evs \<le> n \<and>
        (\<exists>fds. distinct fds \<and> list_all2 (\<lambda>fd ev. \<exists>m. interest k fd = Some (m, snd ev)) fds evs)) \<and>
     (\<forall>k t k'. wall_clock S k = (t, k') \<longrightarrow> interest k' = interest k \<and> opened k' = opened k)"

text \<open>
  The channel's \<open>index\<close>, the poller's map and the kernel's interest list agree: a channel is in
  the map exactly when its index is not \<open>kNew\<close>, and the kernel watches exactly the channels of
  index \<open>kAdd\<close>, for the events they ask for.
\<close>

definition watched :: "('cb, 'k, 'z) poller_scheme \<Rightarrow> int \<Rightarrow> epoll_event option" where
  "watched s fd =
     (case channels s fd of None \<Rightarrow> None
      | Some p \<Rightarrow> (case channel_heap s p of None \<Rightarrow> None
          | Some c \<Rightarrow> if index c = kAdd then Some (events c, p) else None))"

definition chan_ok :: "('cb, 'k, 'z) poller_scheme \<Rightarrow> ptr \<Rightarrow> 'cb channel \<Rightarrow> bool" where
  "chan_ok s p c \<longleftrightarrow>
     (index c = kNew \<or> index c = kAdd \<or> index c = kDelete) \<and>
     (channels s (ch_fd c) = Some p \<longleftrightarrow> index c \<noteq> kNew) \<and>
     (index c = kAdd \<longrightarrow> events c \<noteq> 0) \<and> (index c = kDelete \<longrightarrow> events c = 0)"

definition poller_inv :: "('k \<Rightarrow> int \<rightharpoonup> epoll_event) \<Rightarrow> ('cb, 'k, 'z) poller_scheme \<Rightarrow> bool" where
  "poller_inv interest s \<longleftrightarrow>
     (\<forall>p c. channel_heap s p = Some c \<longrightarrow> chan_ok s p c) \<and>
     (\<forall>fd p. channels s fd = Some p \<longrightarrow> (\<exists>c. channel_heap s p = Some c \<and> ch_fd c = fd)) \<and>
     (\<forall>fd. interest (kernel s) fd = watched s fd)"

lemmas index_consts = kNew_def kAdd_def kDelete_def

lemma ch_deref_Inr [simp]: "ch_deref p s = Inr c \<longleftrightarrow> channel_heap s p = Some c"
  by (simp add: ch_deref_def split: option.splits)

lemma ch_deref_Some: "channel_heap s p = Some c \<Longrightarrow> ch_deref p s = Inr c"
  by simp

lemma ch_set_sel [simp]:
  "channel_heap (ch_set p c s) = (channel_heap s)(p \<mapsto> c)" "channels (ch_set p c s) = channels s"
  "kernel (ch_set p c s) = kernel s"
  by (simp_all add: ch_set_def)

lemma ch_set_set [simp]: "ch_set p c (ch_set p c' s) = ch_set p c s"
  by (simp add: ch_set_def)

lemma poller_invD:
  assumes "poller_inv interest s"
  shows "channel_heap s p = Some c \<Longrightarrow> chan_ok s p c"
    and "channels s fd = Some p \<Longrightarrow> \<exists>c. channel_heap s p = Some c \<and> ch_fd c = fd"
    and "interest (kernel s) fd = watched s fd"
  using assms by (auto simp: poller_inv_def)

text \<open>The interest list, read from the channels' point of view.\<close>

lemma interest_channel:
  assumes "poller_inv interest s" and "channel_heap s p = Some c" and "index c \<noteq> kNew"
  shows "interest (kernel s) (ch_fd c) = (if events c = 0 then None else Some (events c, p))"
  using poller_invD(1) [OF assms(1,2)] poller_invD(3) [OF assms(1), of "ch_fd c"] assms(2,3)
  by (auto simp: chan_ok_def watched_def index_consts)

lemma interest_unregistered:
  assumes "poller_inv interest s" and "channels s fd = None"
  shows "interest (kernel s) fd = None"
  using poller_invD(3) [OF assms(1), of fd] assms(2) by (simp add: watched_def)

lemma chan_ok_frame:
  "chan_ok (s\<lparr>kernel := k\<rparr>) = chan_ok s" "chan_ok (ch_set p c s) = chan_ok s"
  "chan_ok (s\<lparr>channel_heap := h\<rparr>) = chan_ok s"
  by (auto simp: chan_ok_def fun_eq_iff)

text \<open>
  Replacing one channel \<open>p\<close> in the heap, its slot of the map and its line of the interest list
  keeps the invariant when the new values agree with each other.
\<close>

lemma poller_inv_replace:
  assumes inv: "poller_inv interest s" and old: "channel_heap s p = Some c" and fd: "ch_fd c' = ch_fd c"
    and slot: "channels s (ch_fd c) = None \<or> channels s (ch_fd c) = Some p"
    and ok: "index c' = kNew \<or> index c' = kAdd \<or> index c' = kDelete"
      "index c' = kAdd \<longrightarrow> events c' \<noteq> 0" "index c' = kDelete \<longrightarrow> events c' = 0"
    and chs: "channels s' = (channels s)(ch_fd c := if index c' = kNew then None else Some p)"
    and heap: "channel_heap s' = (channel_heap s)(p \<mapsto> c')"
    and kern: "interest (kernel s') = (interest (kernel s))
      (ch_fd c := if index c' = kAdd then Some (events c', p) else None)"
  shows "poller_inv interest s'"
proof -
  have other: "channels s' (ch_fd d) = Some q \<longleftrightarrow> channels s (ch_fd d) = Some q"
    if "channel_heap s q = Some d" "q \<noteq> p" for q d
    using slot that by (auto simp: chs)
  have chan: "chan_ok s' q d" if "channel_heap s' q = Some d" for q d
  proof (cases "q = p")
    case True
    with that heap have "d = c'" by simp
    with True ok show ?thesis by (auto simp: chan_ok_def chs fd)
  next
    case False
    with that heap have "channel_heap s q = Some d" by simp
    with poller_invD(1) [OF inv this] other [OF this False] show ?thesis by (simp add: chan_ok_def)
  qed
  have mapped: "\<exists>d. channel_heap s' q = Some d \<and> ch_fd d = f" if "channels s' f = Some q" for f q
    using that poller_invD(2) [OF inv, of f q] old heap fd by (auto simp: chs split: if_splits)
  have "interest (kernel s') f = watched s' f" for f
  proof (cases "f = ch_fd c")
    case True
    then show ?thesis by (auto simp: kern watched_def chs heap index_consts)
  next
    case False
    then have "channels s' f = channels s f" by (simp add: chs)
    moreover have "channels s f \<noteq> Some p" using False poller_invD(2) [OF inv, of f p] old by auto
    ultimately have "watched s' f = watched s f"
      by (auto simp: watched_def heap split: option.splits)
    then show ?thesis using False poller_invD(3) [OF inv, of f] by (simp add: kern)
  qed
  with chan mapped show ?thesis unfolding poller_inv_def by blast
qed

section \<open>Changing what a channel asks for\<close>

lemmas epoll_add = epoll_laws_def [THEN iffD1, THEN conjunct1, rule_format]
lemmas epoll_add_listed = epoll_laws_def [THEN iffD1, THEN conjunct2, THEN conjunct1, rule_format]
lemmas epoll_mod = epoll_laws_def [THEN iffD1, THEN conjunct2, THEN conjunct2, THEN conjunct1, rule_format]
lemmas epoll_del = epoll_laws_def [THEN iffD1, THEN conjunct2, THEN conjunct2, THEN conjunct2, THEN conjunct1, rule_format]
lemmas epoll_wait_keeps = epoll_laws_def [THEN iffD1, THEN conjunct2, THEN conjunct2, THEN conjunct2, THEN conjunct2, THEN conjunct1, rule_format]
lemmas epoll_wait_reports = epoll_laws_def [THEN iffD1, THEN conjunct2, THEN conjunct2, THEN conjunct2, THEN conjunct2, THEN conjunct2, THEN conjunct1, rule_format]
lemmas clock_keeps = epoll_laws_def [THEN iffD1, THEN conjunct2, THEN conjunct2, THEN conjunct2, THEN conjunct2, THEN conjunct2, THEN conjunct2, rule_format]

lemma ep_update_ok:
  assumes "channel_heap s p = Some c" and "epoll_ctl S (kernel s) operation (ch_fd c) (events c, p) = (SOk (), k)"
  shows "ep_update S operation p s = Inr (s\<lparr>kernel := k\<rparr>)"
  using assms by (simp add: ep_update_def ch_deref_Some)

lemma channel_index_id [simp]: "index c = i \<Longrightarrow> c\<lparr>index := i\<rparr> = c"
  by (cases c) simp

lemma channel_events_index_id [simp]: "index c = i \<Longrightarrow> c\<lparr>events := e, index := i\<rparr> = c\<lparr>events := e\<rparr>"
  by (cases c) simp

lemma poller_id [simp]: "s\<lparr>channels := channels s, channel_heap := channel_heap s, kernel := kernel s\<rparr> = s"
  by (cases s) simp

text \<open>Only the fields of the poller differ.\<close>

definition poller_only :: "('cb, 'k, 'z) poller_scheme \<Rightarrow> ('cb, 'k, 'z) poller_scheme \<Rightarrow> bool" where
  "poller_only s s' \<longleftrightarrow>
     s' = s\<lparr>channels := channels s', channel_heap := channel_heap s', kernel := kernel s'\<rparr>"

text \<open>What the state is after the channel \<open>p\<close> asked for the events \<open>e\<close>.\<close>

definition new_index :: "'cb channel \<Rightarrow> event_mask \<Rightarrow> int" where
  "new_index c e = (if e \<noteq> 0 then kAdd else if index c = kNew then kNew else kDelete)"

definition asked :: "ptr \<Rightarrow> 'cb channel \<Rightarrow> event_mask \<Rightarrow> 'k \<Rightarrow> ('cb, 'k, 'z) poller_scheme \<Rightarrow>
    ('cb, 'k, 'z) poller_scheme" where
  "asked p c e k s =
     s\<lparr>channel_heap := (channel_heap s)(p \<mapsto> c\<lparr>events := e, index := new_index c e\<rparr>),
       channels := (channels s)(ch_fd c := if new_index c e = kNew then None else Some p),
       kernel := k\<rparr>"

lemma updateChannel_ok:
  assumes laws: "epoll_laws S interest opened" and inv: "poller_inv interest s"
    and c: "channel_heap s p = Some c" and opn: "ch_fd c \<in> opened (kernel s)"
    and slot: "channels s (ch_fd c) = None \<or> channels s (ch_fd c) = Some p"
  shows "\<exists>k'. updateChannel S p (ch_set p (c\<lparr>events := e\<rparr>) s) = Inr (asked p c e k' s) \<and>
    interest k' = (interest (kernel s))(ch_fd c := if e = 0 then None else Some (e, p)) \<and>
    opened k' = opened (kernel s)"
proof -
  note ok = poller_invD(1) [OF inv c, unfolded chan_ok_def]
  note run = updateChannel_def ep_update_def setIndex_def ch_deref_def asked_def new_index_def
    isNoneEvent_def kNoneEvent_def ch_set_def index_consts
  consider (none) "index c = kNew" "e = 0" | (fresh) "index c = kNew" "e \<noteq> 0"
    | (stay) "index c = kDelete" "e = 0" | (again) "index c = kDelete" "e \<noteq> 0"
    | (stop) "index c = kAdd" "e = 0" | (change) "index c = kAdd" "e \<noteq> 0"
    using ok by blast
  then show ?thesis
  proof cases
    case none
    then have "channels s (ch_fd c) = None" using ok slot by auto
    with none interest_unregistered [OF inv this] show ?thesis
      by (intro exI [of _ "kernel s"]) (simp add: run fun_upd_idem)
  next
    case fresh
    then have "interest (kernel s) (ch_fd c) = None"
      using ok slot interest_unregistered [OF inv] by auto
    from epoll_add [OF laws opn this, of "(e, p)"] fresh show ?thesis by (cases s) (auto simp: run)
  next
    case stay
    with ok interest_channel [OF inv c] show ?thesis
      by (intro exI [of _ "kernel s"]) (simp add: run fun_upd_idem)
  next
    case again
    then have "interest (kernel s) (ch_fd c) = None"
      using ok interest_channel [OF inv c] by (simp add: index_consts)
    from epoll_add [OF laws opn this, of "(e, p)"] again ok show ?thesis
      by (cases s) (auto simp: run fun_upd_idem)
  next
    case stop
    then have "interest (kernel s) (ch_fd c) \<noteq> None"
      using ok interest_channel [OF inv c] by (simp add: index_consts)
    from epoll_del [OF laws this, of "(e, p)"] stop ok show ?thesis
      by (cases s) (auto simp: run fun_upd_idem)
  next
    case change
    then have "interest (kernel s) (ch_fd c) \<noteq> None"
      using ok interest_channel [OF inv c] by (simp add: index_consts)
    from epoll_mod [OF laws this, of "(e, p)"] change ok show ?thesis
      by (cases s) (auto simp: run fun_upd_idem)
  qed
qed

lemma set_events_ok:
  assumes laws: "epoll_laws S interest opened" and inv: "poller_inv interest s"
    and c: "channel_heap s p = Some c" and opn: "ch_fd c \<in> opened (kernel s)"
    and slot: "channels s (ch_fd c) = None \<or> channels s (ch_fd c) = Some p"
  shows "\<exists>k'. set_events S p f s = Inr (asked p c (f (events c)) k' s) \<and>
    poller_inv interest (asked p c (f (events c)) k' s) \<and>
    interest k' = (interest (kernel s))
      (ch_fd c := if f (events c) = 0 then None else Some (f (events c), p)) \<and>
    opened k' = opened (kernel s)"
proof -
  let ?e = "f (events c)"
  from updateChannel_ok [OF assms, of ?e] obtain k' where
    k': "updateChannel S p (ch_set p (c\<lparr>events := ?e\<rparr>) s) = Inr (asked p c ?e k' s)"
      "interest k' = (interest (kernel s))(ch_fd c := if ?e = 0 then None else Some (?e, p))"
      "opened k' = opened (kernel s)" by blast
  have "poller_inv interest (asked p c ?e k' s)"
    by (rule poller_inv_replace [OF inv c _ slot,
          where c' = "c\<lparr>events := ?e, index := new_index c ?e\<rparr>"])
       (auto simp: asked_def new_index_def k'(2) index_consts)
  with k' c show ?thesis by (auto simp: set_events_def ch_deref_Some)
qed

lemma removeChannel_ok:
  assumes laws: "epoll_laws S interest opened" and inv: "poller_inv interest s"
    and c: "channel_heap s p = Some c"
  shows "\<exists>s'. removeChannel S p s = Inr s' \<and> poller_inv interest s' \<and>
    channel_heap s' = (channel_heap s)(p \<mapsto> c\<lparr>index := kNew\<rparr>) \<and>
    channels s' = (if index c = kNew then channels s else (channels s)(ch_fd c := None)) \<and>
    interest (kernel s') = (if index c = kNew then interest (kernel s)
                            else (interest (kernel s))(ch_fd c := None)) \<and>
    opened (kernel s') = opened (kernel s) \<and>
    poller_only s s'"
proof -
  note ok = poller_invD(1) [OF inv c, unfolded chan_ok_def]
  note run = removeChannel_def ep_update_def setIndex_def ch_deref_def ch_set_def index_consts
  let ?s = "\<lambda>k. s\<lparr>channel_heap := (channel_heap s)(p \<mapsto> c\<lparr>index := kNew\<rparr>),
    channels := (channels s)(ch_fd c := None), kernel := k\<rparr>"
  have keep: "poller_inv interest (?s k)"
    if "index c \<noteq> kNew" "interest k = (interest (kernel s))(ch_fd c := None)" for k
    by (rule poller_inv_replace [OF inv c, where c' = "c\<lparr>index := kNew\<rparr>"])
       (use ok that in \<open>auto simp: index_consts\<close>)
  consider (new) "index c = kNew" | (paused) "index c = kDelete" | (added) "index c = kAdd"
    using ok by blast
  then show ?thesis
  proof cases
    case new
    then have "c\<lparr>index := kNew\<rparr> = c" by simp
    with new c inv show ?thesis
      by (intro exI [of _ s]) (simp add: run fun_upd_idem poller_only_def)
  next
    case paused
    then have "interest (kernel s) (ch_fd c) = None"
      using ok interest_channel [OF inv c] by (simp add: index_consts)
    then have none: "interest (kernel s) = (interest (kernel s))(ch_fd c := None)"
      by (simp add: fun_upd_idem)
    have "removeChannel S p s = Inr (?s (kernel s))"
      using paused c by (simp add: run)
    with keep [OF _ none] none paused show ?thesis
      by (intro exI [of _ "?s (kernel s)"]) (auto simp: index_consts poller_only_def)
  next
    case added
    then have "interest (kernel s) (ch_fd c) \<noteq> None"
      using ok interest_channel [OF inv c] by (simp add: index_consts)
    from epoll_del [OF laws this, of "(events c, p)"] obtain k where
      k: "epoll_ctl S (kernel s) EPOLL_CTL_DEL (ch_fd c) (events c, p) = (SOk (), k)"
      "interest k = (interest (kernel s))(ch_fd c := None)" "opened k = opened (kernel s)" by blast
    have "removeChannel S p s = Inr (?s k)" using added c k(1) by (simp add: run)
    with keep [OF _ k(2)] k added show ?thesis
      by (intro exI [of _ "?s k"]) (auto simp: index_consts poller_only_def)
  qed
qed

section \<open>Polling\<close>

text \<open>The invariant reads only a channel's descriptor, events and index.\<close>

definition ch_core :: "'cb channel \<Rightarrow> int \<times> event_mask \<times> int" where
  "ch_core c = (ch_fd c, events c, index c)"

lemma ch_core_update [simp]:
  "ch_core (c\<lparr>revent := r\<rparr>) = ch_core c" "ch_core (c\<lparr>tie_obj := t\<rparr>) = ch_core c"
  "ch_core (c\<lparr>tied := b\<rparr>) = ch_core c"
  by (simp_all add: ch_core_def)

lemma poller_inv_cong:
  assumes inv: "poller_inv interest s"
    and core: "\<And>p. map_option ch_core (channel_heap s' p) = map_option ch_core (channel_heap s p)"
    and chs: "channels s' = channels s" and kern: "interest (kernel s') = interest (kernel s)"
  shows "poller_inv interest s'"
proof -
  have backward: "\<exists>d. channel_heap s p = Some d \<and> ch_core d = ch_core c"
    if "channel_heap s' p = Some c" for p c
    using core [of p] that by (auto simp: map_option_case split: option.splits)
  have forth: "\<exists>c. channel_heap s' p = Some c \<and> ch_core c = ch_core d"
    if "channel_heap s p = Some d" for p d
    using core [of p] that by (auto simp: map_option_case split: option.splits)
  have "chan_ok s' p c" if c: "channel_heap s' p = Some c" for p c
  proof -
    from backward [OF c] obtain d where d: "channel_heap s p = Some d" "ch_core d = ch_core c" by blast
    with poller_invD(1) [OF inv d(1)] show ?thesis by (simp add: chan_ok_def chs ch_core_def)
  qed
  moreover have "\<exists>c. channel_heap s' p = Some c \<and> ch_fd c = fd" if m: "channels s' fd = Some p" for fd p
  proof -
    from poller_invD(2) [OF inv] m chs obtain d where d: "channel_heap s p = Some d" "ch_fd d = fd" by auto
    from forth [OF d(1)] d(2) show ?thesis by (auto simp: ch_core_def)
  qed
  moreover have "watched s' fd = watched s fd" for fd
  proof (cases "channels s fd")
    case None
    then show ?thesis by (simp add: watched_def chs)
  next
    case (Some p)
    from poller_invD(2) [OF inv Some] obtain d where d: "channel_heap s p = Some d" by blast
    from forth [OF d] d Some show ?thesis by (auto simp: watched_def chs ch_core_def)
  qed
  ultimately show ?thesis using poller_invD(3) [OF inv] kern by (simp add: poller_inv_def)
qed

lemma fillActiveChannels_ok:
  assumes "\<And>ev p. (ev, p) \<in> set evs \<Longrightarrow> channel_heap s p \<noteq> None" and "distinct (map snd evs)"
  shows "\<exists>s'. fillActiveChannels evs active s = Inr (active @ map snd evs, s') \<and>
    s' = s\<lparr>channel_heap := channel_heap s'\<rparr> \<and>
    (\<forall>p. channel_heap s' p = (case map_of (map prod.swap evs) p of
       None \<Rightarrow> channel_heap s p | Some ev \<Rightarrow> map_option (\<lambda>c. c\<lparr>revent := ev\<rparr>) (channel_heap s p)))"
  using assms
proof (induction evs arbitrary: active s)
  case Nil
  then show ?case by simp
next
  case (Cons x evs)
  obtain ev p where x: "x = (ev, p)" by fastforce
  from Cons.prems(1) x obtain c where c: "channel_heap s p = Some c" by fastforce
  let ?s = "ch_set p (c\<lparr>revent := ev\<rparr>) s"
  have "\<exists>s'. fillActiveChannels evs (active @ [p]) ?s = Inr ((active @ [p]) @ map snd evs, s') \<and>
    s' = ?s\<lparr>channel_heap := channel_heap s'\<rparr> \<and>
    (\<forall>q. channel_heap s' q = (case map_of (map prod.swap evs) q of
       None \<Rightarrow> channel_heap ?s q | Some ev \<Rightarrow> map_option (\<lambda>c. c\<lparr>revent := ev\<rparr>) (channel_heap ?s q)))"
    using Cons.prems x by (intro Cons.IH) auto
  then obtain s' where s': "fillActiveChannels evs (active @ [p]) ?s = Inr ((active @ [p]) @ map snd evs, s')"
    "s' = ?s\<lparr>channel_heap := channel_heap s'\<rparr>"
    "\<And>q. channel_heap s' q = (case map_of (map prod.swap evs) q of
       None \<Rightarrow> channel_heap ?s q | Some ev \<Rightarrow> map_option (\<lambda>c. c\<lparr>revent := ev\<rparr>) (channel_heap ?s q))" by blast
  have "p \<notin> snd ` set evs" using Cons.prems(2) x by simp
  then have none: "map_of (map prod.swap evs) p = None" by (force simp: map_of_eq_None_iff)
  have "fillActiveChannels (x # evs) active s = Inr (active @ map snd (x # evs), s')"
    using s'(1) c by (simp add: x ch_deref_Some)
  moreover have "s' = s\<lparr>channel_heap := channel_heap s'\<rparr>"
    using s'(2) by (simp add: ch_set_def)
  moreover have "channel_heap s' q = (case map_of (map prod.swap (x # evs)) q of
       None \<Rightarrow> channel_heap s q | Some ev \<Rightarrow> map_option (\<lambda>c. c\<lparr>revent := ev\<rparr>) (channel_heap s q))" for q
    using s'(3) [of q] none c by (auto simp: x split: option.splits)
  ultimately show ?case by blast
qed

text \<open>The data the kernel reports are distinct registered channels.\<close>

lemma reported_channels:
  assumes inv: "poller_inv interest s" and d: "distinct fds"
    and rep: "list_all2 (\<lambda>fd ev. \<exists>m. interest (kernel s) fd = Some (m, snd ev)) fds evs"
  shows "distinct (map snd evs) \<and> (\<forall>(ev, p) \<in> set evs. \<exists>c. channel_heap s p = Some c \<and> index c = kAdd)"
proof -
  have reg: "channels s fd = Some p \<and> (\<exists>c. channel_heap s p = Some c \<and> ch_fd c = fd \<and> index c = kAdd)"
    if "interest (kernel s) fd = Some (m, p)" for fd m p
    using that poller_invD(2) [OF inv, of fd] unfolding poller_invD(3) [OF inv, of fd]
    by (fastforce simp: watched_def split: option.splits if_splits)
  have nth: "\<exists>m. interest (kernel s) (fds ! i) = Some (m, snd (evs ! i))" if "i < length evs" for i
    using rep that by (simp add: list_all2_conv_all_nth)
  have len: "length fds = length evs" using rep by (rule list_all2_lengthD)
  have "distinct (map snd evs)"
  proof (rule distinct_conv_nth [THEN iffD2], intro allI impI)
    fix i j assume ij: "i < length (map snd evs)" "j < length (map snd evs)" "i \<noteq> j"
    with nth obtain m m' where m: "interest (kernel s) (fds ! i) = Some (m, snd (evs ! i))"
      "interest (kernel s) (fds ! j) = Some (m', snd (evs ! j))" by fastforce
    have "fds ! i \<noteq> fds ! j" using d ij len by (simp add: nth_eq_iff_index_eq)
    with reg [OF m(1)] reg [OF m(2)] show "map snd evs ! i \<noteq> map snd evs ! j" using ij by auto
  qed
  moreover have "\<exists>c. channel_heap s (snd e) = Some c \<and> index c = kAdd" if "e \<in> set evs" for e
    using that nth reg by (metis in_set_conv_nth)
  ultimately show ?thesis by fastforce
qed

lemma poll_ok:
  assumes laws: "epoll_laws S interest opened" and inv: "poller_inv interest s"
    and wait: "epoll_wait S (kernel s) kEpollEventListSize t = (r, k)"
  defines "evs \<equiv> (case r of SOk es \<Rightarrow> es | SErr _ \<Rightarrow> [])"
  shows "\<exists>st s'. poll S t active s = Inr (st, active @ map snd evs, s') \<and> poller_inv interest s' \<and>
    interest (kernel s') = interest (kernel s) \<and> opened (kernel s') = opened (kernel s) \<and>
    channels s' = channels s \<and> poller_only s s' \<and>
    length evs \<le> 16 \<and> distinct (map snd evs) \<and>
    (\<forall>(ev, p) \<in> set evs. \<exists>c. channel_heap s p = Some c \<and> index c = kAdd \<and>
       channel_heap s' p = Some (c\<lparr>revent := ev\<rparr>)) \<and>
    (\<forall>p. p \<notin> snd ` set evs \<longrightarrow> channel_heap s' p = channel_heap s p)"
proof -
  obtain st k2 where clk: "wall_clock S k = (st, k2)" by fastforce
  let ?s = "s\<lparr>kernel := k2\<rparr>"
  have kern: "interest k2 = interest (kernel s)" "opened k2 = opened (kernel s)"
    using epoll_wait_keeps [OF laws wait] clock_keeps [OF laws clk] by simp_all
  have rep: "length evs \<le> 16 \<and> distinct (map snd evs) \<and>
      (\<forall>(ev, p) \<in> set evs. \<exists>c. channel_heap s p = Some c \<and> index c = kAdd)"
  proof (cases r)
    case (SOk es)
    from epoll_wait_reports [OF laws wait [unfolded SOk]] obtain fds where
      "length es \<le> 16" "distinct fds"
      "list_all2 (\<lambda>fd ev. \<exists>m. interest (kernel s) fd = Some (m, snd ev)) fds es"
      by (auto simp: kEpollEventListSize_def)
    with reported_channels [OF inv this(2,3)] SOk show ?thesis by (simp add: evs_def)
  qed (simp add: evs_def)
  with fillActiveChannels_ok [of evs ?s active] obtain s' where
    s': "fillActiveChannels evs active ?s = Inr (active @ map snd evs, s')"
      "s' = ?s\<lparr>channel_heap := channel_heap s'\<rparr>"
      "\<And>p. channel_heap s' p = (case map_of (map prod.swap evs) p of
         None \<Rightarrow> channel_heap ?s p | Some ev \<Rightarrow> map_option (\<lambda>c. c\<lparr>revent := ev\<rparr>) (channel_heap ?s p))"
    by fastforce
  have sel: "channels s' = channels s" "kernel s' = k2" by (subst s'(2), simp)+
  have run: "poll S t active s = Inr (st, active @ map snd evs, s')"
  proof (cases r)
    case (SErr e)
    then have "s' = ?s" using s'(1) by (simp add: evs_def)
    with SErr show ?thesis by (simp add: poll_def wait clk evs_def)
  next
    case (SOk es)
    then show ?thesis using s'(1) by (simp add: poll_def wait clk evs_def)
  qed
  have "poller_inv interest s'"
    by (rule poller_inv_cong [OF inv])
       (simp_all add: sel kern s'(3) option.map_comp comp_def split: option.split)
  moreover have "poller_only s s'" unfolding poller_only_def by (subst s'(2)) (cases s, simp add: sel)
  moreover have "channel_heap s' p = Some (c\<lparr>revent := ev\<rparr>)"
    if "(ev, p) \<in> set evs" "channel_heap s p = Some c" for ev p c
  proof -
    have "map_of (map prod.swap evs) p = Some ev"
      using rep that(1) by (intro map_of_is_SomeI) (force simp: comp_def)+
    with that(2) show ?thesis by (simp add: s'(3))
  qed
  moreover have "channel_heap s' p = channel_heap s p" if "p \<notin> snd ` set evs" for p
  proof -
    have "map_of (map prod.swap evs) p = None" using that by (force simp: map_of_eq_None_iff)
    then show ?thesis by (simp add: s'(3))
  qed
  ultimately show ?thesis using run rep kern sel by fastforce
qed

section \<open>Dispatch\<close>

text \<open>The callbacks a channel runs for what was reported, in order.\<close>

definition due_calls :: "Timestamp \<Rightarrow> 'cb channel \<Rightarrow> 'cb call list" where
  "due_calls t c =
     (if wants_close c then map Call (case close_callback c of None \<Rightarrow> [] | Some cb \<Rightarrow> [cb]) else []) @
     (if wants_read c then map (\<lambda>cb. CallRead cb t) (case read_callback c of None \<Rightarrow> [] | Some cb \<Rightarrow> [cb]) else []) @
     (if wants_write c then map Call (case write_callback c of None \<Rightarrow> [] | Some cb \<Rightarrow> [cb]) else []) @
     (if wants_error c then map Call (case error_callback c of None \<Rightarrow> [] | Some cb \<Rightarrow> [cb]) else [])"

definition ch_dispatch :: "'cb channel \<Rightarrow>
    event_mask \<times> 'cb option \<times> 'cb option \<times> 'cb option \<times> 'cb option" where
  "ch_dispatch c = (revent c, read_callback c, write_callback c, close_callback c, error_callback c)"

text \<open>The callbacks leave the channel allocated, with its reported events and its callbacks.\<close>

definition keeps_dispatch :: "('cb, 'k, 'z) invoke \<Rightarrow> ptr \<Rightarrow> bool" where
  "keeps_dispatch invoke p \<longleftrightarrow> (\<forall>cl s s'. invoke cl s = Inr s' \<longrightarrow>
     map_option ch_dispatch (channel_heap s' p) = map_option ch_dispatch (channel_heap s p))"

lemma run_slot_eq:
  assumes "channel_heap s p = Some c"
  shows "run_slot invoke cond slot p s =
    fold_r invoke (if cond c then (case slot c of None \<Rightarrow> [] | Some cl \<Rightarrow> [cl]) else []) s"
  using assms by (simp add: run_slot_def ch_deref_Some split: option.split)

lemma fold_keeps_dispatch:
  assumes "keeps_dispatch invoke p" and "fold_r invoke cls s = Inr s'"
    and "map_option ch_dispatch (channel_heap s p) = Some d"
  shows "map_option ch_dispatch (channel_heap s' p) = Some d"
  by (rule fold_r_preserves [OF assms(2), where P = "\<lambda>s. map_option ch_dispatch (channel_heap s p) = Some d"])
     (use assms(1,3) in \<open>auto simp: keeps_dispatch_def\<close>)

lemma run_slot_dispatch:
  assumes "keeps_dispatch invoke p" and "map_option ch_dispatch (channel_heap s p) = Some (ch_dispatch c)"
    and "\<And>d. ch_dispatch d = ch_dispatch c \<Longrightarrow> cond d = cond c \<and> slot d = slot c"
  shows "run_slot invoke cond slot p s =
    fold_r invoke (if cond c then (case slot c of None \<Rightarrow> [] | Some cl \<Rightarrow> [cl]) else []) s"
proof -
  from assms(2) obtain d where d: "channel_heap s p = Some d" "ch_dispatch d = ch_dispatch c" by auto
  with run_slot_eq [OF d(1)] assms(3) [OF d(2)] show ?thesis by simp
qed

lemma and_then_fold_r:
  assumes "\<And>s'. fold_r f xs s = Inr s' \<Longrightarrow> g s' = fold_r f ys s'"
  shows "and_then (fold_r f xs s) g = fold_r f (xs @ ys) s"
  using assms by (cases "fold_r f xs s") (simp_all add: fold_r_append)

lemma handleEventWithGuard_eq:
  assumes keep: "keeps_dispatch invoke p" and c: "channel_heap s p = Some c"
  shows "handleEventWithGuard invoke t p s = fold_r invoke (due_calls t c) s"
proof -
  note slot = run_slot_dispatch [OF keep, where c = c]
  note cong = ch_dispatch_def wants_close_def wants_read_def wants_write_def wants_error_def
  let ?C = "if wants_close c then map Call (case close_callback c of None \<Rightarrow> [] | Some cb \<Rightarrow> [cb]) else []"
  let ?R = "if wants_read c then map (\<lambda>cb. CallRead cb t) (case read_callback c of None \<Rightarrow> [] | Some cb \<Rightarrow> [cb]) else []"
  let ?W = "if wants_write c then map Call (case write_callback c of None \<Rightarrow> [] | Some cb \<Rightarrow> [cb]) else []"
  let ?E = "if wants_error c then map Call (case error_callback c of None \<Rightarrow> [] | Some cb \<Rightarrow> [cb]) else []"
  let ?same = "\<lambda>s. map_option ch_dispatch (channel_heap s p) = Some (ch_dispatch c)"
  have close: "run_slot invoke wants_close (\<lambda>c. map_option Call (close_callback c)) p s = fold_r invoke ?C s"
    using run_slot_eq [OF c] by (auto split: option.split)
  have read: "run_slot invoke wants_read (\<lambda>c. map_option (\<lambda>cb. CallRead cb t) (read_callback c)) p s =
      fold_r invoke ?R s" if "?same s" for s
    by (subst slot [OF that]) (auto simp: cong split: option.split)
  have wrt: "run_slot invoke wants_write (\<lambda>c. map_option Call (write_callback c)) p s =
      fold_r invoke ?W s" if "?same s" for s
    by (subst slot [OF that]) (auto simp: cong split: option.split)
  have error: "run_slot invoke wants_error (\<lambda>c. map_option Call (error_callback c)) p s =
      fold_r invoke ?E s" if "?same s" for s
    by (subst slot [OF that]) (auto simp: cong split: option.split)
  have same: "?same s'" if "fold_r invoke cls s = Inr s'" "?same s" for cls s s'
    by (rule fold_keeps_dispatch [OF keep that])
  let ?err = "run_slot invoke wants_error (\<lambda>c. map_option Call (error_callback c)) p"
  let ?wr = "run_slot invoke wants_write (\<lambda>c. map_option Call (write_callback c)) p"
  have we: "and_then (?wr s) ?err = fold_r invoke (?W @ ?E) s" if "?same s" for s
    unfolding wrt [OF that] by (rule and_then_fold_r) (rule error, erule same, rule that)
  have rwe: "and_then (fold_r invoke ?R s) (\<lambda>s2. and_then (?wr s2) ?err) = fold_r invoke (?R @ ?W @ ?E) s"
    if "?same s" for s
    by (rule and_then_fold_r) (rule we, erule same, rule that)
  have "?same s" using c by simp
  then have "handleEventWithGuard invoke t p s = fold_r invoke (?C @ ?R @ ?W @ ?E) s"
    unfolding handleEventWithGuard_def close
    by (intro and_then_fold_r) (simp only: read [OF same] rwe [OF same])
  then show ?thesis by (simp add: due_calls_def)
qed

section \<open>All reachable states of a poller\<close>

text \<open>
  What can happen to a poller: channels are created, tied, given callbacks, change their
  interest, are removed and, once removed, destroyed; the poller polls; the rest of the process
  moves the kernel's state on without touching this epoll instance.  A channel registers a
  descriptor only while no other channel holds it.
\<close>

inductive poller_step :: "('k, 'y) epoll_sys_scheme \<Rightarrow> ('k \<Rightarrow> int \<rightharpoonup> epoll_event) \<Rightarrow> ('k \<Rightarrow> int set) \<Rightarrow>
    ('cb, 'k, 'z) poller_scheme \<Rightarrow> error + ('cb, 'k, 'z) poller_scheme \<Rightarrow> bool"
  for S interest opened where
  create: "channel_heap s p = None \<Longrightarrow> poller_step S interest opened s (Inr (ch_set p (Channel_new l fd) s))"
| change: "channel_heap s p = Some c \<Longrightarrow> ch_fd c \<in> opened (kernel s) \<Longrightarrow>
     channels s (ch_fd c) \<in> {None, Some p} \<Longrightarrow>
     op \<in> {enableReading, disableReading, enableWriting, disableWriting, disableAll} \<Longrightarrow>
     poller_step S interest opened s (op S p s)"
| remove: "channel_heap s p = Some c \<Longrightarrow> poller_step S interest opened s (removeChannel S p s)"
| destroy: "channel_heap s p = Some c \<Longrightarrow> index c = kNew \<Longrightarrow>
     poller_step S interest opened s (Inr (s\<lparr>channel_heap := (channel_heap s)(p := None)\<rparr>))"
| set_up: "channel_heap s p = Some c \<Longrightarrow> ch_core c' = ch_core c \<Longrightarrow>
     poller_step S interest opened s (Inr (ch_set p c' s))"
| poll: "poller_step S interest opened s (and_then (poll S t [] s) (\<lambda>(st, active, s'). Inr s'))"
| others: "interest k = interest (kernel s) \<Longrightarrow> poller_step S interest opened s (Inr (s\<lparr>kernel := k\<rparr>))"

inductive poller_reachable :: "('k, 'y) epoll_sys_scheme \<Rightarrow> ('k \<Rightarrow> int \<rightharpoonup> epoll_event) \<Rightarrow> ('k \<Rightarrow> int set) \<Rightarrow>
    error + ('cb, 'k, 'z) poller_scheme \<Rightarrow> bool"
  for S interest opened where
  start: "channels s = Map.empty \<Longrightarrow> channel_heap s = Map.empty \<Longrightarrow> interest (kernel s) = Map.empty \<Longrightarrow>
     poller_reachable S interest opened (Inr s)"
| step: "poller_reachable S interest opened (Inr s) \<Longrightarrow> poller_step S interest opened s r \<Longrightarrow>
     poller_reachable S interest opened r"

text \<open>A channel that is not registered can come and go.\<close>

lemma poller_inv_new_channel:
  assumes inv: "poller_inv interest s" and new: "channel_heap s p = None"
  shows "poller_inv interest (ch_set p (Channel_new l fd) s)"
proof -
  have unused: "channels s f \<noteq> Some p" for f using poller_invD(2) [OF inv, of f p] new by auto
  then have "watched (ch_set p (Channel_new l fd) s) f = watched s f" for f
    by (auto simp: watched_def split: option.splits)
  moreover have "chan_ok s q c" if "channel_heap (ch_set p (Channel_new l fd) s) q = Some c" for q c
    using that poller_invD(1) [OF inv, of q c] unused
    by (auto simp: chan_ok_def Channel_new_def index_consts split: if_splits)
  moreover have "\<exists>c. channel_heap (ch_set p (Channel_new l fd) s) q = Some c \<and> ch_fd c = f"
    if "channels s f = Some q" for f q
    using that poller_invD(2) [OF inv, of f q] unused by auto
  ultimately show ?thesis using poller_invD(3) [OF inv] by (simp add: poller_inv_def chan_ok_frame)
qed

lemma poller_inv_drop_channel:
  assumes inv: "poller_inv interest s" and c: "channel_heap s p = Some c" "index c = kNew"
  shows "poller_inv interest (s\<lparr>channel_heap := (channel_heap s)(p := None)\<rparr>)"
proof -
  let ?s = "s\<lparr>channel_heap := (channel_heap s)(p := None)\<rparr>"
  have unused: "channels s f \<noteq> Some p" for f
    using poller_invD(1) [OF inv c(1)] poller_invD(2) [OF inv, of f p] c by (auto simp: chan_ok_def)
  then have "watched ?s f = watched s f" for f
    by (auto simp: watched_def split: option.splits)
  moreover have "\<exists>c. channel_heap ?s q = Some c \<and> ch_fd c = f" if "channels s f = Some q" for f q
    using that poller_invD(2) [OF inv, of f q] unused by auto
  ultimately show ?thesis
    using poller_invD(1,3) [OF inv] by (auto simp: poller_inv_def chan_ok_frame split: if_splits)
qed

lemma poller_step_inv:
  assumes "poller_step S interest opened s r" and laws: "epoll_laws S interest opened"
    and inv: "poller_inv interest s"
  shows "\<exists>s'. r = Inr s' \<and> poller_inv interest s'"
  using assms(1)
proof cases
  case (create p l fd)
  then show ?thesis using poller_inv_new_channel [OF inv] by simp
next
  case (change p c op)
  then have slot: "channels s (ch_fd c) = None \<or> channels s (ch_fd c) = Some p" by auto
  from change obtain f where "r = set_events S p f s"
    by (auto simp: enableReading_def disableReading_def enableWriting_def disableWriting_def disableAll_def)
  with set_events_ok [OF laws inv change(2,3) slot, of f] show ?thesis by auto
next
  case (remove p c)
  with removeChannel_ok [OF laws inv] show ?thesis by blast
next
  case (destroy p c)
  with poller_inv_drop_channel [OF inv] show ?thesis by blast
next
  case (set_up p c c')
  then have "poller_inv interest (ch_set p c' s)" by (intro poller_inv_cong [OF inv]) auto
  with set_up show ?thesis by simp
next
  case (poll t)
  obtain w k where "epoll_wait S (kernel s) kEpollEventListSize t = (w, k)" by fastforce
  from poll_ok [OF laws inv this, of "[]"] poll show ?thesis by auto
next
  case (others k)
  then have "poller_inv interest (s\<lparr>kernel := k\<rparr>)" by (intro poller_inv_cong [OF inv]) auto
  with others show ?thesis by simp
qed

lemma poller_reachable_inv:
  assumes "poller_reachable S interest opened r" and "epoll_laws S interest opened"
  shows "\<exists>s. r = Inr s \<and> poller_inv interest s"
  using assms(1)
proof (induction rule: poller_reachable.induct)
  case (start s)
  then show ?case by (auto simp: poller_inv_def watched_def)
next
  case (step s r)
  with poller_step_inv [OF step.hyps(2) assms(2)] show ?case by blast
qed

section \<open>Properties\<close>

text \<open>An epoll instance with an interest list and every watched descriptor readable.\<close>

definition sample_epoll :: "(int \<times> epoll_event) list epoll_sys" where
  "sample_epoll = \<lparr>
     epoll_ctl = (\<lambda>k operation fd ev. case operation of
         EPOLL_CTL_ADD \<Rightarrow> if map_of k fd = None then (SOk (), (fd, ev) # k) else (SErr 17, k)
       | EPOLL_CTL_MOD \<Rightarrow> if map_of k fd = None then (SErr 2, k) else (SOk (), (fd, ev) # k)
       | EPOLL_CTL_DEL \<Rightarrow> if map_of k fd = None then (SErr 2, k)
                         else (SOk (), filter (\<lambda>x. fst x \<noteq> fd) k)),
     epoll_wait = (\<lambda>k n t. (SOk (map (\<lambda>fd. (EPOLLIN, snd (the (map_of k fd)))) (take n (remdups (map fst k)))), k)),
     wall_clock = (\<lambda>k. (Timestamp 1, k))\<rparr>"

lemma map_of_filter_ne: "map_of (filter (\<lambda>x. fst x \<noteq> a) xs) = (map_of xs)(a := None)"
  by (induction xs) (auto simp: fun_eq_iff)

lemma sample_reports:
  "\<exists>fds. distinct fds \<and> list_all2 (\<lambda>fd ev. \<exists>m. map_of k fd = Some (m, snd ev)) fds
      (map (\<lambda>fd. (EPOLLIN, snd (the (map_of k fd)))) (take n (remdups (map fst k))))"
  for k :: "(int \<times> epoll_event) list"
proof -
  have hit: "\<exists>m. map_of k fd = Some (m, snd (the (map_of k fd)))"
    if "fd \<in> fst ` set k" for k :: "(int \<times> epoll_event) list" and fd
    using that by (cases "map_of k fd") (force simp: map_of_eq_None_iff)+
  have "list_all2 (\<lambda>fd ev. \<exists>m. map_of k fd = Some (m, snd ev)) fds
      (map (\<lambda>fd. (EPOLLIN, snd (the (map_of k fd)))) fds)"
    if "set fds \<subseteq> fst ` set k" for k :: "(int \<times> epoll_event) list" and fds
    using that hit [of _ k] by (induction fds) auto
  moreover have "set (take n (remdups (map fst k))) \<subseteq> fst ` set k" for n and k :: "(int \<times> epoll_event) list"
    using set_take_subset by fastforce
  ultimately show ?thesis
    by (intro exI [of _ "take n (remdups (map fst k))"]) simp
qed

lemma sample_epoll_laws: "epoll_laws sample_epoll map_of (\<lambda>_. {0..})"
  using sample_reports by (simp add: epoll_laws_def sample_epoll_def map_of_filter_ne)

text \<open>
  C7: in every reachable state of the poller no operation has failed, and the three views agree:
  the kernel watches a descriptor exactly when a registered channel of that descriptor asks for
  some event, for exactly the events it asks for; \<open>hasChannel\<close> is true exactly of the
  registered channels.
\<close>

theorem poller_in_sync:
  assumes "poller_reachable S interest opened r" and "epoll_laws S interest opened"
  shows "\<exists>s. r = Inr s \<and>
    (\<forall>fd e p. interest (kernel s) fd = Some (e, p) \<longleftrightarrow>
       (\<exists>c. channel_heap s p = Some c \<and> ch_fd c = fd \<and> index c \<noteq> kNew \<and> events c = e \<and> e \<noteq> 0)) \<and>
    (\<forall>p c. channel_heap s p = Some c \<longrightarrow> hasChannel p s = Inr (index c \<noteq> kNew))"
proof -
  from poller_reachable_inv [OF assms] obtain s where r: "r = Inr s" and inv: "poller_inv interest s" by blast
  have "interest (kernel s) fd = Some (e, p) \<longleftrightarrow>
      (\<exists>c. channel_heap s p = Some c \<and> ch_fd c = fd \<and> index c \<noteq> kNew \<and> events c = e \<and> e \<noteq> 0)" for fd e p
  proof
    assume l: "interest (kernel s) fd = Some (e, p)"
    then have w: "watched s fd = Some (e, p)" using poller_invD(3) [OF inv, of fd] by simp
    then have ch: "channels s fd = Some p" by (auto simp: watched_def split: option.splits if_splits)
    from poller_invD(2) [OF inv ch] obtain c where c: "channel_heap s p = Some c" "ch_fd c = fd" by blast
    with poller_invD(1) [OF inv c(1)] w ch show "\<exists>c. channel_heap s p = Some c \<and> ch_fd c = fd \<and>
        index c \<noteq> kNew \<and> events c = e \<and> e \<noteq> 0"
      by (auto simp: watched_def chan_ok_def index_consts split: if_splits)
  next
    assume "\<exists>c. channel_heap s p = Some c \<and> ch_fd c = fd \<and> index c \<noteq> kNew \<and> events c = e \<and> e \<noteq> 0"
    with interest_channel [OF inv] show "interest (kernel s) fd = Some (e, p)" by auto
  qed
  moreover have "hasChannel p s = Inr (index c \<noteq> kNew)" if "channel_heap s p = Some c" for p c
    using poller_invD(1) [OF inv that] that by (simp add: hasChannel_def ch_deref_Some chan_ok_def)
  ultimately show ?thesis using r by blast
qed

text \<open>A poller with one channel of descriptor 3 at address 1, not registered yet.\<close>

definition sample_poller :: "(nat, (int \<times> epoll_event) list) poller" where
  "sample_poller = \<lparr>channels = Map.empty, channel_heap = [1 \<mapsto> (Channel_new 9 3)\<lparr>read_callback := Some 5\<rparr>], kernel = []\<rparr>"

lemma sample_poller_inv: "poller_inv map_of sample_poller"
  by (auto simp: poller_inv_def sample_poller_def chan_ok_def watched_def Channel_new_def index_consts)

text \<open>Two channels for descriptor 3, the one at address 2 registered.\<close>

definition clash_poller :: "(nat, (int \<times> epoll_event) list) poller" where
  "clash_poller = \<lparr>channels = [3 \<mapsto> 2],
     channel_heap = [1 \<mapsto> Channel_new 9 3, 2 \<mapsto> (Channel_new 9 3)\<lparr>events := 3, index := kAdd\<rparr>],
     kernel = [(3, (3, 2))]\<rparr>"

lemma clash_poller_inv: "poller_inv map_of clash_poller"
  by (auto simp: poller_inv_def clash_poller_def chan_ok_def watched_def Channel_new_def index_consts)

theorem poller_in_sync_witness:
  "\<exists>s. (Inr (ch_set 1 (Channel_new 9 3) \<lparr>channels = Map.empty, channel_heap = Map.empty, kernel = []\<rparr>) :: error + _) =
      Inr (s :: (nat, (int \<times> epoll_event) list) poller) \<and>
    (\<forall>fd e p. map_of (kernel s) fd = Some (e, p) \<longleftrightarrow>
       (\<exists>c. channel_heap s p = Some c \<and> ch_fd c = fd \<and> index c \<noteq> kNew \<and> events c = e \<and> e \<noteq> 0)) \<and>
    (\<forall>p c. channel_heap s p = Some c \<longrightarrow> hasChannel p s = Inr (index c \<noteq> kNew))"
  by (rule poller_in_sync [OF _ sample_epoll_laws])
     (auto intro!: poller_reachable.step [OF poller_reachable.start] poller_step.create)

lemma disj_four: "(e OR 4) AND 4 = 4" for e :: event_mask
  by (simp add: bit_eq_iff bit_simps)

text \<open>
  Enabling and disabling write interest on a channel that may use its descriptor always
  succeeds, changes the kernel's interest in that descriptor only, and changes the write
  bit of the mask only: reading stays as it was.
\<close>

lemma write_interest_exact:
  assumes "epoll_laws S interest opened" and "poller_inv interest s" and "channel_heap s p = Some c"
    and "ch_fd c \<in> opened (kernel s)" and "channels s (ch_fd c) = None \<or> channels s (ch_fd c) = Some p"
  shows "(\<exists>s' c'. enableWriting S p s = Inr s' \<and> poller_inv interest s' \<and>
       channel_heap s' = (channel_heap s)(p \<mapsto> c') \<and> isWriting c' \<and> isReading c' = isReading c \<and>
       interest (kernel s') = (interest (kernel s))(ch_fd c \<mapsto> (events c OR EPOLLOUT, p))) \<and>
    (\<exists>s' c'. disableWriting S p s = Inr s' \<and> poller_inv interest s' \<and>
       channel_heap s' = (channel_heap s)(p \<mapsto> c') \<and> \<not> isWriting c' \<and> isReading c' = isReading c \<and>
       interest (kernel s') = (interest (kernel s))(ch_fd c :=
         if events c AND NOT EPOLLOUT = 0 then None else Some (events c AND NOT EPOLLOUT, p)))"
proof -
  note masks = kReadEvent_def kWriteEvent_def EPOLLIN_def EPOLLPRI_def EPOLLOUT_def
  have on: "events c OR EPOLLOUT \<noteq> 0" "(events c OR EPOLLOUT) AND kWriteEvent \<noteq> 0"
    "(events c OR EPOLLOUT) AND kReadEvent = events c AND kReadEvent"
    using disj_four by (auto simp: masks bit.conj_disj_distrib2 or_eq_0_iff)
  have off: "(events c AND NOT EPOLLOUT) AND kWriteEvent = 0"
    "(events c AND NOT EPOLLOUT) AND kReadEvent = events c AND kReadEvent"
    by (simp_all add: masks and.assoc)
  from set_events_ok [OF assms, of "\<lambda>e. e OR kWriteEvent"] set_events_ok [OF assms, of "\<lambda>e. e AND NOT kWriteEvent"]
  show ?thesis
    using on off unfolding enableWriting_def disableWriting_def isWriting_def isReading_def
    by (fastforce simp: asked_def kWriteEvent_def)
qed

text \<open>
  C28: one \<open>poll\<close> never touches a channel that does not exist, appends to the active list
  exactly the channels the kernel reported, in its order, at most sixteen and none twice,
  leaves in each the events reported for it and changes no other channel.
\<close>

theorem poll_reports:
  assumes "epoll_laws S interest opened" and "poller_inv interest s"
    and "epoll_wait S (kernel s) kEpollEventListSize t = (SOk evs, k)"
  shows "\<exists>st s'. poll S t active s = Inr (st, active @ map snd evs, s') \<and> poller_inv interest s' \<and>
    length evs \<le> 16 \<and> distinct (map snd evs) \<and>
    (\<forall>(ev, p) \<in> set evs. \<exists>c. channel_heap s p = Some c \<and> channel_heap s' p = Some (c\<lparr>revent := ev\<rparr>)) \<and>
    (\<forall>p. p \<notin> snd ` set evs \<longrightarrow> channel_heap s' p = channel_heap s p)"
  using poll_ok [OF assms, of active] by fastforce

theorem poll_reports_witness:
  "\<exists>st s'. poll sample_epoll 10000 [] clash_poller = Inr (st, [2], s') \<and> poller_inv map_of s' \<and>
    (\<exists>c. channel_heap s' 2 = Some c \<and> revent c = EPOLLIN) \<and> channel_heap s' 1 = channel_heap clash_poller 1"
  using poll_reports [OF sample_epoll_laws clash_poller_inv, of 10000 "[(EPOLLIN, 2)]" "[(3, (3, 2))]" "[]"]
  by (fastforce simp: sample_epoll_def clash_poller_def kEpollEventListSize_def)

text \<open>
  C27: \<open>handleEvent\<close> runs the callbacks that the reported events call for and that are set, in
  the order close, read, write, error; close only for a hang-up without readable data.  A
  tied channel whose owner is gone runs none.
\<close>

theorem dispatch_order:
  assumes "keeps_dispatch invoke p" and "channel_heap s p = Some c"
  shows "handleEvent invoke alive t p s =
    (if tied c \<and> \<not> alive (tie_obj c) s then Inr s
     else fold_r invoke
       ((if revent c AND EPOLLHUP \<noteq> 0 \<and> revent c AND EPOLLIN = 0
         then map Call (case close_callback c of None \<Rightarrow> [] | Some cb \<Rightarrow> [cb]) else []) @
        (if revent c AND (EPOLLIN OR EPOLLPRI) \<noteq> 0
         then map (\<lambda>cb. CallRead cb t) (case read_callback c of None \<Rightarrow> [] | Some cb \<Rightarrow> [cb]) else []) @
        (if revent c AND EPOLLOUT \<noteq> 0
         then map Call (case write_callback c of None \<Rightarrow> [] | Some cb \<Rightarrow> [cb]) else []) @
        (if revent c AND EPOLLERR \<noteq> 0
         then map Call (case error_callback c of None \<Rightarrow> [] | Some cb \<Rightarrow> [cb]) else [])) s)"
  using handleEventWithGuard_eq [OF assms, of t] assms(2)
  by (simp add: handleEvent_def ch_deref_Some due_calls_def wants_close_def wants_read_def
      wants_write_def wants_error_def)

text \<open>Callbacks that only note in the kernel state that they ran.\<close>

definition log_call :: "nat call \<Rightarrow> (nat, nat call list) poller \<Rightarrow> error + (nat, nat call list) poller" where
  "log_call cl s = Inr (s\<lparr>kernel := kernel s @ [cl]\<rparr>)"

definition busy_channel :: "nat channel" where
  "busy_channel = (Channel_new 9 3)\<lparr>revent := EPOLLIN OR EPOLLERR OR EPOLLHUP, read_callback := Some 1,
     write_callback := Some 2, close_callback := Some 3, error_callback := Some 4\<rparr>"

theorem dispatch_order_witness:
  "handleEvent log_call (\<lambda>_ _. True) (Timestamp 6) 1
      \<lparr>channels = [3 \<mapsto> 1], channel_heap = [1 \<mapsto> busy_channel], kernel = []\<rparr> =
    Inr \<lparr>channels = [3 \<mapsto> 1], channel_heap = [1 \<mapsto> busy_channel],
         kernel = [CallRead 1 (Timestamp 6), Call 4]\<rparr>"
proof -
  have "keeps_dispatch log_call 1" by (simp add: keeps_dispatch_def log_call_def)
  from dispatch_order [OF this, of "\<lparr>channels = [3 \<mapsto> 1], channel_heap = [1 \<mapsto> busy_channel], kernel = []\<rparr>"
      busy_channel "\<lambda>_ _. True" "Timestamp 6"] show ?thesis
    by (simp add: busy_channel_def Channel_new_def log_call_def
        EPOLLIN_def EPOLLPRI_def EPOLLOUT_def EPOLLERR_def EPOLLHUP_def)
qed

text \<open>
  Registering a second channel for a descriptor the poller already watches ends the
  process: the kernel refuses the addition and the failure is fatal.
\<close>

lemma duplicate_fd_fatal:
  assumes "epoll_laws S interest opened" and "poller_inv interest s"
    and "channel_heap s p = Some c" and "index c = kNew"
    and "interest (kernel s) (ch_fd c) \<noteq> None"
  shows "enableReading S p s = Inl FatalExit"
proof -
  have some: "events c OR kReadEvent \<noteq> 0"
    by (simp add: kReadEvent_def EPOLLIN_def EPOLLPRI_def or_eq_0_iff)
  obtain err k where "epoll_ctl S (kernel s) EPOLL_CTL_ADD (ch_fd c) (events c OR kReadEvent, p) = (SErr err, k)"
    using epoll_add_listed [OF assms(1,5)] by blast
  with assms(3,4) some show ?thesis
    by (simp add: enableReading_def set_events_def updateChannel_def ep_update_def ch_deref_Some
        isNoneEvent_def kNoneEvent_def Let_def)
qed

end
