(* ===== verification/Event_Loop.thy ===== *)
theory Event_Loop
  imports Channel_Poller Timer_Queue
begin

text \<open>
  \<open>EventLoop\<close> (include/EventLoop.h, src/EventLoop.cc): the poller's state together with the
  queue of functors, the wake-up eventfd and the flags of the loop.  What a functor and a
  channel callback do are parameters; so are the system calls.  The calling thread is an
  argument where the code asks \<open>isInLoopThread\<close>.  The second half models the steps of the
  loop's thread interleaved with the other threads, at the granularity of the accesses to
  the shared flags, the mutex and the eventfd.
\<close>

section \<open>State\<close>

record ('cb, 'k, 'f) event_loop = "('cb, 'k) poller" +
  looping :: bool
  quit_flag :: bool
  thread_id :: int
  pollReturnTime :: Timestamp
  wakeup_fd :: int
  wakeup_channel :: ptr
  active_channels :: "ptr list"
  pendingFunctors :: "'f list"
  calling_pending_functors :: bool

text \<open>An eventfd operation transfers eight bytes: the counter, respectively the number 1.\<close>

record 'k loop_sys = "'k epoll_sys" +
  eventfd_read :: "'k \<Rightarrow> int \<Rightarrow> nat sysret \<times> 'k"
  eventfd_write :: "'k \<Rightarrow> int \<Rightarrow> nat sysret \<times> 'k"
  epoll_create :: "'k \<Rightarrow> int sysret \<times> 'k"
  timerfd_create :: "'k \<Rightarrow> int sysret \<times> 'k"
  eventfd_create :: "'k \<Rightarrow> int sysret \<times> 'k"
  close_fd :: "'k \<Rightarrow> int \<Rightarrow> 'k"

definition kPollTimeMs :: int where
  "kPollTimeMs = 10000"

definition isInLoopThread :: "int \<Rightarrow> ('cb, 'k, 'f, 'z) event_loop_scheme \<Rightarrow> bool" where
  "isInLoopThread tid s \<longleftrightarrow> thread_id s = tid"

section \<open>Wake-up and the functor queue\<close>

text \<open>A short read or write of the eventfd is logged and otherwise ignored.\<close>

definition loop_handleRead :: "('k, 'y) loop_sys_scheme \<Rightarrow> ('cb, 'k, 'f, 'z) event_loop_scheme \<Rightarrow>
    ('cb, 'k, 'f, 'z) event_loop_scheme" where
  "loop_handleRead S s = s\<lparr>kernel := snd (eventfd_read S (kernel s) (wakeup_fd s))\<rparr>"

definition wakeUp :: "('k, 'y) loop_sys_scheme \<Rightarrow> ('cb, 'k, 'f, 'z) event_loop_scheme \<Rightarrow>
    ('cb, 'k, 'f, 'z) event_loop_scheme" where
  "wakeUp S s = s\<lparr>kernel := snd (eventfd_write S (kernel s) (wakeup_fd s))\<rparr>"

definition push_functor :: "'f \<Rightarrow> ('cb, 'k, 'f, 'z) event_loop_scheme \<Rightarrow> ('cb, 'k, 'f, 'z) event_loop_scheme" where
  "push_functor cb s = s\<lparr>pendingFunctors := pendingFunctors s @ [cb]\<rparr>"

definition queueInLoop :: "('k, 'y) loop_sys_scheme \<Rightarrow> int \<Rightarrow> 'f \<Rightarrow> ('cb, 'k, 'f, 'z) event_loop_scheme \<Rightarrow>
    ('cb, 'k, 'f, 'z) event_loop_scheme" where
  "queueInLoop S tid cb s =
     (let s1 = push_functor cb s
      in if \<not> isInLoopThread tid s1 \<or> calling_pending_functors s1 then wakeUp S s1 else s1)"

type_synonym ('cb, 'k, 'f, 'z) exec =
  "'f \<Rightarrow> ('cb, 'k, 'f, 'z) event_loop_scheme \<Rightarrow> error + ('cb, 'k, 'f, 'z) event_loop_scheme"

definition runInLoop :: "('k, 'y) loop_sys_scheme \<Rightarrow> ('cb, 'k, 'f, 'z) exec \<Rightarrow> int \<Rightarrow> 'f \<Rightarrow>
    ('cb, 'k, 'f, 'z) event_loop_scheme \<Rightarrow> error + ('cb, 'k, 'f, 'z) event_loop_scheme" where
  "runInLoop S exec tid cb s =
     (if isInLoopThread tid s then exec cb s else Inr (queueInLoop S tid cb s))"

definition doingPendingFunctors :: "('cb, 'k, 'f, 'z) exec \<Rightarrow> ('cb, 'k, 'f, 'z) event_loop_scheme \<Rightarrow>
    error + ('cb, 'k, 'f, 'z) event_loop_scheme" where
  "doingPendingFunctors exec s =
     (let s1 = s\<lparr>calling_pending_functors := True\<rparr>;
          tasks = pendingFunctors s1;
          s2 = s1\<lparr>pendingFunctors := []\<rparr>
      in and_then (fold_r exec tasks s2) (\<lambda>s3. Inr (s3\<lparr>calling_pending_functors := False\<rparr>)))"

section \<open>The loop\<close>

text \<open>\<open>handle\<close> is what \<open>Channel::handleEvent\<close> does for the given time and channel.\<close>

type_synonym ('cb, 'k, 'f, 'z) handler =
  "Timestamp \<Rightarrow> ptr \<Rightarrow> ('cb, 'k, 'f, 'z) event_loop_scheme \<Rightarrow> error + ('cb, 'k, 'f, 'z) event_loop_scheme"

definition loop_iteration :: "('k, 'y) loop_sys_scheme \<Rightarrow> ('cb, 'k, 'f, 'z) handler \<Rightarrow> ('cb, 'k, 'f, 'z) exec \<Rightarrow>
    ('cb, 'k, 'f, 'z) event_loop_scheme \<Rightarrow> error + ('cb, 'k, 'f, 'z) event_loop_scheme" where
  "loop_iteration S handle exec s =
     and_then (poll S kPollTimeMs [] (s\<lparr>active_channels := []\<rparr>)) (\<lambda>(st, active, s1).
     and_then (fold_r (handle st) active (s1\<lparr>active_channels := active, pollReturnTime := st\<rparr>)) (\<lambda>s2.
     doingPendingFunctors exec s2))"

partial_function (option) while_not_quit :: "(('cb, 'k, 'f, 'z) event_loop_scheme \<Rightarrow>
      error + ('cb, 'k, 'f, 'z) event_loop_scheme) \<Rightarrow> ('cb, 'k, 'f, 'z) event_loop_scheme \<Rightarrow>
    (error + ('cb, 'k, 'f, 'z) event_loop_scheme) option" where
  "while_not_quit body s =
     (if quit_flag s then Some (Inr s)
      else case body s of Inl e \<Rightarrow> Some (Inl e) | Inr s' \<Rightarrow> while_not_quit body s')"

text \<open>\<open>None\<close> is a loop that never returns.\<close>

definition loop_fn :: "('k, 'y) loop_sys_scheme \<Rightarrow> ('cb, 'k, 'f, 'z) handler \<Rightarrow> ('cb, 'k, 'f, 'z) exec \<Rightarrow>
    ('cb, 'k, 'f, 'z) event_loop_scheme \<Rightarrow> (error + ('cb, 'k, 'f, 'z) event_loop_scheme) option" where
  "loop_fn S handle exec s =
     (if quit_flag s then Some (Inr s)
      else map_option (\<lambda>r. and_then r (\<lambda>s'. Inr (s'\<lparr>looping := False\<rparr>)))
             (while_not_quit (loop_iteration S handle exec) (s\<lparr>looping := True, quit_flag := False\<rparr>)))"

definition quit_loop :: "('k, 'y) loop_sys_scheme \<Rightarrow> int \<Rightarrow> ('cb, 'k, 'f, 'z) event_loop_scheme \<Rightarrow>
    ('cb, 'k, 'f, 'z) event_loop_scheme" where
  "quit_loop S tid s =
     (let s1 = s\<lparr>quit_flag := True\<rparr> in if \<not> isInLoopThread tid s1 then wakeUp S s1 else s1)"

section \<open>Timers\<close>

definition runAt :: "'t tq_sys \<Rightarrow> bool \<Rightarrow> MonotonicTimestamp \<Rightarrow> 'c option \<Rightarrow> ('c, 't) timer_queue \<Rightarrow>
    error + (timer_id \<times> ('c, 't) timer_queue)" where
  "runAt T in_loop when cb q = addTimer T in_loop cb when 0 q"

definition runAfter :: "'t tq_sys \<Rightarrow> bool \<Rightarrow> double \<Rightarrow> 'c option \<Rightarrow> ('c, 't) timer_queue \<Rightarrow>
    error + (timer_id \<times> ('c, 't) timer_queue)" where
  "runAfter T in_loop delay cb q =
     (let (now, k) = clock_now T (tq_kernel q)
      in addTimer T in_loop cb (addTime now delay) 0 (q\<lparr>tq_kernel := k\<rparr>))"

definition runEveny :: "'t tq_sys \<Rightarrow> bool \<Rightarrow> double \<Rightarrow> 'c option \<Rightarrow> ('c, 't) timer_queue \<Rightarrow>
    error + (timer_id \<times> ('c, 't) timer_queue)" where
  "runEveny T in_loop ival cb q =
     (let (now, k) = clock_now T (tq_kernel q)
      in addTimer T in_loop cb (addTime now ival) ival (q\<lparr>tq_kernel := k\<rparr>))"

definition cancel :: "'t tq_sys \<Rightarrow> bool \<Rightarrow> timer_id \<Rightarrow> ('c, 't) timer_queue \<Rightarrow>
    error + ('c, 't) timer_queue" where
  "cancel T in_loop i q = cancelTimer T in_loop i q"

section \<open>Construction and destruction\<close>

definition fatal_unless_ok :: "'a sysret \<Rightarrow> error + 'a" where
  "fatal_unless_ok r = (case r of SOk x \<Rightarrow> Inr x | SErr _ \<Rightarrow> Inl FatalExit)"

text \<open>Descriptors the constructors need; without one the process exits.\<close>

definition EPollPoller_new :: "('k, 'y) loop_sys_scheme \<Rightarrow> 'k \<Rightarrow> error + (int \<times> 'k)" where
  "EPollPoller_new S k = (let (r, k1) = epoll_create S k in and_then (fatal_unless_ok r) (\<lambda>fd. Inr (fd, k1)))"

definition EPollPoller_destroy :: "('k, 'y) loop_sys_scheme \<Rightarrow> int \<Rightarrow> 'k \<Rightarrow> 'k" where
  "EPollPoller_destroy S epoll_fd k = close_fd S k epoll_fd"

definition createTimerFd :: "('k, 'y) loop_sys_scheme \<Rightarrow> 'k \<Rightarrow> error + (int \<times> 'k)" where
  "createTimerFd S k = (let (r, k1) = timerfd_create S k in and_then (fatal_unless_ok r) (\<lambda>fd. Inr (fd, k1)))"

definition createEventFd :: "('k, 'y) loop_sys_scheme \<Rightarrow> 'k \<Rightarrow> error + (int \<times> 'k)" where
  "createEventFd S k = (let (r, k1) = eventfd_create S k in and_then (fatal_unless_ok r) (\<lambda>fd. Inr (fd, k1)))"

lemmas create_defs = EPollPoller_new_def createTimerFd_def createEventFd_def fatal_unless_ok_def

text \<open>
  \<open>newDefaultPoller\<close>: no poller at all when \<open>MUDO_POLL\<close> is set in the environment, else an
  \<open>EPollPoller\<close>, whose constructor needs an epoll instance.
\<close>

definition newDefaultPoller :: "('k, 'y) loop_sys_scheme \<Rightarrow> bool \<Rightarrow> 'k \<Rightarrow> error + (int option \<times> 'k)" where
  "newDefaultPoller S mudo_poll k =
     (if mudo_poll then Inr (None, k)
      else and_then (EPollPoller_new S k) (\<lambda>(fd, k1). Inr (Some fd, k1)))"

text \<open>
  The constructor: poller, timer queue with its timerfd and channel, eventfd and channel, the
  check that the thread has no other loop, and the registration of the wake-up channel.
  \<open>this\<close>, \<open>timer_ch\<close> and \<open>wakeup_ch\<close> are the addresses of the loop and of the two channels,
  \<open>timer_cb\<close> and \<open>wakeup_cb\<close> the callbacks set in them, \<open>t_loop\<close> is \<open>t_loopInThisThread\<close>,
  whose new value is the second result.
\<close>

definition EventLoop_new :: "('k, 'y) loop_sys_scheme \<Rightarrow> bool \<Rightarrow> ptr option \<Rightarrow> int \<Rightarrow> ptr \<Rightarrow> ptr \<Rightarrow> ptr \<Rightarrow>
    'cb \<Rightarrow> 'cb \<Rightarrow> 'k \<Rightarrow> error + (('cb, 'k, 'f) event_loop \<times> ptr option)" where
  "EventLoop_new S mudo_poll t_loop tid this timer_ch wakeup_ch timer_cb wakeup_cb k =
     and_then (newDefaultPoller S mudo_poll k) (\<lambda>(poller, k1).
     and_then (createTimerFd S k1) (\<lambda>(timer_fd, k2).
     let s0 = \<lparr>channels = Map.empty,
               channel_heap = [timer_ch \<mapsto> (Channel_new this timer_fd)\<lparr>read_callback := Some timer_cb\<rparr>],
               kernel = k2, looping = False, quit_flag = False, thread_id = tid,
               pollReturnTime = Timestamp_default, wakeup_fd = 0, wakeup_channel = 0,
               active_channels = [], pendingFunctors = [], calling_pending_functors = False\<rparr>
     in and_then (guard_r NullPointer (poller \<noteq> None) s0) (\<lambda>_.
        and_then (enableReading S timer_ch s0) (\<lambda>s1.
        and_then (createEventFd S (kernel s1)) (\<lambda>(efd, k3).
           let s2 = ch_set wakeup_ch (Channel_new this efd)
                      (s1\<lparr>kernel := k3, wakeup_fd := efd, wakeup_channel := wakeup_ch\<rparr>)
           in and_then (guard_r FatalExit (t_loop = None) s2) (\<lambda>_.
              let s3 = ch_set wakeup_ch ((Channel_new this efd)\<lparr>read_callback := Some wakeup_cb\<rparr>) s2
              in and_then (enableReading S wakeup_ch s3) (\<lambda>s4. Inr (s4, Some this))))))))"

definition EventLoop_destroy :: "('k, 'y) loop_sys_scheme \<Rightarrow> ('cb, 'k, 'f, 'z) event_loop_scheme \<Rightarrow>
    error + (('cb, 'k, 'f, 'z) event_loop_scheme \<times> ptr option)" where
  "EventLoop_destroy S s =
     and_then (disableAll S (wakeup_channel s) s) (\<lambda>s1.
     and_then (removeChannel S (wakeup_channel s1) s1) (\<lambda>s2.
     Inr (s2\<lparr>kernel := close_fd S (kernel s2) (wakeup_fd s2)\<rparr>, None)))"

section \<open>The loop among other threads\<close>

text \<open>
  Where the loop's thread is: before \<open>loop()\<close>; between its first test of \<open>quit_\<close> and the
  store that clears it; at the test of the \<open>while\<close>; in or before \<open>epoll_wait\<close>; running channel
  callbacks; after setting \<open>calling_pending_functors_\<close>; running the functors it took, the rest
  of which it still has to run; returned.
\<close>

datatype 'f loop_pc =
    NotStarted | Entering | Checking | Polling | Dispatching | Flagged | Running "'f list" | Finished

text \<open>
  \<open>waking\<close> counts other threads that stored a functor or \<open>quit_\<close> and are about to call
  \<open>wakeUp\<close>; \<open>submitted\<close> and \<open>executed\<close> are all functors queued and started so far, \<open>quit_called\<close>
  says whether any thread called \<open>quit\<close>.
\<close>

record ('cb, 'k, 'f) loop_config =
  lc :: "('cb, 'k, 'f) event_loop"
  pc :: "'f loop_pc"
  waking :: nat
  submitted :: "'f list"
  executed :: "'f list"
  quit_called :: bool

definition start_config :: "('cb, 'k, 'f) event_loop \<Rightarrow> ('cb, 'k, 'f) loop_config" where
  "start_config s = \<lparr>lc = s, pc = NotStarted, waking = 0, submitted = pendingFunctors s, executed = [],
     quit_called = False\<rparr>"

fun in_callback :: "'f loop_pc \<Rightarrow> bool" where
  "in_callback Dispatching = True"
| "in_callback (Running ts) = True"
| "in_callback _ = False"

inductive loop_step :: "('k, 'y) loop_sys_scheme \<Rightarrow> ('k \<Rightarrow> 'k \<Rightarrow> bool) \<Rightarrow>
    ('cb, 'k, 'f) loop_config \<Rightarrow> ('cb, 'k, 'f) loop_config \<Rightarrow> bool" for S R where
  enter: "pc c = NotStarted \<Longrightarrow> \<not> quit_flag (lc c) \<Longrightarrow>
     loop_step S R c (c\<lparr>lc := (lc c)\<lparr>looping := True\<rparr>, pc := Entering\<rparr>)"
| enter_quit: "pc c = NotStarted \<Longrightarrow> quit_flag (lc c) \<Longrightarrow> loop_step S R c (c\<lparr>pc := Finished\<rparr>)"
| clear: "pc c = Entering \<Longrightarrow> loop_step S R c (c\<lparr>lc := (lc c)\<lparr>quit_flag := False\<rparr>, pc := Checking\<rparr>)"
| go_on: "pc c = Checking \<Longrightarrow> \<not> quit_flag (lc c) \<Longrightarrow> loop_step S R c (c\<lparr>pc := Polling\<rparr>)"
| stop: "pc c = Checking \<Longrightarrow> quit_flag (lc c) \<Longrightarrow>
     loop_step S R c (c\<lparr>lc := (lc c)\<lparr>looping := False\<rparr>, pc := Finished\<rparr>)"
| poll: "pc c = Polling \<Longrightarrow> Channel_Poller.poll S kPollTimeMs [] (lc c) = Inr (st, active, s) \<Longrightarrow>
     loop_step S R c (c\<lparr>lc := s\<lparr>active_channels := active, pollReturnTime := st\<rparr>, pc := Dispatching\<rparr>)"
| drain: "pc c = Dispatching \<Longrightarrow> loop_step S R c (c\<lparr>lc := loop_handleRead S (lc c)\<rparr>)"
| own_queue: "in_callback (pc c) \<Longrightarrow>
     loop_step S R c (c\<lparr>lc := queueInLoop S (thread_id (lc c)) f (lc c), submitted := submitted c @ [f]\<rparr>)"
| own_quit: "in_callback (pc c) \<Longrightarrow>
     loop_step S R c (c\<lparr>lc := quit_loop S (thread_id (lc c)) (lc c), quit_called := True\<rparr>)"
| own_channels: "in_callback (pc c) \<Longrightarrow> R (kernel (lc c)) k \<Longrightarrow>
     loop_step S R c (c\<lparr>lc := (lc c)\<lparr>channels := chs, channel_heap := h, kernel := k\<rparr>\<rparr>)"
| set_flag: "pc c = Dispatching \<Longrightarrow>
     loop_step S R c (c\<lparr>lc := (lc c)\<lparr>calling_pending_functors := True\<rparr>, pc := Flagged\<rparr>)"
| swap: "pc c = Flagged \<Longrightarrow>
     loop_step S R c (c\<lparr>lc := (lc c)\<lparr>pendingFunctors := []\<rparr>, pc := Running (pendingFunctors (lc c))\<rparr>)"
| run_task: "pc c = Running (f # fs) \<Longrightarrow> loop_step S R c (c\<lparr>pc := Running fs, executed := executed c @ [f]\<rparr>)"
| clear_flag: "pc c = Running [] \<Longrightarrow>
     loop_step S R c (c\<lparr>lc := (lc c)\<lparr>calling_pending_functors := False\<rparr>, pc := Checking\<rparr>)"
| other_push: "loop_step S R c (c\<lparr>lc := push_functor f (lc c), waking := Suc (waking c), submitted := submitted c @ [f]\<rparr>)"
| other_quit: "loop_step S R c (c\<lparr>lc := (lc c)\<lparr>quit_flag := True\<rparr>, waking := Suc (waking c), quit_called := True\<rparr>)"
| other_wake: "waking c = Suc n \<Longrightarrow> loop_step S R c (c\<lparr>lc := wakeUp S (lc c), waking := n\<rparr>)"
| other_kernel: "R (kernel (lc c)) k \<Longrightarrow> loop_step S R c (c\<lparr>lc := (lc c)\<lparr>kernel := k\<rparr>\<rparr>)"

inductive loop_reachable :: "('k, 'y) loop_sys_scheme \<Rightarrow> ('k \<Rightarrow> 'k \<Rightarrow> bool) \<Rightarrow> ('cb, 'k, 'f) event_loop \<Rightarrow>
    ('cb, 'k, 'f) loop_config \<Rightarrow> bool" for S R s where
  start: "loop_reachable S R s (start_config s)"
| step: "loop_reachable S R s c \<Longrightarrow> loop_step S R c c' \<Longrightarrow> loop_reachable S R s c'"

text \<open>
  What the eventfd documents, with \<open>efd k fd\<close> its counter: a write leaves it positive (it adds
  one, or fails because the counter is full), and no other call of the poller changes it.
\<close>

definition eventfd_laws :: "('k, 'y) loop_sys_scheme \<Rightarrow> ('k \<Rightarrow> 'k \<Rightarrow> bool) \<Rightarrow> ('k \<Rightarrow> int \<Rightarrow> nat) \<Rightarrow> bool" where
  "eventfd_laws S R efd \<longleftrightarrow>
     (\<forall>k fd. 0 < efd (snd (eventfd_write S k fd)) fd) \<and>
     (\<forall>k n t. efd (snd (epoll_wait S k n t)) = efd k) \<and>
     (\<forall>k. efd (snd (wall_clock S k)) = efd k) \<and>
     (\<forall>k k'. R k k' \<longrightarrow> efd k' = efd k)"

section \<open>No wake-up is lost, no functor is lost or reordered\<close>

definition signalled :: "('k \<Rightarrow> int \<Rightarrow> nat) \<Rightarrow> ('cb, 'k, 'f) loop_config \<Rightarrow> bool" where
  "signalled efd c \<longleftrightarrow> 0 < efd (kernel (lc c)) (wakeup_fd (lc c)) \<or> 0 < waking c"

fun batch :: "'f loop_pc \<Rightarrow> 'f list" where
  "batch (Running ts) = ts"
| "batch _ = []"

fun is_running :: "'f loop_pc \<Rightarrow> bool" where
  "is_running (Running ts) = True"
| "is_running _ = False"

definition loop_inv :: "('k \<Rightarrow> int \<Rightarrow> nat) \<Rightarrow> ('cb, 'k, 'f) loop_config \<Rightarrow> bool" where
  "loop_inv efd c \<longleftrightarrow>
     (calling_pending_functors (lc c) \<longleftrightarrow> pc c = Flagged \<or> is_running (pc c)) \<and>
     (pendingFunctors (lc c) \<noteq> [] \<longrightarrow> pc c = Dispatching \<or> pc c = Flagged \<or> signalled efd c) \<and>
     (pc c = Polling \<longrightarrow> quit_flag (lc c) \<longrightarrow> signalled efd c) \<and>
     submitted c = executed c @ batch (pc c) @ pendingFunctors (lc c)"

lemma fillActiveChannels_frame:
  "fillActiveChannels evs active s = Inr (active', s') \<Longrightarrow> \<exists>h. s' = s\<lparr>channel_heap := h\<rparr>"
proof (induction evs active s arbitrary: active' s' rule: fillActiveChannels.induct)
  case (1 active s)
  then have "s' = s\<lparr>channel_heap := channel_heap s\<rparr>" by (cases s) simp
  then show ?case by blast
next
  case (2 ev p evs active s)
  then show ?case by (fastforce simp: and_then_Inr_iff ch_set_def)
qed

lemma poll_frame:
  assumes "Channel_Poller.poll S t active s = Inr (st, active', s')"
  shows "\<exists>h. s' = s\<lparr>channel_heap := h,
    kernel := snd (wall_clock S (snd (epoll_wait S (kernel s) kEpollEventListSize t)))\<rparr>"
proof -
  obtain r k1 where w: "epoll_wait S (kernel s) kEpollEventListSize t = (r, k1)" by fastforce
  obtain st' k2 where c: "wall_clock S k1 = (st', k2)" by fastforce
  from assms have "\<exists>h. s' = (s\<lparr>kernel := k2\<rparr>)\<lparr>channel_heap := h\<rparr>"
  proof (cases r)
    case (SErr e)
    with assms have "s' = s\<lparr>kernel := k2\<rparr>" by (simp add: Channel_Poller.poll_def w c)
    also have "\<dots> = (s\<lparr>kernel := k2\<rparr>)\<lparr>channel_heap := channel_heap s\<rparr>" by (cases s) simp
    finally show ?thesis by blast
  next
    case (SOk evs)
    with assms show ?thesis
      by (auto simp: Channel_Poller.poll_def w c and_then_Inr_iff dest: fillActiveChannels_frame)
  qed
  moreover have "snd (wall_clock S (snd (epoll_wait S (kernel s) kEpollEventListSize t))) = k2"
    by (simp add: w c)
  ultimately show ?thesis by (cases s) auto
qed

lemma in_callback_cases: "in_callback p \<longleftrightarrow> p = Dispatching \<or> is_running p"
  by (cases p) auto

lemma loop_step_inv:
  assumes "loop_step S R c c'" and "loop_inv efd c" and laws: "eventfd_laws S R efd"
  shows "loop_inv efd c'"
  using assms(1)
proof cases
  case (poll st active s)
  from poll_frame [OF poll(3)] obtain h where
    s: "s = (lc c)\<lparr>channel_heap := h,
      kernel := snd (wall_clock S (snd (epoll_wait S (kernel (lc c)) kEpollEventListSize kPollTimeMs)))\<rparr>"
    by blast
  with poll assms(2) laws show ?thesis by (auto simp: loop_inv_def signalled_def eventfd_laws_def)
next
  case (own_queue f)
  with assms(2) laws show ?thesis
    by (auto simp: loop_inv_def signalled_def eventfd_laws_def queueInLoop_def push_functor_def
        isInLoopThread_def wakeUp_def in_callback_cases)
next
  case own_quit
  with assms(2) show ?thesis
    by (auto simp: loop_inv_def signalled_def quit_loop_def isInLoopThread_def in_callback_cases)
next
  case (run_task f fs)
  with assms(2) show ?thesis by (auto simp: loop_inv_def signalled_def)
qed (use assms(2) laws in \<open>auto simp: loop_inv_def signalled_def eventfd_laws_def push_functor_def
      wakeUp_def loop_handleRead_def in_callback_cases\<close>)

lemma loop_reachable_inv:
  assumes "loop_reachable S R s c" and "eventfd_laws S R efd"
    and "pendingFunctors s = []" and "\<not> calling_pending_functors s"
  shows "loop_inv efd c"
  using assms(1)
proof (induction rule: loop_reachable.induct)
  case start
  with assms(3,4) show ?case by (simp add: loop_inv_def start_config_def)
next
  case (step c c')
  with loop_step_inv [OF _ _ assms(2)] show ?case by blast
qed

section \<open>Running the loop\<close>

text \<open>The state after \<open>n\<close> iterations that ignore the flag.\<close>

fun iterate :: "nat \<Rightarrow> ('s \<Rightarrow> error + 's) \<Rightarrow> 's \<Rightarrow> error + 's" where
  "iterate 0 body s = Inr s"
| "iterate (Suc n) body s = and_then (body s) (iterate n body)"

lemma while_not_quit_returns:
  assumes "iterate n body s = Inr t" and "quit_flag t"
  shows "\<exists>u m. m \<le> n \<and> while_not_quit body s = Some (Inr u) \<and> quit_flag u \<and> iterate m body s = Inr u"
  using assms
proof (induction n arbitrary: s)
  case 0
  then show ?case by (auto simp: while_not_quit.simps)
next
  case (Suc n)
  show ?case
  proof (cases "quit_flag s")
    case True
    then have "while_not_quit body s = Some (Inr s)" by (simp add: while_not_quit.simps)
    with True show ?thesis by (intro exI [of _ s] exI [of _ 0]) simp
  next
    case False
    from Suc.prems obtain s' where s': "body s = Inr s'" "iterate n body s' = Inr t"
      by (auto simp: and_then_Inr_iff)
    from Suc.IH [OF s'(2) Suc.prems(2)] obtain u m where u: "m \<le> n" "while_not_quit body s' = Some (Inr u)"
      "quit_flag u" "iterate m body s' = Inr u" by blast
    have "while_not_quit body s = Some (Inr u)"
      using False s'(1) u(2) by (subst while_not_quit.simps) simp
    with u s'(1) show ?thesis by (intro exI [of _ u] exI [of _ "Suc m"]) simp
  qed
qed

section \<open>Construction\<close>

text \<open>Creating descriptors succeeds: each is new and open, and a fresh epoll instance is empty.\<close>

definition create_laws :: "('k, 'y) loop_sys_scheme \<Rightarrow> ('k \<Rightarrow> int \<rightharpoonup> epoll_event) \<Rightarrow> ('k \<Rightarrow> int set) \<Rightarrow> bool" where
  "create_laws S interest opened \<longleftrightarrow>
     (\<forall>k. \<exists>fd k'. epoll_create S k = (SOk fd, k') \<and> interest k' = Map.empty) \<and>
     (\<forall>k. \<exists>fd k'. timerfd_create S k = (SOk fd, k') \<and> interest k' = interest k \<and>
        fd \<notin> opened k \<and> opened k' = insert fd (opened k)) \<and>
     (\<forall>k. \<exists>fd k'. eventfd_create S k = (SOk fd, k') \<and> interest k' = interest k \<and>
        fd \<notin> opened k \<and> opened k' = insert fd (opened k))"

lemmas create_epoll = create_laws_def [THEN iffD1, THEN conjunct1, rule_format]
lemmas create_timerfd = create_laws_def [THEN iffD1, THEN conjunct2, THEN conjunct1, rule_format]
lemmas create_eventfd = create_laws_def [THEN iffD1, THEN conjunct2, THEN conjunct2, rule_format]

lemma kReadEvent_nonzero: "e OR kReadEvent \<noteq> 0"
  by (simp add: kReadEvent_def EPOLLIN_def EPOLLPRI_def or_eq_0_iff)

text \<open>Registering a fresh channel for reading.\<close>

lemma enableReading_fresh:
  assumes laws: "epoll_laws S interest opened" and inv: "poller_inv interest s"
    and c: "channel_heap s p = Some c" "events c = 0" "ch_fd c \<in> opened (kernel s)"
    and free: "channels s (ch_fd c) = None"
  shows "\<exists>k'. enableReading S p s = Inr (asked p c kReadEvent k' s) \<and>
    poller_inv interest (asked p c kReadEvent k' s) \<and>
    interest k' = (interest (kernel s))(ch_fd c \<mapsto> (kReadEvent, p)) \<and> opened k' = opened (kernel s)"
  using set_events_ok [OF laws inv c(1,3), of "\<lambda>e. e OR kReadEvent"] free c(2) kReadEvent_nonzero [of 0]
  by (simp add: enableReading_def)

lemma EventLoop_new_ok:
  assumes laws: "epoll_laws S interest opened" and create: "create_laws S interest opened"
    and ne: "timer_ch \<noteq> wakeup_ch"
  shows "\<exists>s tfd. EventLoop_new S False None tid this timer_ch wakeup_ch timer_cb wakeup_cb k =
      Inr (s :: ('c, 'a, 'd) event_loop, Some this) \<and>
    poller_inv interest s \<and> thread_id s = tid \<and> \<not> quit_flag s \<and> pendingFunctors s = [] \<and>
    \<not> calling_pending_functors s \<and> wakeup_channel s = wakeup_ch \<and> tfd \<noteq> wakeup_fd s \<and>
    tfd \<in> opened (kernel s) \<and> wakeup_fd s \<in> opened (kernel s) \<and>
    channel_heap s = [timer_ch \<mapsto> (Channel_new this tfd)\<lparr>read_callback := Some timer_cb, events := kReadEvent, index := kAdd\<rparr>,
      wakeup_ch \<mapsto> (Channel_new this (wakeup_fd s))\<lparr>read_callback := Some wakeup_cb, events := kReadEvent, index := kAdd\<rparr>] \<and>
    interest (kernel s) = [tfd \<mapsto> (kReadEvent, timer_ch), wakeup_fd s \<mapsto> (kReadEvent, wakeup_ch)] \<and>
    EventLoop_new S False (Some l) tid this timer_ch wakeup_ch timer_cb wakeup_cb k =
      (Inl FatalExit :: error + ('c, 'a, 'd) event_loop \<times> ptr option)"
proof -
  from create_epoll [OF create, of k] obtain epfd k1 where
    k1: "epoll_create S k = (SOk epfd, k1)" "interest k1 = Map.empty" by blast
  from create_timerfd [OF create, of k1] obtain tfd k2 where
    k2: "timerfd_create S k1 = (SOk tfd, k2)" "interest k2 = interest k1" "tfd \<in> opened k2" by blast
  let ?t = "(Channel_new this tfd)\<lparr>read_callback := Some timer_cb\<rparr>"
  let ?s0 = "\<lparr>channels = Map.empty, channel_heap = [timer_ch \<mapsto> ?t], kernel = k2, looping = False,
     quit_flag = False, thread_id = tid, pollReturnTime = Timestamp_default, wakeup_fd = 0, wakeup_channel = 0,
     active_channels = [], pendingFunctors = [], calling_pending_functors = False\<rparr> :: ('c, 'a, 'd) event_loop"
  have inv0: "poller_inv interest ?s0"
    using k1 k2 by (auto simp: poller_inv_def chan_ok_def watched_def Channel_new_def index_consts)
  from enableReading_fresh [OF laws inv0, of timer_ch ?t] k2 obtain k3 where
    k3: "enableReading S timer_ch ?s0 = Inr (asked timer_ch ?t kReadEvent k3 ?s0)"
      "poller_inv interest (asked timer_ch ?t kReadEvent k3 ?s0)"
      "interest k3 = [tfd \<mapsto> (kReadEvent, timer_ch)]" "opened k3 = opened k2"
    using k1 by (auto simp: Channel_new_def)
  from create_eventfd [OF create, of k3] obtain efd k4 where
    k4: "eventfd_create S k3 = (SOk efd, k4)" "interest k4 = interest k3" "efd \<notin> opened k3"
      "opened k4 = insert efd (opened k3)" by blast
  let ?s1 = "(asked timer_ch ?t kReadEvent k3 ?s0)\<lparr>kernel := k4, wakeup_fd := efd, wakeup_channel := wakeup_ch\<rparr>"
  let ?w = "(Channel_new this efd)\<lparr>read_callback := Some wakeup_cb\<rparr>"
  have "poller_inv interest ?s1"
    by (rule poller_inv_cong [OF k3(2)]) (simp_all add: asked_def k4(2))
  then have "poller_inv interest (ch_set wakeup_ch (Channel_new this efd) ?s1)"
    using ne by (intro poller_inv_new_channel) (simp_all add: asked_def)
  then have inv2: "poller_inv interest (ch_set wakeup_ch ?w ?s1)"
    by (rule poller_inv_cong) (auto simp: ch_core_def)
  have tfd: "tfd \<noteq> efd" using k2(3) k3(4) k4(3) by auto
  from enableReading_fresh [OF laws inv2, of wakeup_ch ?w] k4 tfd obtain k5 where
    k5: "enableReading S wakeup_ch (ch_set wakeup_ch ?w ?s1) =
        Inr (asked wakeup_ch ?w kReadEvent k5 (ch_set wakeup_ch ?w ?s1))"
      "poller_inv interest (asked wakeup_ch ?w kReadEvent k5 (ch_set wakeup_ch ?w ?s1))"
      "interest k5 = (interest k3)(efd \<mapsto> (kReadEvent, wakeup_ch))" "opened k5 = opened k4"
    by (auto simp: Channel_new_def asked_def)
  have run: "EventLoop_new S False None tid this timer_ch wakeup_ch timer_cb wakeup_cb k =
      Inr (asked wakeup_ch ?w kReadEvent k5 (ch_set wakeup_ch ?w ?s1), Some this)"
    using k1 k2 k3(1) k4(1) k5(1)
    by (simp add: EventLoop_new_def newDefaultPoller_def create_defs asked_def ch_set_def)
  have second: "EventLoop_new S False (Some l) tid this timer_ch wakeup_ch timer_cb wakeup_cb k =
      (Inl FatalExit :: error + ('c, 'a, 'd) event_loop \<times> ptr option)"
    using k1 k2 k3(1) k4(1)
    by (simp add: EventLoop_new_def newDefaultPoller_def create_defs asked_def ch_set_def guard_r_def)
  show ?thesis
    by (intro exI conjI, rule run, rule k5(2))
       (use k2(3) k3(3,4) k4(4) k5(3,4) tfd second kReadEvent_nonzero [of 0] in
         \<open>simp_all add: asked_def ch_set_def new_index_def Channel_new_def index_consts\<close>)
qed

section \<open>Properties\<close>

text \<open>A kernel with an interest list, one eventfd counter and a supply of descriptors.\<close>

type_synonym sample_kernel = "(int \<times> epoll_event) list \<times> nat \<times> nat"

definition sample_loop_sys :: "sample_kernel loop_sys" where
  "sample_loop_sys = \<lparr>
     epoll_ctl = (\<lambda>(es, n, m) operation fd ev. map_prod id (\<lambda>es'. (es', n, m)) (epoll_ctl sample_epoll es operation fd ev)),
     epoll_wait = (\<lambda>(es, n, m) l t. map_prod id (\<lambda>es'. (es', n, m)) (epoll_wait sample_epoll es l t)),
     wall_clock = (\<lambda>k. (Timestamp 1, k)),
     eventfd_read = (\<lambda>(es, n, m) fd. (if n = 0 then SErr 11 else SOk 8, (es, 0, m))),
     eventfd_write = (\<lambda>(es, n, m) fd. (SOk 8, (es, Suc n, m))),
     epoll_create = (\<lambda>(es, n, m). (SOk (int m), ([], n, Suc m))),
     timerfd_create = (\<lambda>(es, n, m). (SOk (int m), (es, n, Suc m))),
     eventfd_create = (\<lambda>(es, n, m). (SOk (int m), (es, n, Suc m))),
     close_fd = (\<lambda>k fd. k)\<rparr>"

definition sample_interest :: "sample_kernel \<Rightarrow> int \<rightharpoonup> epoll_event" where
  "sample_interest k = map_of (fst k)"

definition sample_opened :: "sample_kernel \<Rightarrow> int set" where
  "sample_opened k = int ` {..<snd (snd k)}"

definition sample_efd :: "sample_kernel \<Rightarrow> int \<Rightarrow> nat" where
  "sample_efd k fd = fst (snd k)"

lemma sample_loop_epoll_laws: "epoll_laws sample_loop_sys sample_interest sample_opened"
  using sample_reports
  by (simp add: epoll_laws_def sample_loop_sys_def sample_epoll_def sample_interest_def sample_opened_def
      map_of_filter_ne)

lemma sample_create_laws: "create_laws sample_loop_sys sample_interest sample_opened"
  by (auto simp: create_laws_def sample_loop_sys_def sample_interest_def sample_opened_def)

lemma sample_eventfd_laws: "eventfd_laws sample_loop_sys (\<lambda>_ _. False) sample_efd"
  by (auto simp: eventfd_laws_def sample_loop_sys_def sample_efd_def split_beta)

definition sample_loop :: "(nat, sample_kernel, nat) event_loop" where
  "sample_loop = \<lparr>channels = Map.empty, channel_heap = Map.empty, kernel = ([], 0, 7), looping = False,
     quit_flag = False, thread_id = 100, pollReturnTime = Timestamp 0, wakeup_fd = 5, wakeup_channel = 1,
     active_channels = [], pendingFunctors = [], calling_pending_functors = False\<rparr>"


text \<open>The trace: start the loop, reach the poll, and another thread pushes a functor.\<close>

lemma loop_reaches_polling:
  assumes "\<not> quit_flag s"
  shows "loop_reachable S R s ((start_config s)\<lparr>lc := s\<lparr>looping := True, quit_flag := False\<rparr>, pc := Polling\<rparr>)"
proof -
  let ?c0 = "start_config s"
  let ?c1 = "?c0\<lparr>lc := (lc ?c0)\<lparr>looping := True\<rparr>, pc := Entering\<rparr>"
  let ?c2 = "?c1\<lparr>lc := (lc ?c1)\<lparr>quit_flag := False\<rparr>, pc := Checking\<rparr>"
  have "loop_reachable S R s ?c1"
    by (rule loop_reachable.step [OF loop_reachable.start], rule loop_step.enter)
       (use assms in \<open>simp_all add: start_config_def\<close>)
  then have "loop_reachable S R s ?c2" by (rule loop_reachable.step, intro loop_step.clear) simp
  then have "loop_reachable S R s (?c2\<lparr>pc := Polling\<rparr>)"
    by (rule loop_reachable.step, intro loop_step.go_on) simp_all
  then show ?thesis by (simp add: start_config_def)
qed


text \<open>
  C6: the functor queue is first-in first-out and loses nothing: at every moment the functors
  submitted by all threads, in the order in which they entered the queue, are those started
  so far, then those of the batch being run, then those still pending.
\<close>

theorem functors_fifo:
  assumes "loop_reachable S R s c" and "eventfd_laws S R efd"
    and "pendingFunctors s = []" and "\<not> calling_pending_functors s"
  shows "submitted c = executed c @ batch (pc c) @ pendingFunctors (lc c)"
  using loop_reachable_inv [OF assms] by (simp add: loop_inv_def)

theorem functors_fifo_witness:
  "[] @ [3] = [] @ batch Polling @ pendingFunctors (push_functor (3 :: nat) (sample_loop\<lparr>looping := True, quit_flag := False\<rparr>))"
proof -
  let ?c = "(start_config sample_loop)\<lparr>lc := sample_loop\<lparr>looping := True, quit_flag := False\<rparr>, pc := Polling\<rparr>"
  have "loop_reachable sample_loop_sys (\<lambda>_ _. False) sample_loop ?c"
    by (rule loop_reaches_polling) (simp add: sample_loop_def)
  then have "loop_reachable sample_loop_sys (\<lambda>_ _. False) sample_loop
      (?c\<lparr>lc := push_functor 3 (lc ?c), waking := Suc (waking ?c), submitted := submitted ?c @ [3]\<rparr>)"
    by (rule loop_reachable.step, intro loop_step.other_push)
  from functors_fifo [OF this sample_eventfd_laws] show ?thesis
    by (simp add: sample_loop_def push_functor_def start_config_def)
qed


text \<open>A functor that tells the loop to quit.\<close>

definition quit_functor :: "nat \<Rightarrow> (nat, sample_kernel, nat) event_loop \<Rightarrow> error + (nat, sample_kernel, nat) event_loop" where
  "quit_functor f s = Inr (quit_loop sample_loop_sys (thread_id s) s)"


text \<open>
  C30: a new loop watches exactly its timerfd and its eventfd, both for reading, and its poller is
  consistent; a second loop in the same thread ends the process; with \<open>MUDO_POLL\<close> set there is
  no poller and the constructor dereferences a null pointer.
\<close>

theorem EventLoop_construction:
  fixes S :: "('k, 'y) loop_sys_scheme" and timer_cb wakeup_cb :: 'cb
  assumes "epoll_laws S interest opened" and "create_laws S interest opened" and "timer_ch \<noteq> wakeup_ch"
  shows "(\<exists>s tfd. EventLoop_new S False None tid this timer_ch wakeup_ch timer_cb wakeup_cb k =
      Inr (s :: ('cb, 'k, 'f) event_loop, Some this) \<and>
      poller_inv interest s \<and> thread_id s = tid \<and> pendingFunctors s = [] \<and> tfd \<noteq> wakeup_fd s \<and>
      interest (kernel s) = [tfd \<mapsto> (kReadEvent, timer_ch), wakeup_fd s \<mapsto> (kReadEvent, wakeup_ch)]) \<and>
    EventLoop_new S False (Some l) tid this timer_ch wakeup_ch timer_cb wakeup_cb k =
      (Inl FatalExit :: error + ('cb, 'k, 'f) event_loop \<times> ptr option) \<and>
    EventLoop_new S True None tid this timer_ch wakeup_ch timer_cb wakeup_cb k =
      (Inl NullPointer :: error + ('cb, 'k, 'f) event_loop \<times> ptr option)"
proof -
  from create_timerfd [OF assms(2), of k]
  have "EventLoop_new S True None tid this timer_ch wakeup_ch timer_cb wakeup_cb k =
      (Inl NullPointer :: error + ('cb, 'k, 'f) event_loop \<times> ptr option)"
    by (auto simp: EventLoop_new_def newDefaultPoller_def create_defs guard_r_def)
  then show ?thesis
    using EventLoop_new_ok [OF assms, of tid this timer_cb wakeup_cb k l] by blast
qed

theorem EventLoop_construction_witness:
  "(\<exists>s tfd. EventLoop_new sample_loop_sys False None 100 9 1 2 (10 :: nat) 20 ([], 0, 7) =
      Inr (s :: (nat, sample_kernel, nat) event_loop, Some 9) \<and>
      poller_inv sample_interest s \<and> thread_id s = 100 \<and> pendingFunctors s = [] \<and> tfd \<noteq> wakeup_fd s \<and>
      sample_interest (kernel s) = [tfd \<mapsto> (kReadEvent, 1), wakeup_fd s \<mapsto> (kReadEvent, 2)]) \<and>
    EventLoop_new sample_loop_sys False (Some 8) 100 9 1 2 (10 :: nat) 20 ([], 0, 7) =
      (Inl FatalExit :: error + (nat, sample_kernel, nat) event_loop \<times> ptr option) \<and>
    EventLoop_new sample_loop_sys True None 100 9 1 2 (10 :: nat) 20 ([], 0, 7) =
      (Inl NullPointer :: error + (nat, sample_kernel, nat) event_loop \<times> ptr option)"
  by (rule EventLoop_construction [OF sample_loop_epoll_laws sample_create_laws]) simp

text \<open>
  \<open>queueInLoop\<close> called by the loop's own thread before \<open>loop()\<close> does not signal the eventfd:
  the loop reaches its first \<open>epoll_wait\<close> with the functor pending and nothing to wake it up.
\<close>

lemma queue_before_loop_unsignalled:
  assumes "\<not> quit_flag s" and "\<not> calling_pending_functors s" and "efd (kernel s) (wakeup_fd s) = 0"
  shows "\<exists>c. loop_reachable S R (queueInLoop S (thread_id s) f s) c \<and> pc c = Polling \<and>
    f \<in> set (pendingFunctors (lc c)) \<and> efd (kernel (lc c)) (wakeup_fd (lc c)) = 0 \<and> waking c = 0"
proof -
  have q: "queueInLoop S (thread_id s) f s = push_functor f s"
    using assms(2) by (simp add: queueInLoop_def isInLoopThread_def push_functor_def)
  have "\<not> quit_flag (push_functor f s)" using assms(1) by (simp add: push_functor_def)
  let ?c = "(start_config (push_functor f s))\<lparr>lc := (push_functor f s)\<lparr>looping := True, quit_flag := False\<rparr>, pc := Polling\<rparr>"
  have "loop_reachable S R (push_functor f s) ?c" by (rule loop_reaches_polling) fact
  moreover have "pc ?c = Polling" "f \<in> set (pendingFunctors (lc ?c))"
    "efd (kernel (lc ?c)) (wakeup_fd (lc ?c)) = 0" "waking ?c = 0"
    using assms(3) by (simp_all add: start_config_def push_functor_def)
  ultimately show ?thesis unfolding q by blast
qed

text \<open>
  C34: a call of \<open>quit()\<close> from another thread can be lost: when it falls between the first test
  of \<open>quit_\<close> in \<open>loop()\<close> and the store that clears the flag, the call completes, its wake-up
  is consumed, and the loop blocks again with the flag down.
\<close>

theorem quit_can_be_lost:
  "\<exists>c. loop_reachable sample_loop_sys (\<lambda>_ _. False) sample_loop c \<and> quit_called c \<and>
    \<not> quit_flag (lc c) \<and> pc c = Polling \<and> waking c = 0 \<and>
    sample_efd (kernel (lc c)) (wakeup_fd (lc c)) = 0"
proof -
  let ?R = "\<lambda>_ _. False"
  let ?reach = "loop_reachable sample_loop_sys ?R sample_loop"
  let ?c = "\<lambda>n l q p w cpf t. \<lparr>lc = sample_loop\<lparr>kernel := ([], n, 7), looping := l, quit_flag := q,
    calling_pending_functors := cpf, pollReturnTime := t\<rparr>, pc = p, waking = w, submitted = [], executed = [], quit_called = True\<rparr>"
  have next_state: "?reach c'" if "?reach c" "loop_step sample_loop_sys ?R c d" "d = c'" for c c' d
    using that by (blast intro: loop_reachable.step)
  note eval = sample_loop_def start_config_def wakeUp_def loop_handleRead_def sample_loop_sys_def
    Channel_Poller.poll_def sample_epoll_def kEpollEventListSize_def
  have "?reach ((start_config sample_loop)\<lparr>lc := sample_loop\<lparr>looping := True\<rparr>, pc := Entering\<rparr>)"
    by (rule next_state [OF loop_reachable.start loop_step.enter]) (simp_all add: eval)
  then have "?reach (?c 0 True True Entering 1 False (Timestamp 0))"
    by (rule next_state [OF _ loop_step.other_quit]) (simp add: eval)
  then have "?reach (?c 0 True False Checking 1 False (Timestamp 0))"
    by (rule next_state [OF _ loop_step.clear]) (simp_all add: eval)
  then have "?reach (?c 1 True False Checking 0 False (Timestamp 0))"
    by (rule next_state [OF _ loop_step.other_wake [where n = 0]]) (simp_all add: eval)
  then have "?reach (?c 1 True False Polling 0 False (Timestamp 0))"
    by (rule next_state [OF _ loop_step.go_on]) (simp_all add: eval)
  then have "?reach (?c 1 True False Dispatching 0 False (Timestamp 1))"
    by (rule next_state [OF _ loop_step.poll]) (simp add: eval)+
  then have "?reach (?c 0 True False Dispatching 0 False (Timestamp 1))"
    by (rule next_state [OF _ loop_step.drain]) (simp_all add: eval)
  then have "?reach (?c 0 True False Flagged 0 True (Timestamp 1))"
    by (rule next_state [OF _ loop_step.set_flag]) (simp_all add: eval)
  then have "?reach (?c 0 True False (Running []) 0 True (Timestamp 1))"
    by (rule next_state [OF _ loop_step.swap]) (simp_all add: eval)
  then have "?reach (?c 0 True False Checking 0 False (Timestamp 1))"
    by (rule next_state [OF _ loop_step.clear_flag]) (simp_all add: eval)
  then have "?reach (?c 0 True False Polling 0 False (Timestamp 1))"
    by (rule next_state [OF _ loop_step.go_on]) (simp_all add: eval)
  then show ?thesis
    by (intro exI conjI, assumption) (simp_all add: sample_efd_def)
qed

end
