(* ===== verification/Tcp_Connection.thy ===== *)
theory Tcp_Connection
  imports Buffer Event_Loop
begin

text \<open>
  \<open>TcpConnection\<close> (include/TcpConnection.h, src/TcpConnection.cc) and the parts of \<open>Socket\<close> it
  uses.  The state is an event loop together with a heap of connections; closures and
  callbacks are data: the functors a connection queues, the callbacks it sets in its channel,
  and the user's callbacks, which are names whose effect on the state is the parameter \<open>U\<close>.
  Socket calls are parameters.
\<close>

section \<open>State\<close>

datatype StateE = kConnected | kConnecting | kDisConnected | kDisConnecting

text \<open>The functors a connection hands to its loop; \<open>OtherFunctor\<close> stands for everybody else's.\<close>

datatype 'x loop_functor =
    SendInLoop ptr "byte list"
  | SendFileInLoop ptr
  | ShutDownInLoop ptr
  | WriteComplete ptr
  | HighWaterMark ptr
  | ConnectionEstablished ptr
  | ConnectionDestroyed ptr
  | OtherFunctor 'x

datatype 'x channel_cb =
    ConnRead ptr
  | ConnWrite ptr
  | ConnClose ptr
  | ConnError ptr
  | OtherCallback 'x

record ('u, 'a) connection =
  state :: StateE
  reading :: bool
  conn_loop :: ptr
  socket_fd :: int
  conn_channel :: ptr
  local_addr :: 'a
  peer_addr :: 'a
  input_buffer :: buffer
  output_buffer :: buffer
  high_water_mark :: size_t
  connection_callback :: "'u option"
  conn_close_callback :: "'u option"
  write_complete_callback :: "'u option"
  high_water_mark_callback :: "'u option"
  message_callback :: "'u option"
  conn_name :: string
  sending_file :: bool
  fd_to_send :: int
  fd_offset :: int
  file_count :: size_t

record ('x, 'k, 'u, 'a) world = "('x channel_cb, 'k, 'x loop_functor) event_loop" +
  conns :: "ptr \<rightharpoonup> ('u, 'a) connection"

record 'k tcp_sys = "'k loop_sys" +
  sock_write :: "'k write_call"
  sock_readv :: "'k readv_call"
  sock_sendfile :: "'k \<Rightarrow> int \<Rightarrow> int \<Rightarrow> int \<Rightarrow> size_t \<Rightarrow> (nat sysret \<times> int) \<times> 'k"
  sock_error :: "'k \<Rightarrow> int \<Rightarrow> int sysret \<times> 'k"
  sock_shutdown_wr :: "'k \<Rightarrow> int \<Rightarrow> unit sysret \<times> 'k"
  sock_keepalive :: "'k \<Rightarrow> int \<Rightarrow> bool \<Rightarrow> 'k"

text \<open>
  \<open>sock_sendfile k out_fd in_fd offset count\<close> returns the number of bytes sent and the new
  offset; \<open>sock_error\<close> is \<open>getsockopt\<close> with \<open>SO_ERROR\<close>.
\<close>

definition EWOULDBLOCK :: int where "EWOULDBLOCK = 11"
definition EPIPE :: int where "EPIPE = 32"
definition ECONNRESET :: int where "ECONNRESET = 104"

definition DefaultWaterMark :: size_t where
  "DefaultWaterMark = 64 * 1024 * 1024"

definition conn_deref :: "ptr \<Rightarrow> ('x, 'k, 'u, 'a, 'z) world_scheme \<Rightarrow> error + ('u, 'a) connection" where
  "conn_deref p w = (case conns w p of None \<Rightarrow> Inl NullPointer | Some c \<Rightarrow> Inr c)"

definition conn_set :: "ptr \<Rightarrow> ('u, 'a) connection \<Rightarrow> ('x, 'k, 'u, 'a, 'z) world_scheme \<Rightarrow>
    ('x, 'k, 'u, 'a, 'z) world_scheme" where
  "conn_set p c w = w\<lparr>conns := (conns w)(p \<mapsto> c)\<rparr>"

type_synonym ('x, 'k, 'u, 'a, 'z) world_result = "error + ('x, 'k, 'u, 'a, 'z) world_scheme"

definition setState :: "ptr \<Rightarrow> StateE \<Rightarrow> ('x, 'k, 'u, 'a, 'z) world_scheme \<Rightarrow>
    ('x, 'k, 'u, 'a, 'z) world_result" where
  "setState p st w = and_then (conn_deref p w) (\<lambda>c. Inr (conn_set p (c\<lparr>state := st\<rparr>) w))"

text \<open>A call of \<open>queueInLoop\<close> by the loop's own thread.\<close>

definition queue_own :: "('k, 'y) tcp_sys_scheme \<Rightarrow> 'x loop_functor \<Rightarrow> ('x, 'k, 'u, 'a, 'z) world_scheme \<Rightarrow>
    ('x, 'k, 'u, 'a, 'z) world_scheme" where
  "queue_own S f w = queueInLoop S (thread_id w) f w"

definition connected :: "('u, 'a) connection \<Rightarrow> bool" where
  "connected c \<longleftrightarrow> state c = kConnected"

section \<open>Construction\<close>

text \<open>\<open>this\<close> and \<open>ch\<close> are the addresses of the connection and of its channel, \<open>loop\<close> its loop.\<close>

definition TcpConnection_new :: "('k, 'y) tcp_sys_scheme \<Rightarrow> ptr \<Rightarrow> ptr \<Rightarrow> ptr \<Rightarrow> string \<Rightarrow> int \<Rightarrow> 'a \<Rightarrow> 'a \<Rightarrow>
    size_t \<Rightarrow> ('x, 'k, 'u, 'a, 'z) world_scheme \<Rightarrow> ('x, 'k, 'u, 'a, 'z) world_result" where
  "TcpConnection_new S loop this ch name sockfd laddr paddr water_mark w =
     and_then (Buffer_new kInitialSize) (\<lambda>b.
     let c = \<lparr>state = kConnecting, reading = False, conn_loop = loop, socket_fd = sockfd, conn_channel = ch,
              local_addr = laddr, peer_addr = paddr, input_buffer = b, output_buffer = b,
              high_water_mark = water_mark, connection_callback = None, conn_close_callback = None,
              write_complete_callback = None, high_water_mark_callback = None, message_callback = None,
              conn_name = name, sending_file = False, fd_to_send = 0, fd_offset = 0, file_count = 0\<rparr>;
         channel = (Channel_new loop sockfd)
           \<lparr>close_callback := Some (ConnClose this), error_callback := Some (ConnError this),
             read_callback := Some (ConnRead this), write_callback := Some (ConnWrite this)\<rparr>;
         w1 = conn_set this c (ch_set ch channel w)
     in Inr (w1\<lparr>kernel := sock_keepalive S (kernel w1) sockfd True\<rparr>))"

section \<open>Sending\<close>

text \<open>\<open>Socket::shutDownWrite\<close>: a failure is logged.\<close>

definition shutDownWrite :: "('k, 'y) tcp_sys_scheme \<Rightarrow> int \<Rightarrow> ('x, 'k, 'u, 'a, 'z) world_scheme \<Rightarrow>
    ('x, 'k, 'u, 'a, 'z) world_scheme" where
  "shutDownWrite S fd w = w\<lparr>kernel := snd (sock_shutdown_wr S (kernel w) fd)\<rparr>"

definition shutDownInLoop :: "('k, 'y) tcp_sys_scheme \<Rightarrow> ptr \<Rightarrow> ('x, 'k, 'u, 'a, 'z) world_scheme \<Rightarrow>
    ('x, 'k, 'u, 'a, 'z) world_result" where
  "shutDownInLoop S p w =
     and_then (conn_deref p w) (\<lambda>c.
     and_then (ch_deref (conn_channel c) w) (\<lambda>ch.
     Inr (if \<not> isWriting ch then shutDownWrite S (socket_fd c) w else w)))"

text \<open>
  The direct write of \<open>sendInLoop\<close>, tried when nothing is waiting: the bytes written, the
  bytes remaining, whether the connection is broken, and the new state.
\<close>

definition try_write :: "('k, 'y) tcp_sys_scheme \<Rightarrow> ptr \<Rightarrow> ('u, 'a) connection \<Rightarrow> int \<Rightarrow> byte list \<Rightarrow>
    ('x, 'k, 'u, 'a, 'z) world_scheme \<Rightarrow> nat \<times> size_t \<times> bool \<times> ('x, 'k, 'u, 'a, 'z) world_scheme" where
  "try_write S p c fd data w =
     (let len = of_nat (length data);
          (r, k) = sock_write S (kernel w) fd data;
          w1 = w\<lparr>kernel := k\<rparr>
      in case r of
           SOk n \<Rightarrow>
             let remaining = len - of_nat n
             in (n, remaining, False,
                 if remaining = 0 \<and> write_complete_callback c \<noteq> None
                 then queue_own S (WriteComplete p) w1 else w1)
         | SErr e \<Rightarrow> (0, len, e \<noteq> EWOULDBLOCK \<and> (e = EPIPE \<or> e = ECONNRESET), w1))"

definition sendInLoop :: "('k, 'y) tcp_sys_scheme \<Rightarrow> ptr \<Rightarrow> byte list \<Rightarrow> ('x, 'k, 'u, 'a, 'z) world_scheme \<Rightarrow>
    ('x, 'k, 'u, 'a, 'z) world_result" where
  "sendInLoop S p data w =
     and_then (conn_deref p w) (\<lambda>c.
     if state c = kDisConnected \<or> state c = kDisConnecting then Inr w
     else and_then (ch_deref (conn_channel c) w) (\<lambda>ch.
       let (nwrote, remaining, fault_error, w1) =
             (if \<not> isWriting ch \<and> readableBytes (output_buffer c) = 0
              then try_write S p c (ch_fd ch) data w
              else (0, of_nat (length data), False, w))
       in if \<not> fault_error \<and> remaining \<noteq> 0
          then let old_len = readableBytes (output_buffer c);
                   w2 = (if high_water_mark c \<le> old_len + remaining \<and> old_len < high_water_mark c \<and>
                            high_water_mark_callback c \<noteq> None
                         then queue_own S (HighWaterMark p) w1 else w1)
               in and_then (append_bytes (drop nwrote data) remaining (output_buffer c)) (\<lambda>b.
                  let w3 = conn_set p (c\<lparr>output_buffer := b\<rparr>) w2
                  in if \<not> isWriting ch then enableWriting S (conn_channel c) w3 else Inr w3)
          else Inr w1))"

text \<open>Both overloads of \<open>send\<close>; \<open>tid\<close> is the calling thread.\<close>

definition send :: "('k, 'y) tcp_sys_scheme \<Rightarrow> int \<Rightarrow> ptr \<Rightarrow> byte list \<Rightarrow> ('x, 'k, 'u, 'a, 'z) world_scheme \<Rightarrow>
    ('x, 'k, 'u, 'a, 'z) world_result" where
  "send S tid p data w =
     and_then (conn_deref p w) (\<lambda>c.
     if state c = kConnected
     then if isInLoopThread tid w then sendInLoop S p data w
          else runInLoop S (\<lambda>_. sendInLoop S p data) tid (SendInLoop p data) w
     else Inr w)"

definition shutdown :: "('k, 'y) tcp_sys_scheme \<Rightarrow> int \<Rightarrow> ptr \<Rightarrow> ('x, 'k, 'u, 'a, 'z) world_scheme \<Rightarrow>
    ('x, 'k, 'u, 'a, 'z) world_result" where
  "shutdown S tid p w =
     and_then (conn_deref p w) (\<lambda>c.
     if state c = kConnected
     then and_then (setState p kDisConnecting w)
            (runInLoop S (\<lambda>_. shutDownInLoop S p) tid (ShutDownInLoop p))
     else Inr w)"

text \<open>
  \<open>sendFileInLoop\<close>.  The call of \<open>sendfile\<close> and what follows it, then the update of the
  remaining count.
\<close>

definition sendFileInLoop :: "('k, 'y) tcp_sys_scheme \<Rightarrow> ptr \<Rightarrow> ('x, 'k, 'u, 'a, 'z) world_scheme \<Rightarrow>
    ('x, 'k, 'u, 'a, 'z) world_result" where
  "sendFileInLoop S p w =
     and_then (conn_deref p w) (\<lambda>c.
     if state c = kDisConnected \<or> state c = kDisConnecting
     then Inr (conn_set p (c\<lparr>sending_file := False\<rparr>) w)
     else and_then (ch_deref (conn_channel c) w) (\<lambda>ch.
       and_then
         (if sending_file c
          then let ((r, off), k) = sock_sendfile S (kernel w) (ch_fd ch) (fd_to_send c) (fd_offset c) (file_count c);
                   w1 = conn_set p (c\<lparr>fd_offset := off\<rparr>) (w\<lparr>kernel := k\<rparr>)
               in case r of
                    SOk n \<Rightarrow>
                      let remaining = file_count c - of_nat n
                      in if remaining = 0
                         then let w2 = (if write_complete_callback c \<noteq> None
                                        then queue_own S (WriteComplete p) w1 else w1);
                                  w3 = conn_set p (c\<lparr>fd_offset := off, sending_file := False\<rparr>) w2
                              in and_then (disableWriting S (conn_channel c) w3) (\<lambda>w4. Inr (remaining, False, w4))
                         else Inr (remaining, False, w1)
                  | SErr e \<Rightarrow>
                      let fault = (e = EPIPE \<or> e = ECONNRESET)
                      in Inr (file_count c, fault,
                           if fault then conn_set p (c\<lparr>fd_offset := off, sending_file := False\<rparr>) w1 else w1)
          else Inr (file_count c, False, w))
         (\<lambda>(remaining, fault_error, w5).
            if remaining \<noteq> 0 \<and> \<not> fault_error
            then and_then (conn_deref p w5) (\<lambda>c5.
                 let w6 = conn_set p (c5\<lparr>file_count := remaining\<rparr>) w5
                 in and_then (ch_deref (conn_channel c5) w6) (\<lambda>ch6.
                    if \<not> isWriting ch6 then enableWriting S (conn_channel c5) w6 else Inr w6))
            else Inr w5)))"

definition sendFile :: "('k, 'y) tcp_sys_scheme \<Rightarrow> int \<Rightarrow> ptr \<Rightarrow> int \<Rightarrow> int \<Rightarrow> size_t \<Rightarrow>
    ('x, 'k, 'u, 'a, 'z) world_scheme \<Rightarrow> ('x, 'k, 'u, 'a, 'z) world_result" where
  "sendFile S tid p file_descriptor offset count w =
     and_then (conn_deref p w) (\<lambda>c.
     if state c = kConnected
     then let w1 = conn_set p (c\<lparr>sending_file := True, fd_to_send := file_descriptor,
                                 fd_offset := offset, file_count := count\<rparr>) w
          in if isInLoopThread tid w1 then sendFileInLoop S p w1
             else Inr (queueInLoop S tid (SendFileInLoop p) w1)
     else Inr w)"

section \<open>User callbacks\<close>

text \<open>A call of a user's callback, which gets the connection and, for a message, the time of the poll.\<close>

datatype 'u user_call = UserCall 'u ptr | UserMessage 'u ptr Timestamp

type_synonym ('x, 'k, 'u, 'a, 'z) user_code =
  "'u user_call \<Rightarrow> ('x, 'k, 'u, 'a, 'z) world_scheme \<Rightarrow> ('x, 'k, 'u, 'a, 'z) world_result"

text \<open>
  User code as a list of calls of the public interface of connections and of the loop's
  \<open>queueInLoop\<close>, in the loop's thread.
\<close>

datatype 'x action =
    ActSend ptr "byte list"
  | ActShutdown ptr
  | ActSendFile ptr int int size_t
  | ActRetrieve ptr size_t
  | ActQueue "'x loop_functor"

fun conn_act :: "('k, 'y) tcp_sys_scheme \<Rightarrow> 'x action \<Rightarrow> ('x, 'k, 'u, 'a, 'z) world_scheme \<Rightarrow>
    ('x, 'k, 'u, 'a, 'z) world_result" where
  "conn_act S (ActSend p data) w = send S (thread_id w) p data w"
| "conn_act S (ActShutdown p) w = shutdown S (thread_id w) p w"
| "conn_act S (ActSendFile p fd off n) w = sendFile S (thread_id w) p fd off n w"
| "conn_act S (ActRetrieve p n) w =
     and_then (conn_deref p w) (\<lambda>c. Inr (conn_set p (c\<lparr>input_buffer := retrieve n (input_buffer c)\<rparr>) w))"
| "conn_act S (ActQueue f) w = Inr (queue_own S f w)"

definition act_code :: "('k, 'y) tcp_sys_scheme \<Rightarrow> ('u user_call \<Rightarrow> 'x action list) \<Rightarrow>
    ('x, 'k, 'u, 'a, 'z) user_code" where
  "act_code S A cl w = fold_r (conn_act S) (A cl) w"

text \<open>Calling a callback that may be empty, after the test of the code.\<close>

definition call_if_set :: "('x, 'k, 'u, 'a, 'z) user_code \<Rightarrow>
    (('u, 'a) connection \<Rightarrow> 'u option) \<Rightarrow> ('u \<Rightarrow> 'u user_call) \<Rightarrow> ptr \<Rightarrow>
    ('x, 'k, 'u, 'a, 'z) world_scheme \<Rightarrow> ('x, 'k, 'u, 'a, 'z) world_result" where
  "call_if_set U slot mk p w =
     and_then (conn_deref p w) (\<lambda>c.
     case slot c of None \<Rightarrow> Inr w | Some u \<Rightarrow> U (mk u) w)"

text \<open>Calling a callback without a test, as the queued closures do.\<close>

definition call_unchecked :: "('x, 'k, 'u, 'a, 'z) user_code \<Rightarrow>
    (('u, 'a) connection \<Rightarrow> 'u option) \<Rightarrow> ptr \<Rightarrow>
    ('x, 'k, 'u, 'a, 'z) world_scheme \<Rightarrow> ('x, 'k, 'u, 'a, 'z) world_result" where
  "call_unchecked U slot p w =
     and_then (conn_deref p w) (\<lambda>c.
     case slot c of None \<Rightarrow> Inl BadFunctionCall | Some u \<Rightarrow> U (UserCall u p) w)"

section \<open>Life cycle and event handlers\<close>

definition connectionEstablished :: "('k, 'y) tcp_sys_scheme \<Rightarrow> ('x, 'k, 'u, 'a, 'z) user_code \<Rightarrow> ptr \<Rightarrow>
    ('x, 'k, 'u, 'a, 'z) world_scheme \<Rightarrow> ('x, 'k, 'u, 'a, 'z) world_result" where
  "connectionEstablished S U p w =
     and_then (conn_deref p w) (\<lambda>c.
     and_then (setState p kConnected w) (\<lambda>w1.
     and_then (tie_channel (conn_channel c) p w1) (\<lambda>w2.
     and_then (enableReading S (conn_channel c) w2) (\<lambda>w3.
     call_if_set U connection_callback (\<lambda>u. UserCall u p) p w3))))"

definition connectionDestroyed :: "('k, 'y) tcp_sys_scheme \<Rightarrow> ('x, 'k, 'u, 'a, 'z) user_code \<Rightarrow> ptr \<Rightarrow>
    ('x, 'k, 'u, 'a, 'z) world_scheme \<Rightarrow> ('x, 'k, 'u, 'a, 'z) world_result" where
  "connectionDestroyed S U p w =
     and_then (conn_deref p w) (\<lambda>c.
     and_then
       (if state c = kConnected \<or> state c = kDisConnecting
        then and_then (setState p kDisConnected w) (\<lambda>w1.
             and_then (disableAll S (conn_channel c) w1) (\<lambda>w2.
             call_if_set U connection_callback (\<lambda>u. UserCall u p) p w2))
        else Inr w)
       (removeChannel S (conn_channel c)))"

definition handleClose :: "('k, 'y) tcp_sys_scheme \<Rightarrow> ('x, 'k, 'u, 'a, 'z) user_code \<Rightarrow> ptr \<Rightarrow>
    ('x, 'k, 'u, 'a, 'z) world_scheme \<Rightarrow> ('x, 'k, 'u, 'a, 'z) world_result" where
  "handleClose S U p w =
     and_then (conn_deref p w) (\<lambda>c.
     and_then (setState p kDisConnected w) (\<lambda>w1.
     and_then (disableAll S (conn_channel c) w1) (\<lambda>w2.
     and_then (call_if_set U connection_callback (\<lambda>u. UserCall u p) p w2) (\<lambda>w3.
     call_if_set U conn_close_callback (\<lambda>u. UserCall u p) p w3))))"

definition handleError :: "('k, 'y) tcp_sys_scheme \<Rightarrow> ('x, 'k, 'u, 'a, 'z) user_code \<Rightarrow> ptr \<Rightarrow>
    ('x, 'k, 'u, 'a, 'z) world_scheme \<Rightarrow> ('x, 'k, 'u, 'a, 'z) world_result" where
  "handleError S U p w =
     and_then (conn_deref p w) (\<lambda>c.
     and_then (ch_deref (conn_channel c) w) (\<lambda>ch.
     handleClose S U p (w\<lparr>kernel := snd (sock_error S (kernel w) (ch_fd ch))\<rparr>)))"

definition conn_handleRead :: "('k, 'y) tcp_sys_scheme \<Rightarrow> ('x, 'k, 'u, 'a, 'z) user_code \<Rightarrow> Timestamp \<Rightarrow> ptr \<Rightarrow>
    ('x, 'k, 'u, 'a, 'z) world_scheme \<Rightarrow> ('x, 'k, 'u, 'a, 'z) world_result" where
  "conn_handleRead S U receive_time p w =
     and_then (conn_deref p w) (\<lambda>c.
     and_then (ch_deref (conn_channel c) w) (\<lambda>ch.
     and_then (readFd (sock_readv S) (ch_fd ch) (kernel w) (input_buffer c)) (\<lambda>(r, k, b).
     let w1 = conn_set p (c\<lparr>input_buffer := b\<rparr>) (w\<lparr>kernel := k\<rparr>)
     in case r of
          SOk n \<Rightarrow> if 0 < n
                    then call_if_set U message_callback (\<lambda>u. UserMessage u p receive_time) p w1
                    else handleClose S U p w1
        | SErr _ \<Rightarrow> handleError S U p w1)))"

definition handleWrite :: "('k, 'y) tcp_sys_scheme \<Rightarrow> ptr \<Rightarrow> ('x, 'k, 'u, 'a, 'z) world_scheme \<Rightarrow>
    ('x, 'k, 'u, 'a, 'z) world_result" where
  "handleWrite S p w =
     and_then (conn_deref p w) (\<lambda>c.
     and_then (ch_deref (conn_channel c) w) (\<lambda>ch.
     if isWriting ch \<and> readableBytes (output_buffer c) \<noteq> 0
     then and_then (writeFd (sock_write S) (ch_fd ch) (kernel w) (output_buffer c)) (\<lambda>(r, k).
          let w1 = w\<lparr>kernel := k\<rparr>
          in case r of
               SOk n \<Rightarrow>
                 if 0 < n
                 then let b = retrieve (of_nat n) (output_buffer c);
                          w2 = conn_set p (c\<lparr>output_buffer := b\<rparr>) w1
                      in and_then
                           (if readableBytes b = 0
                            then and_then (disableWriting S (conn_channel c) w2) (\<lambda>w3.
                                 Inr (if write_complete_callback c \<noteq> None
                                      then queue_own S (WriteComplete p) w3 else w3))
                            else Inr w2) (\<lambda>w4.
                         and_then (conn_deref p w4) (\<lambda>c4.
                         if state c4 = kDisConnecting then shutDownInLoop S p w4 else Inr w4))
                 else Inr w1
             | SErr _ \<Rightarrow> Inr w1)
     else if isWriting ch \<and> sending_file c then sendFileInLoop S p w
     else Inr w))"

section \<open>Running closures and channel callbacks\<close>

fun run_functor :: "('k, 'y) tcp_sys_scheme \<Rightarrow> ('x, 'k, 'u, 'a, 'z) user_code \<Rightarrow>
    ('x \<Rightarrow> ('x, 'k, 'u, 'a, 'z) world_scheme \<Rightarrow> ('x, 'k, 'u, 'a, 'z) world_result) \<Rightarrow>
    'x loop_functor \<Rightarrow> ('x, 'k, 'u, 'a, 'z) world_scheme \<Rightarrow> ('x, 'k, 'u, 'a, 'z) world_result" where
  "run_functor S U other (SendInLoop p data) w = sendInLoop S p data w"
| "run_functor S U other (SendFileInLoop p) w = sendFileInLoop S p w"
| "run_functor S U other (ShutDownInLoop p) w = shutDownInLoop S p w"
| "run_functor S U other (WriteComplete p) w = call_unchecked U write_complete_callback p w"
| "run_functor S U other (HighWaterMark p) w = call_unchecked U high_water_mark_callback p w"
| "run_functor S U other (ConnectionEstablished p) w = connectionEstablished S U p w"
| "run_functor S U other (ConnectionDestroyed p) w = connectionDestroyed S U p w"
| "run_functor S U other (OtherFunctor x) w = other x w"

fun conn_invoke :: "('k, 'y) tcp_sys_scheme \<Rightarrow> ('x, 'k, 'u, 'a, 'z) user_code \<Rightarrow>
    ('x call \<Rightarrow> ('x, 'k, 'u, 'a, 'z) world_scheme \<Rightarrow> ('x, 'k, 'u, 'a, 'z) world_result) \<Rightarrow>
    'x channel_cb call \<Rightarrow> ('x, 'k, 'u, 'a, 'z) world_scheme \<Rightarrow> ('x, 'k, 'u, 'a, 'z) world_result" where
  "conn_invoke S U other (CallRead (ConnRead p) t) w = conn_handleRead S U t p w"
| "conn_invoke S U other (Call (ConnWrite p)) w = handleWrite S p w"
| "conn_invoke S U other (Call (ConnClose p)) w = handleClose S U p w"
| "conn_invoke S U other (Call (ConnError p)) w = handleError S U p w"
| "conn_invoke S U other (Call (OtherCallback x)) w = other (Call x) w"
| "conn_invoke S U other (CallRead (OtherCallback x) t) w = other (CallRead x t) w"
| "conn_invoke S U other _ w = Inl BadFunctionCall"

end
