(* ===== verification/Tcp_Stream.thy ===== *)
theory Tcp_Stream
  imports Tcp_Connection
begin

text \<open>
  The byte stream of a connection.  An abstract connection has the bytes the kernel has
  taken, the bytes still waiting and a closed write end; sending, flushing and shutting
  down are one line each.  The lemmas show that the operations of \<open>TcpConnection\<close> simulate
  the abstract ones, whatever the kernel answers, and the properties read the guarantees
  off the abstract runs.
\<close>

section \<open>What is asked of the sockets\<close>

text \<open>
  A view of the kernel: the interest list and the open descriptors, the bytes each socket has
  accepted for sending and the sockets whose write end is shut down.
\<close>

record 'k net_view =
  nv_interest :: "'k \<Rightarrow> int \<rightharpoonup> epoll_event"
  nv_opened :: "'k \<Rightarrow> int set"
  nv_out :: "'k \<Rightarrow> int \<Rightarrow> byte list"
  nv_shut :: "'k \<Rightarrow> int set"

definition io_same :: "'k net_view \<Rightarrow> 'k \<Rightarrow> 'k \<Rightarrow> bool" where
  "io_same V k k' \<longleftrightarrow> nv_interest V k' = nv_interest V k \<and> nv_opened V k' = nv_opened V k \<and>
     nv_out V k' = nv_out V k \<and> nv_shut V k' = nv_shut V k"

definition tcp_laws :: "('k, 'y) tcp_sys_scheme \<Rightarrow> 'k net_view \<Rightarrow> bool" where
  "tcp_laws S V \<longleftrightarrow>
     epoll_laws S (nv_interest V) (nv_opened V) \<and>
     (\<forall>k fd. io_same V k (snd (eventfd_write S k fd))) \<and>
     (\<forall>k operation fd ev. nv_out V (snd (epoll_ctl S k operation fd ev)) = nv_out V k \<and>
        nv_shut V (snd (epoll_ctl S k operation fd ev)) = nv_shut V k) \<and>
     (\<forall>k fd bs r k'. sock_write S k fd bs = (r, k') \<longrightarrow>
        nv_interest V k' = nv_interest V k \<and> nv_opened V k' = nv_opened V k \<and> nv_shut V k' = nv_shut V k \<and>
        (case r of SOk n \<Rightarrow> n \<le> length bs \<and> nv_out V k' = (nv_out V k)(fd := nv_out V k fd @ take n bs)
         | SErr e \<Rightarrow> nv_out V k' = nv_out V k)) \<and>
     (\<forall>k fd. nv_interest V (snd (sock_shutdown_wr S k fd)) = nv_interest V k \<and>
        nv_opened V (snd (sock_shutdown_wr S k fd)) = nv_opened V k \<and>
        nv_out V (snd (sock_shutdown_wr S k fd)) = nv_out V k \<and>
        nv_shut V (snd (sock_shutdown_wr S k fd)) = insert fd (nv_shut V k))"

lemmas tcp_epoll = tcp_laws_def [THEN iffD1, THEN conjunct1]
lemmas tcp_eventfd = tcp_laws_def [THEN iffD1, THEN conjunct2, THEN conjunct1, rule_format]
lemmas tcp_ctl = tcp_laws_def [THEN iffD1, THEN conjunct2, THEN conjunct2, THEN conjunct1, rule_format]
lemmas tcp_write = tcp_laws_def [THEN iffD1, THEN conjunct2, THEN conjunct2, THEN conjunct2, THEN conjunct1, rule_format]
lemmas tcp_shutdown = tcp_laws_def [THEN iffD1, THEN conjunct2, THEN conjunct2, THEN conjunct2, THEN conjunct2, rule_format]

section \<open>The abstract connection\<close>

record abs_conn =
  a_state :: StateE
  a_sent :: "byte list"
  a_waiting :: "byte list"
  a_closed :: bool

definition broken :: "int \<Rightarrow> bool" where
  "broken e \<longleftrightarrow> e = EPIPE \<or> e = ECONNRESET"

text \<open>
  Sending: nothing when closing or closed; behind the waiting bytes if there are some; else the
  kernel is offered the data and what it leaves waits, unless the connection is broken.
\<close>

definition a_send :: "byte list \<Rightarrow> nat sysret \<Rightarrow> abs_conn \<Rightarrow> abs_conn" where
  "a_send data r a =
     (if a_state a = kDisConnected \<or> a_state a = kDisConnecting then a
      else if a_waiting a \<noteq> [] then a\<lparr>a_waiting := a_waiting a @ data\<rparr>
      else case r of
             SOk n \<Rightarrow> a\<lparr>a_sent := a_sent a @ take n data, a_waiting := drop n data\<rparr>
           | SErr e \<Rightarrow> if broken e then a else a\<lparr>a_waiting := data\<rparr>)"

definition a_flush :: "nat sysret \<Rightarrow> abs_conn \<Rightarrow> abs_conn" where
  "a_flush r a =
     (if a_waiting a = [] \<or> a_state a = kDisConnected then a
      else case r of
             SOk n \<Rightarrow> a\<lparr>a_sent := a_sent a @ take n (a_waiting a), a_waiting := drop n (a_waiting a),
                       a_closed := a_closed a \<or> (n \<ge> length (a_waiting a) \<and> a_state a = kDisConnecting)\<rparr>
           | SErr e \<Rightarrow> a)"

definition a_shutdown :: "abs_conn \<Rightarrow> abs_conn" where
  "a_shutdown a =
     (if a_state a = kConnected
      then a\<lparr>a_state := kDisConnecting, a_closed := a_closed a \<or> a_waiting a = []\<rparr> else a)"

text \<open>The connection at address \<open>p\<close>, established and not sending a file, is in the abstract state \<open>a\<close>.\<close>

definition conn_chan_ok :: "'k net_view \<Rightarrow> ('u, 'a) connection \<Rightarrow> 'x channel_cb channel \<Rightarrow>
    ('x, 'k, 'u, 'a, 'z) world_scheme \<Rightarrow> bool" where
  "conn_chan_ok V c ch w \<longleftrightarrow> channel_heap w (conn_channel c) = Some ch \<and> ch_fd ch = socket_fd c \<and>
     socket_fd c \<in> nv_opened V (kernel w) \<and> channels w (socket_fd c) = Some (conn_channel c)"

definition sim_at :: "'k net_view \<Rightarrow> ptr \<Rightarrow> ('x, 'k, 'u, 'a, 'z) world_scheme \<Rightarrow> abs_conn \<Rightarrow>
    ('u, 'a) connection \<Rightarrow> 'x channel_cb channel \<Rightarrow> bool" where
  "sim_at V p w a c ch \<longleftrightarrow> poller_inv (nv_interest V) w \<and> conns w p = Some c \<and> conn_chan_ok V c ch w \<and>
     buf_inv (output_buffer c) \<and> \<not> sending_file c \<and>
     state c = a_state a \<and> contents (output_buffer c) = a_waiting a \<and>
     nv_out V (kernel w) (socket_fd c) = a_sent a \<and>
     (socket_fd c \<in> nv_shut V (kernel w) \<longleftrightarrow> a_closed a) \<and>
     (isWriting ch \<longleftrightarrow> a_waiting a \<noteq> [] \<and> a_state a \<noteq> kDisConnected)"

definition sim :: "'k net_view \<Rightarrow> ptr \<Rightarrow> ('x, 'k, 'u, 'a, 'z) world_scheme \<Rightarrow> abs_conn \<Rightarrow> bool" where
  "sim V p w a \<longleftrightarrow> (\<exists>c ch. sim_at V p w a c ch)"

section \<open>Frames\<close>

lemma conn_set_sel [simp]:
  "conns (conn_set p c w) = (conns w)(p \<mapsto> c)" "kernel (conn_set p c w) = kernel w"
  "channel_heap (conn_set p c w) = channel_heap w" "channels (conn_set p c w) = channels w"
  "pendingFunctors (conn_set p c w) = pendingFunctors w" "thread_id (conn_set p c w) = thread_id w"
  by (simp_all add: conn_set_def)

lemma conn_deref_Some: "conns w p = Some c \<Longrightarrow> conn_deref p w = Inr c"
  by (simp add: conn_deref_def)

lemma queue_own_sel [simp]:
  "conns (queue_own S f w) = conns w" "channel_heap (queue_own S f w) = channel_heap w"
  "channels (queue_own S f w) = channels w" "thread_id (queue_own S f w) = thread_id w"
  "pendingFunctors (queue_own S f w) = pendingFunctors w @ [f]"
  by (simp_all add: queue_own_def queueInLoop_def push_functor_def wakeUp_def Let_def)

lemma io_same_refl [simp]: "io_same V k k"
  by (simp add: io_same_def)

lemma queue_own_io:
  assumes "tcp_laws S V"
  shows "io_same V (kernel w) (kernel (queue_own S f w))"
  using tcp_eventfd [OF assms] by (simp add: queue_own_def queueInLoop_def push_functor_def wakeUp_def Let_def)

lemma poller_inv_same:
  assumes "poller_inv interest w" and "channels w' = channels w" and "channel_heap w' = channel_heap w"
    and "interest (kernel w') = interest (kernel w)"
  shows "poller_inv interest w'"
  by (rule poller_inv_cong [OF assms(1)]) (simp_all add: assms)

text \<open>Changing a channel's interest calls \<open>epoll_ctl\<close> at most once.\<close>

lemma ep_update_kernel:
  assumes "ep_update S operation p s = Inr s'"
  shows "\<exists>fd ev. kernel s' = snd (epoll_ctl S (kernel s) operation fd ev)"
proof -
  from assms obtain c where c: "channel_heap s p = Some c" by (auto simp: ep_update_def and_then_Inr_iff)
  obtain r k where rk: "epoll_ctl S (kernel s) operation (ch_fd c) (events c, p) = (r, k)" by fastforce
  with assms c have "kernel s' = k" by (cases r) (auto simp: ep_update_def ch_deref_Some split: if_splits)
  with rk show ?thesis by (metis snd_conv)
qed

lemma setIndex_kernel: "setIndex p i s = Inr s' \<Longrightarrow> kernel s' = kernel s"
  by (auto simp: setIndex_def and_then_Inr_iff)

lemma updateChannel_kernel:
  assumes "updateChannel S p s = Inr s'"
  shows "kernel s' = kernel s \<or> (\<exists>operation fd ev. kernel s' = snd (epoll_ctl S (kernel s) operation fd ev))"
proof -
  from assms obtain c where c: "channel_heap s p = Some c" by (auto simp: updateChannel_def and_then_Inr_iff)
  show ?thesis
    using assms unfolding updateChannel_def ch_deref_Some [OF c] and_then.simps Let_def
    by (auto simp: and_then_Inr_iff split: if_splits dest!: setIndex_kernel ep_update_kernel) blast+
qed

lemma set_events_kernel:
  assumes "set_events S p f s = Inr s'"
  shows "kernel s' = kernel s \<or> (\<exists>operation fd ev. kernel s' = snd (epoll_ctl S (kernel s) operation fd ev))"
proof -
  from assms obtain c where "updateChannel S p (ch_set p c s) = Inr s'"
    by (auto simp: set_events_def and_then_Inr_iff)
  from updateChannel_kernel [OF this] show ?thesis by simp
qed

lemma asked_sel [simp]:
  "conns (asked q ch e k w) = conns w" "thread_id (asked q ch e k w) = thread_id w"
  "pendingFunctors (asked q ch e k w) = pendingFunctors w" "kernel (asked q ch e k w) = k"
  "channel_heap (asked q ch e k w) = (channel_heap w)(q \<mapsto> ch\<lparr>events := e, index := new_index ch e\<rparr>)"
  by (simp_all add: asked_def)

text \<open>A registered channel of an open descriptor changes its interest.\<close>

lemma set_events_world:
  fixes w :: "('x, 'k, 'u, 'a, 'z) world_scheme"
  assumes laws: "tcp_laws S V" and inv: "poller_inv (nv_interest V) w"
    and ch: "channel_heap w q = Some ch" "ch_fd ch \<in> nv_opened V (kernel w)" "channels w (ch_fd ch) = Some q"
  shows "\<exists>w' i. set_events S q f w = Inr w' \<and> poller_inv (nv_interest V) w' \<and>
    channel_heap w' = (channel_heap w)(q \<mapsto> ch\<lparr>events := f (events ch), index := i\<rparr>) \<and>
    channels w' = channels w \<and> conns w' = conns w \<and> thread_id w' = thread_id w \<and>
    pendingFunctors w' = pendingFunctors w \<and> nv_opened V (kernel w') = nv_opened V (kernel w) \<and>
    nv_out V (kernel w') = nv_out V (kernel w) \<and> nv_shut V (kernel w') = nv_shut V (kernel w)"
proof -
  let ?e = "f (events ch)"
  from set_events_ok [OF tcp_epoll [OF laws] inv ch(1,2), of f] ch(3) obtain k' where
    k': "set_events S q f w = Inr (asked q ch ?e k' w)" "poller_inv (nv_interest V) (asked q ch ?e k' w)"
      "nv_opened V k' = nv_opened V (kernel w)" by auto
  have "new_index ch ?e \<noteq> kNew"
    using poller_invD(1) [OF inv ch(1)] ch(3) by (auto simp: new_index_def chan_ok_def index_consts)
  then have "channels (asked q ch ?e k' w) = channels w"
    using ch(3) by (simp add: asked_def fun_upd_idem)
  moreover have "nv_out V k' = nv_out V (kernel w) \<and> nv_shut V k' = nv_shut V (kernel w)"
    using set_events_kernel [OF k'(1)] tcp_ctl [OF laws] by auto
  ultimately show ?thesis using k' by (intro exI [of _ "asked q ch ?e k' w"]) auto
qed

section \<open>Simulation\<close>

lemma sim_at_frame:
  assumes "sim_at V p w a c ch" and "conns w' p = conns w p" and "channel_heap w' = channel_heap w"
    and "channels w' = channels w" and "io_same V (kernel w) (kernel w')"
  shows "sim_at V p w' a c ch"
  using assms(1-4) assms(5) [unfolded io_same_def] poller_inv_same [of "nv_interest V" w w']
  by (simp add: sim_at_def conn_chan_ok_def)

lemma sim_at_queue:
  assumes "tcp_laws S V" and "sim_at V p w a c ch"
  shows "sim_at V p (queue_own S f w) a c ch"
  by (rule sim_at_frame [OF assms(2)]) (simp_all add: queue_own_io [OF assms(1)])

text \<open>The kernel takes some bytes of this socket's data.\<close>

lemma sim_at_write:
  assumes laws: "tcp_laws S V" and s: "sim_at V p w a c ch" and wr: "sock_write S (kernel w) (socket_fd c) bs = (r, k)"
  shows "sim_at V p (w\<lparr>kernel := k\<rparr>)
    (case r of SOk n \<Rightarrow> a\<lparr>a_sent := a_sent a @ take n bs\<rparr> | SErr e \<Rightarrow> a) c ch"
proof -
  note t = tcp_write [OF laws wr]
  have "poller_inv (nv_interest V) (w\<lparr>kernel := k\<rparr>)"
    using s t by - (rule poller_inv_same [of "nv_interest V" w], auto simp: sim_at_def)
  with s t show ?thesis by (cases r) (auto simp: sim_at_def conn_chan_ok_def)
qed

lemma waiting_readable:
  assumes "buf_inv b"
  shows "readableBytes b = 0 \<longleftrightarrow> contents b = []"
  using unat_readable [OF assms] by (metis length_0_conv unat_eq_zero)

text \<open>Changing the write interest of the connection's channel.\<close>

lemma sim_set_events:
  fixes w :: "('x, 'k, 'u, 'a, 'z) world_scheme"
  assumes laws: "tcp_laws S V" and inv: "poller_inv (nv_interest V) w" and ok: "conn_chan_ok V c ch w"
  shows "\<exists>w' ch'. set_events S (conn_channel c) f w = Inr w' \<and> poller_inv (nv_interest V) w' \<and>
    conn_chan_ok V c ch' w' \<and> events ch' = f (events ch) \<and> conns w' = conns w \<and>
    pendingFunctors w' = pendingFunctors w \<and> thread_id w' = thread_id w \<and>
    nv_out V (kernel w') = nv_out V (kernel w) \<and> nv_shut V (kernel w') = nv_shut V (kernel w)"
proof -
  from set_events_world [OF laws inv, of "conn_channel c" ch f] ok obtain w' i where
    "set_events S (conn_channel c) f w = Inr w'" "poller_inv (nv_interest V) w'"
    "channel_heap w' = (channel_heap w)(conn_channel c \<mapsto> ch\<lparr>events := f (events ch), index := i\<rparr>)"
    "channels w' = channels w" "conns w' = conns w" "thread_id w' = thread_id w"
    "pendingFunctors w' = pendingFunctors w" "nv_opened V (kernel w') = nv_opened V (kernel w)"
    "nv_out V (kernel w') = nv_out V (kernel w)" "nv_shut V (kernel w') = nv_shut V (kernel w)"
    by (auto simp: conn_chan_ok_def)
  then show ?thesis
    using ok by (intro exI [of _ w'] exI [of _ "ch\<lparr>events := f (events ch), index := i\<rparr>"])
                (simp add: conn_chan_ok_def)
qed

lemma isWriting_on: "isWriting ch \<longleftrightarrow> True" if "events ch = e OR kWriteEvent"
  using that disj_four [of e] by (simp add: isWriting_def kWriteEvent_def EPOLLOUT_def)

lemma isWriting_off: "isWriting ch \<longleftrightarrow> False" if "events ch = e AND NOT kWriteEvent"
  using that by (simp add: isWriting_def kWriteEvent_def EPOLLOUT_def and.assoc)

text \<open>The tail of \<open>sendInLoop\<close>: the rest goes behind the waiting bytes.\<close>

lemma sim_enqueue:
  assumes laws: "tcp_laws S V" and s: "sim_at V p w a c ch" and st: "a_state a \<noteq> kDisConnected"
    and rest: "rest \<noteq> []" and room: "length (a_waiting a) + 2 * length rest + 8 \<le> vec_max_size"
  shows "\<exists>w'. and_then (append_bytes rest (of_nat (length rest)) (output_buffer c)) (\<lambda>b.
      let w3 = conn_set p (c\<lparr>output_buffer := b\<rparr>) w
      in if \<not> isWriting ch then enableWriting S (conn_channel c) w3 else Inr w3) = Inr w' \<and>
    sim V p w' (a\<lparr>a_waiting := a_waiting a @ rest\<rparr>) \<and> pendingFunctors w' = pendingFunctors w \<and>
    thread_id w' = thread_id w"
proof -
  have len: "unat (of_nat (length rest) :: size_t) = length rest"
    using room vec_max_lt by (intro unat_of_nat_small) auto
  from append_bytes_ok [of "output_buffer c" "of_nat (length rest)" rest] s room obtain b where
    b: "append_bytes rest (of_nat (length rest)) (output_buffer c) = Inr b" "buf_inv b"
      "contents b = a_waiting a @ rest" by (auto simp: len sim_at_def)
  let ?c = "c\<lparr>output_buffer := b\<rparr>" and ?w = "conn_set p (c\<lparr>output_buffer := b\<rparr>) w"
  have inv: "poller_inv (nv_interest V) ?w"
    using s by - (rule poller_inv_same [of "nv_interest V" w], auto simp: sim_at_def)
  have ok: "conn_chan_ok V ?c ch ?w" using s by (simp add: sim_at_def conn_chan_ok_def)
  show ?thesis
  proof (cases "isWriting ch")
    case True
    have "sim_at V p ?w (a\<lparr>a_waiting := a_waiting a @ rest\<rparr>) ?c ch"
      using s b inv ok True st rest by (simp add: sim_at_def)
    then have "sim V p ?w (a\<lparr>a_waiting := a_waiting a @ rest\<rparr>)" unfolding sim_def by blast
    with True b(1) show ?thesis by (intro exI [of _ ?w]) simp
  next
    case False
    from sim_set_events [OF laws inv ok, of "\<lambda>e. e OR kWriteEvent"] obtain w' ch' where
      w': "enableWriting S (conn_channel c) ?w = Inr w'" "poller_inv (nv_interest V) w'"
        "conn_chan_ok V ?c ch' w'" "events ch' = events ch OR kWriteEvent" "conns w' = conns ?w"
        "pendingFunctors w' = pendingFunctors ?w" "thread_id w' = thread_id ?w"
        "nv_out V (kernel w') = nv_out V (kernel w)" "nv_shut V (kernel w') = nv_shut V (kernel w)"
      by (auto simp: enableWriting_def)
    have "sim_at V p w' (a\<lparr>a_waiting := a_waiting a @ rest\<rparr>) ?c ch'"
      using s b w' isWriting_on [OF w'(4)] st rest by (simp add: sim_at_def)
    then have "sim V p w' (a\<lparr>a_waiting := a_waiting a @ rest\<rparr>)" unfolding sim_def by blast
    with False b(1) w' show ?thesis by (intro exI [of _ w']) simp
  qed
qed

text \<open>The notification that the output has reached the high-water mark: only when it crosses it.\<close>

definition crossing :: "ptr \<Rightarrow> ('u, 'a) connection \<Rightarrow> nat \<Rightarrow> nat \<Rightarrow> 'x loop_functor list" where
  "crossing p c old_len added_len =
     (if added_len \<noteq> 0 \<and> unat (high_water_mark c) \<le> old_len + added_len \<and> old_len < unat (high_water_mark c) \<and>
         high_water_mark_callback c \<noteq> None then [HighWaterMark p] else [])"

definition send_tail :: "('k, 'y) tcp_sys_scheme \<Rightarrow> ptr \<Rightarrow> ('u, 'a) connection \<Rightarrow> 'x channel_cb channel \<Rightarrow>
    byte list \<Rightarrow> size_t \<Rightarrow> ('x, 'k, 'u, 'a, 'z) world_scheme \<Rightarrow> ('x, 'k, 'u, 'a, 'z) world_result" where
  "send_tail S p c ch rest remaining w =
     (if remaining \<noteq> 0
      then let old_len = readableBytes (output_buffer c);
               w2 = (if high_water_mark c \<le> old_len + remaining \<and> old_len < high_water_mark c \<and>
                        high_water_mark_callback c \<noteq> None
                     then queue_own S (HighWaterMark p) w else w)
           in and_then (append_bytes rest remaining (output_buffer c)) (\<lambda>b.
              let w3 = conn_set p (c\<lparr>output_buffer := b\<rparr>) w2
              in if \<not> isWriting ch then enableWriting S (conn_channel c) w3 else Inr w3)
      else Inr w)"

lemma sendInLoop_tail:
  assumes "conns w p = Some c" and "channel_heap w (conn_channel c) = Some ch"
    and "state c \<noteq> kDisConnected" and "state c \<noteq> kDisConnecting"
    and "(n, remaining, fault_error, w1) =
      (if \<not> isWriting ch \<and> readableBytes (output_buffer c) = 0 then try_write S p c (ch_fd ch) data w
       else (0, of_nat (length data), False, w))"
  shows "sendInLoop S p data w = (if fault_error then Inr w1 else send_tail S p c ch (drop n data) remaining w1)"
  using assms(1-4) unfolding sendInLoop_def send_tail_def
  by (simp add: conn_deref_Some ch_deref_Some assms(5) [symmetric] Let_def)

lemma sim_tail:
  assumes laws: "tcp_laws S V" and s: "sim_at V p w a c ch" and st: "a_state a \<noteq> kDisConnected"
    and room: "length (a_waiting a) + 2 * length rest + 8 \<le> vec_max_size"
  shows "\<exists>w'. send_tail S p c ch rest (of_nat (length rest)) w = Inr w' \<and>
    sim V p w' (a\<lparr>a_waiting := a_waiting a @ rest\<rparr>) \<and> thread_id w' = thread_id w \<and>
    pendingFunctors w' = pendingFunctors w @ crossing p c (length (a_waiting a)) (length rest)"
proof (cases "rest = []")
  case True
  with s show ?thesis by (auto simp: send_tail_def sim_def crossing_def)
next
  case False
  define remaining :: size_t where "remaining = of_nat (length rest)"
  define old_len where "old_len = readableBytes (output_buffer c)"
  have inv: "buf_inv (output_buffer c)" and cont: "contents (output_buffer c) = a_waiting a"
    using s by (auto simp: sim_at_def)
  have len: "unat remaining = length rest"
    unfolding remaining_def using room vec_max_lt by (intro unat_of_nat_small) auto
  have old: "unat old_len = length (a_waiting a)"
    using unat_readable [OF inv] cont by (simp add: old_len_def)
  have sum: "unat (old_len + remaining) = length (a_waiting a) + length rest"
    using room vec_max_lt old len by (subst unat_add_nowrap) auto
  have "remaining \<noteq> 0" using False len by auto
  let ?hwm = "high_water_mark c \<le> old_len + remaining \<and> old_len < high_water_mark c \<and> high_water_mark_callback c \<noteq> None"
  let ?w = "if ?hwm then queue_own S (HighWaterMark p) w else w"
  have note_eq: "pendingFunctors ?w = pendingFunctors w @ crossing p c (length (a_waiting a)) (length rest)"
    using False by (auto simp: crossing_def word_cmp sum old)
  have "sim_at V p ?w a c ch" using sim_at_queue [OF laws s] s by simp
  from sim_enqueue [OF laws this st False room] \<open>remaining \<noteq> 0\<close> note_eq show ?thesis
    by (auto simp: send_tail_def remaining_def old_len_def)
qed

text \<open>What \<open>sendInLoop\<close> queues, and the bytes it leaves waiting.\<close>

definition left_over :: "byte list \<Rightarrow> nat sysret \<Rightarrow> abs_conn \<Rightarrow> byte list" where
  "left_over data r a =
     (if a_waiting a \<noteq> [] then data
      else case r of SOk n \<Rightarrow> drop n data | SErr e \<Rightarrow> if broken e then [] else data)"

definition send_notes :: "ptr \<Rightarrow> ('u, 'a) connection \<Rightarrow> byte list \<Rightarrow> nat sysret \<Rightarrow> abs_conn \<Rightarrow> 'x loop_functor list" where
  "send_notes p c data r a =
     (if a_state a = kDisConnected \<or> a_state a = kDisConnecting then []
      else (if a_waiting a = [] \<and> r = SOk (length data) \<and> write_complete_callback c \<noteq> None
            then [WriteComplete p] else []) @
           crossing p c (length (a_waiting a)) (length (left_over data r a)))"

lemma broken_iff: "e \<noteq> EWOULDBLOCK \<and> (e = EPIPE \<or> e = ECONNRESET) \<longleftrightarrow> broken e"
  by (auto simp: broken_def EWOULDBLOCK_def EPIPE_def ECONNRESET_def)

text \<open>Nothing waits: the data goes to the kernel first.\<close>

lemma direct_send:
  assumes s: "sim_at V p w a c ch" and op: "a_state a \<noteq> kDisConnected" "a_state a \<noteq> kDisConnecting" and none: "a_waiting a = []"
    and wr: "try_write S p c (socket_fd c) data w = (n, rest, fault, w1)"
  shows "sendInLoop S p data w = (if fault then Inr w1 else send_tail S p c ch (drop n data) rest w1)"
proof -
  have c: "conns w p = Some c" "channel_heap w (conn_channel c) = Some ch" "ch_fd ch = socket_fd c" "state c = a_state a"
    "\<not> isWriting ch" "readableBytes (output_buffer c) = 0"
    using s none waiting_readable [of "output_buffer c"] by (auto simp: sim_at_def conn_chan_ok_def)
  from sendInLoop_tail [OF c(1,2), of n rest fault w1 S data] wr op c show ?thesis by simp
qed

lemma sim_send_refused:
  assumes laws: "tcp_laws S V" and s: "sim_at V p w a c ch"
    and room: "length (a_waiting a) + 2 * length data + 8 \<le> vec_max_size"
    and wr: "sock_write S (kernel w) (socket_fd c) data = (SErr e, k)"
    and op: "a_state a \<noteq> kDisConnected" "a_state a \<noteq> kDisConnecting" and none: "a_waiting a = []"
  shows "\<exists>w'. sendInLoop S p data w = Inr w' \<and> sim V p w' (a_send data (SErr e) a) \<and> thread_id w' = thread_id w \<and>
    pendingFunctors w' = pendingFunctors w @ send_notes p c data (SErr e) a"
proof -
  have "try_write S p c (socket_fd c) data w = (0, of_nat (length data), broken e, w\<lparr>kernel := k\<rparr>)"
    using wr by (simp add: try_write_def broken_iff)
  note run = direct_send [OF s op none this]
  have s2: "sim_at V p (w\<lparr>kernel := k\<rparr>) a c ch" using sim_at_write [OF laws s wr] by simp
  show ?thesis
  proof (cases "broken e")
    case True
    with s2 run none op show ?thesis
      by (auto simp: a_send_def send_notes_def left_over_def crossing_def sim_def)
  next
    case False
    with sim_tail [OF laws s2 _ room] run none op show ?thesis
      by (auto simp: a_send_def send_notes_def left_over_def)
  qed
qed

lemma sim_send_taken:
  assumes laws: "tcp_laws S V" and s: "sim_at V p w a c ch"
    and room: "length (a_waiting a) + 2 * length data + 8 \<le> vec_max_size"
    and wr: "sock_write S (kernel w) (socket_fd c) data = (SOk n, k)"
    and op: "a_state a \<noteq> kDisConnected" "a_state a \<noteq> kDisConnecting" and none: "a_waiting a = []"
  shows "\<exists>w'. sendInLoop S p data w = Inr w' \<and> sim V p w' (a_send data (SOk n) a) \<and> thread_id w' = thread_id w \<and>
    pendingFunctors w' = pendingFunctors w @ send_notes p c data (SOk n) a"
proof -
  have small: "length data < 18446744073709551616" using room vec_max_lt by auto
  have n: "n \<le> length data" using tcp_write [OF laws wr] by simp
  let ?rest = "drop n data"
  have rem: "of_nat (length data) - of_nat n = (of_nat (length ?rest) :: size_t)"
    using n by (simp add: of_nat_diff)
  have zero: "(of_nat (length ?rest) :: size_t) = 0 \<longleftrightarrow> n = length data"
    using n small unat_of_nat_small [of "length data - n"] by (auto simp: unat_eq_zero [symmetric])
  have all_taken: "(of_nat (length data) :: size_t) = of_nat n \<longleftrightarrow> n = length data"
    using zero rem by (metis right_minus_eq)
  let ?a = "a\<lparr>a_sent := a_sent a @ take n data\<rparr>"
  let ?done = "n = length data \<and> write_complete_callback c \<noteq> None"
  let ?w = "if ?done then queue_own S (WriteComplete p) (w\<lparr>kernel := k\<rparr>) else w\<lparr>kernel := k\<rparr>"
  have "try_write S p c (socket_fd c) data w = (n, of_nat (length ?rest), False, ?w)"
    using wr rem all_taken by (auto simp: try_write_def)
  note run = direct_send [OF s op none this]
  have s2: "sim_at V p (w\<lparr>kernel := k\<rparr>) ?a c ch" using sim_at_write [OF laws s wr] by simp
  with sim_at_queue [OF laws s2] have s3: "sim_at V p ?w ?a c ch" by presburger
  have "length (a_waiting ?a) + 2 * length ?rest + 8 \<le> vec_max_size" using room none by simp
  from sim_tail [OF laws s3 _ this] op obtain w' where
    w': "sendInLoop S p data w = Inr w'" "sim V p w' (?a\<lparr>a_waiting := a_waiting ?a @ ?rest\<rparr>)" "thread_id w' = thread_id ?w"
      "pendingFunctors w' = pendingFunctors ?w @ crossing p c (length (a_waiting ?a)) (length ?rest)"
    unfolding run by auto
  have "pendingFunctors ?w = pendingFunctors w @ (if ?done then [WriteComplete p] else [])" "thread_id ?w = thread_id w" by simp_all
  with w' none op show ?thesis by (auto simp: a_send_def send_notes_def left_over_def)
qed

lemma sim_send:
  assumes laws: "tcp_laws S V" and s: "sim_at V p w a c ch"
    and room: "length (a_waiting a) + 2 * length data + 8 \<le> vec_max_size"
    and wr: "sock_write S (kernel w) (socket_fd c) data = (r, k)"
  shows "\<exists>w'. sendInLoop S p data w = Inr w' \<and> sim V p w' (a_send data r a) \<and> thread_id w' = thread_id w \<and>
    pendingFunctors w' = pendingFunctors w @ send_notes p c data r a"
proof -
  consider (closed) "a_state a = kDisConnected \<or> a_state a = kDisConnecting"
    | (direct) "a_state a \<noteq> kDisConnected" "a_state a \<noteq> kDisConnecting" "a_waiting a = []"
    | (behind) "a_state a \<noteq> kDisConnected" "a_state a \<noteq> kDisConnecting" "a_waiting a \<noteq> []" by blast
  then show ?thesis
  proof cases
    case closed
    with s have "sendInLoop S p data w = Inr w" by (auto simp: sendInLoop_def sim_at_def conn_deref_Some)
    with closed s show ?thesis by (auto simp: a_send_def send_notes_def sim_def)
  next
    case direct
    with sim_send_taken [OF laws s room] sim_send_refused [OF laws s room] wr show ?thesis by (cases r) auto
  next
    case behind
    have c: "conns w p = Some c" "channel_heap w (conn_channel c) = Some ch" "state c = a_state a" "isWriting ch"
      using s behind by (auto simp: sim_at_def conn_chan_ok_def)
    then have "sendInLoop S p data w = send_tail S p c ch data (of_nat (length data)) w"
      using sendInLoop_tail [OF c(1,2), of 0 "of_nat (length data)" False w S data] behind by simp
    with sim_tail [OF laws s _ room] behind show ?thesis
      by (auto simp: a_send_def send_notes_def left_over_def)
  qed
qed

lemma sim_shutDownInLoop:
  assumes laws: "tcp_laws S V" and s: "sim_at V p w a c ch" and st: "a_state a \<noteq> kDisConnected"
  shows "\<exists>w'. shutDownInLoop S p w = Inr w' \<and>
    sim_at V p w' (a\<lparr>a_closed := a_closed a \<or> a_waiting a = []\<rparr>) c ch \<and>
    pendingFunctors w' = pendingFunctors w \<and> thread_id w' = thread_id w"
proof -
  have c: "conns w p = Some c" "channel_heap w (conn_channel c) = Some ch" "isWriting ch \<longleftrightarrow> a_waiting a \<noteq> []"
    using s st by (auto simp: sim_at_def conn_chan_ok_def)
  note t = tcp_shutdown [OF laws, of "kernel w" "socket_fd c"]
  have inv: "poller_inv (nv_interest V) (shutDownWrite S (socket_fd c) w)"
    using s t by - (rule poller_inv_same [of "nv_interest V" w], auto simp: sim_at_def shutDownWrite_def)
  show ?thesis
  proof (cases "isWriting ch")
    case True
    with s c show ?thesis
      by (intro exI [of _ w]) (auto simp: shutDownInLoop_def conn_deref_Some ch_deref_Some sim_at_def)
  next
    case False
    with s c inv t st show ?thesis
      by (intro exI [of _ "shutDownWrite S (socket_fd c) w"])
         (auto simp: shutDownInLoop_def conn_deref_Some ch_deref_Some sim_at_def conn_chan_ok_def shutDownWrite_def)
  qed
qed

lemma sim_shutdown:
  assumes laws: "tcp_laws S V" and s: "sim_at V p w a c ch"
  shows "\<exists>w'. shutdown S (thread_id w) p w = Inr w' \<and> sim V p w' (a_shutdown a) \<and>
    pendingFunctors w' = pendingFunctors w \<and> thread_id w' = thread_id w"
proof (cases "a_state a = kConnected")
  case False
  with s have "shutdown S (thread_id w) p w = Inr w"
    by (auto simp: shutdown_def sim_at_def conn_deref_Some)
  with False s show ?thesis by (auto simp: a_shutdown_def sim_def)
next
  case True
  let ?c = "c\<lparr>state := kDisConnecting\<rparr>" and ?a = "a\<lparr>a_state := kDisConnecting\<rparr>"
  let ?w = "conn_set p ?c w"
  have "poller_inv (nv_interest V) ?w"
    using s by - (rule poller_inv_same [of "nv_interest V" w], auto simp: sim_at_def)
  then have "sim_at V p ?w ?a ?c ch"
    using s True by (auto simp: sim_at_def conn_chan_ok_def)
  from sim_shutDownInLoop [OF laws this] obtain w' where
    w': "shutDownInLoop S p ?w = Inr w'"
      "sim_at V p w' (?a\<lparr>a_closed := a_closed ?a \<or> a_waiting ?a = []\<rparr>) ?c ch"
      "pendingFunctors w' = pendingFunctors ?w" "thread_id w' = thread_id ?w" by auto
  have "shutdown S (thread_id w) p w = Inr w'"
    using s True w'(1)
    by (auto simp: shutdown_def setState_def sim_at_def conn_deref_Some runInLoop_def isInLoopThread_def)
  with w' True show ?thesis by (auto simp: a_shutdown_def sim_def)
qed

definition flush_notes :: "ptr \<Rightarrow> ('u, 'a) connection \<Rightarrow> nat sysret \<Rightarrow> abs_conn \<Rightarrow> 'x loop_functor list" where
  "flush_notes p c r a =
     (if a_waiting a \<noteq> [] \<and> a_state a \<noteq> kDisConnected \<and> r = SOk (length (a_waiting a)) \<and>
         write_complete_callback c \<noteq> None then [WriteComplete p] else [])"

text \<open>The part of \<open>handleWrite\<close> after the kernel took \<open>n\<close> bytes.\<close>

text \<open>After a write: a connection that is shutting down and has nothing left closes its write end.\<close>

lemma sim_finish:
  assumes laws: "tcp_laws S V" and s: "sim_at V p w a c ch" and st: "a_state a \<noteq> kDisConnected"
  shows "\<exists>w'. and_then (conn_deref p w) (\<lambda>c. if state c = kDisConnecting then shutDownInLoop S p w else Inr w) = Inr w' \<and>
    sim V p w' (a\<lparr>a_closed := a_closed a \<or> (a_waiting a = [] \<and> a_state a = kDisConnecting)\<rparr>) \<and>
    pendingFunctors w' = pendingFunctors w \<and> thread_id w' = thread_id w"
proof (cases "a_state a = kDisConnecting")
  case True
  with sim_shutDownInLoop [OF laws s] s show ?thesis by (auto simp: sim_at_def conn_deref_Some sim_def)
next
  case False
  with s show ?thesis by (intro exI [of _ w]) (auto simp: sim_at_def conn_deref_Some sim_def)
qed

lemma sim_written:
  assumes laws: "tcp_laws S V" and s: "sim_at V p w a c ch" and st: "a_state a \<noteq> kDisConnected"
    and n: "0 < n" "n \<le> length (a_waiting a)"
  defines "b \<equiv> retrieve (of_nat n) (output_buffer c)"
  defines "w2 \<equiv> conn_set p (c\<lparr>output_buffer := b\<rparr>) w"
  shows "\<exists>w'. and_then
       (if readableBytes b = 0
        then and_then (disableWriting S (conn_channel c) w2) (\<lambda>w3.
             Inr (if write_complete_callback c \<noteq> None then queue_own S (WriteComplete p) w3 else w3))
        else Inr w2) (\<lambda>w4.
       and_then (conn_deref p w4) (\<lambda>c4.
       if state c4 = kDisConnecting then shutDownInLoop S p w4 else Inr w4)) = Inr w' \<and>
    sim V p w' (a\<lparr>a_waiting := drop n (a_waiting a),
      a_closed := a_closed a \<or> (n = length (a_waiting a) \<and> a_state a = kDisConnecting)\<rparr>) \<and>
    thread_id w' = thread_id w \<and>
    pendingFunctors w' = pendingFunctors w @
      (if n = length (a_waiting a) \<and> write_complete_callback c \<noteq> None then [WriteComplete p] else [])"
proof -
  let ?c = "c\<lparr>output_buffer := b\<rparr>" and ?a = "a\<lparr>a_waiting := drop n (a_waiting a)\<rparr>"
  have inv: "buf_inv (output_buffer c)" "contents (output_buffer c) = a_waiting a"
    using s by (auto simp: sim_at_def)
  have small: "unat (of_nat n :: size_t) = n"
    using n unat_readable [OF inv(1)] inv(2) unat_bound64 [of "readableBytes (output_buffer c)"]
    by (intro unat_of_nat_small) simp
  have b: "buf_inv b" "contents b = drop n (a_waiting a)"
    using retrieve_ok [OF inv(1), of "of_nat n"] by (simp_all add: b_def small inv(2))
  have zero: "readableBytes b = 0 \<longleftrightarrow> n = length (a_waiting a)"
    using waiting_readable [OF b(1)] b(2) n by auto
  have w2: "poller_inv (nv_interest V) w2" "conn_chan_ok V ?c ch w2" "conns w2 p = Some ?c"
    "kernel w2 = kernel w" "pendingFunctors w2 = pendingFunctors w" "thread_id w2 = thread_id w"
  proof -
    show "poller_inv (nv_interest V) w2"
      using s unfolding w2_def by - (rule poller_inv_same [of "nv_interest V" w], auto simp: sim_at_def)
  qed (use s in \<open>simp_all add: w2_def sim_at_def conn_chan_ok_def\<close>)
  show ?thesis
  proof (cases "n = length (a_waiting a)")
    case False
    have "sim_at V p w2 ?a ?c ch"
      using s w2 b False n st by (auto simp: sim_at_def)
    from sim_finish [OF laws this] st n False zero w2 show ?thesis by auto
  next
    case True
    from sim_set_events [OF laws w2(1,2), of "\<lambda>e. e AND NOT kWriteEvent"] obtain w3 ch3 where
      w3: "disableWriting S (conn_channel c) w2 = Inr w3" "poller_inv (nv_interest V) w3"
        "conn_chan_ok V ?c ch3 w3" "events ch3 = events ch AND NOT kWriteEvent" "conns w3 = conns w2"
        "pendingFunctors w3 = pendingFunctors w2" "thread_id w3 = thread_id w2"
        "nv_out V (kernel w3) = nv_out V (kernel w2)" "nv_shut V (kernel w3) = nv_shut V (kernel w2)"
      by (auto simp: disableWriting_def)
    have s3: "sim_at V p w3 ?a ?c ch3"
      using s w2 w3 b isWriting_off [OF w3(4)] True by (simp add: sim_at_def)
    define w4 where "w4 = (if write_complete_callback c \<noteq> None then queue_own S (WriteComplete p) w3 else w3)"
    have "sim_at V p w4 ?a ?c ch3" using s3 sim_at_queue [OF laws s3] unfolding w4_def by presburger
    note fin = sim_finish [OF laws this]
    have "pendingFunctors w4 = pendingFunctors w @ (if write_complete_callback c \<noteq> None then [WriteComplete p] else [])"
      "thread_id w4 = thread_id w"
      using w3(6,7) w2 by (auto simp: w4_def)
    moreover have first: "(if readableBytes b = 0
        then and_then (disableWriting S (conn_channel c) w2) (\<lambda>w3.
             Inr (if write_complete_callback c \<noteq> None then queue_own S (WriteComplete p) w3 else w3))
        else Inr w2) = Inr w4"
      using True zero w3(1) by (simp add: w4_def)
    ultimately show ?thesis using fin True st unfolding first by auto
  qed
qed

lemma sim_flush:
  assumes laws: "tcp_laws S V" and s: "sim_at V p w a c ch"
    and wr: "sock_write S (kernel w) (socket_fd c) (a_waiting a) = (r, k)"
  shows "\<exists>w'. handleWrite S p w = Inr w' \<and> sim V p w' (a_flush r a) \<and> thread_id w' = thread_id w \<and>
    pendingFunctors w' = pendingFunctors w @ flush_notes p c r a"
proof -
  have c: "conns w p = Some c" "channel_heap w (conn_channel c) = Some ch" "ch_fd ch = socket_fd c"
    "\<not> sending_file c" "buf_inv (output_buffer c)" "contents (output_buffer c) = a_waiting a"
    "isWriting ch \<longleftrightarrow> a_waiting a \<noteq> [] \<and> a_state a \<noteq> kDisConnected"
    using s by (auto simp: sim_at_def conn_chan_ok_def)
  note start = handleWrite_def conn_deref_Some [OF c(1)] ch_deref_Some [OF c(2)] c(3)
    writeFd_ok [OF c(5)] c(6) wr waiting_readable [OF c(5)]
  show ?thesis
  proof (cases "a_waiting a = [] \<or> a_state a = kDisConnected")
    case True
    with c have "handleWrite S p w = Inr w" by (auto simp: start)
    with True s show ?thesis by (auto simp: a_flush_def flush_notes_def sim_def)
  next
    case False
    note s1 = sim_at_write [OF laws s wr]
    show ?thesis
    proof (cases r)
      case (SErr e)
      with False c(7) have "handleWrite S p w = Inr (w\<lparr>kernel := k\<rparr>)" by (simp add: start)
      with False s1 SErr show ?thesis by (auto simp: a_flush_def flush_notes_def sim_def)
    next
      case (SOk n)
      have n: "n \<le> length (a_waiting a)" using tcp_write [OF laws wr] SOk by simp
      let ?a = "a\<lparr>a_sent := a_sent a @ take n (a_waiting a)\<rparr>"
      from s1 SOk have s2: "sim_at V p (w\<lparr>kernel := k\<rparr>) ?a c ch" by simp
      show ?thesis
      proof (cases "n = 0")
        case True
        with False c(7) SOk have "handleWrite S p w = Inr (w\<lparr>kernel := k\<rparr>)" by (simp add: start)
        moreover have "a_flush r a = ?a" using True False SOk by (simp add: a_flush_def)
        ultimately show ?thesis using False s2 SOk True by (auto simp: flush_notes_def sim_def)
      next
        case pos: False
        from sim_written [OF laws s2, of n] pos n False obtain w' where
          "handleWrite S p w = Inr w'"
          "sim V p w' (?a\<lparr>a_waiting := drop n (a_waiting a),
             a_closed := a_closed a \<or> (n = length (a_waiting a) \<and> a_state a = kDisConnecting)\<rparr>)"
          "thread_id w' = thread_id w"
          "pendingFunctors w' = pendingFunctors w @
             (if n = length (a_waiting a) \<and> write_complete_callback c \<noteq> None then [WriteComplete p] else [])"
          using c(7) SOk by (auto simp: start Let_def)
        moreover have "length (a_waiting a) \<le> n \<longleftrightarrow> n = length (a_waiting a)" using n by auto
        ultimately show ?thesis
          using False SOk by (simp add: a_flush_def flush_notes_def)
      qed
    qed
  qed
qed

section \<open>Runs of a connection\<close>

text \<open>The data of a call of \<open>sendInLoop\<close> if the connection takes it, nothing otherwise.\<close>

definition accepted :: "('k, 'y) tcp_sys_scheme \<Rightarrow> ptr \<Rightarrow> byte list \<Rightarrow> ('x, 'k, 'u, 'a, 'z) world_scheme \<Rightarrow> byte list" where
  "accepted S p data w =
     (case conns w p of None \<Rightarrow> []
      | Some c \<Rightarrow>
          if state c \<noteq> kConnected then []
          else if contents (output_buffer c) \<noteq> [] then data
          else case fst (sock_write S (kernel w) (socket_fd c) data) of
                 SOk n \<Rightarrow> data | SErr e \<Rightarrow> if broken e then [] else data)"

definition has_room :: "ptr \<Rightarrow> byte list \<Rightarrow> ('x, 'k, 'u, 'a, 'z) world_scheme \<Rightarrow> bool" where
  "has_room p data w \<longleftrightarrow> (\<forall>c. conns w p = Some c \<longrightarrow>
     length (contents (output_buffer c)) + 2 * length data + 8 \<le> vec_max_size)"

text \<open>
  What happens to a connection that sends data: calls of \<open>send\<close> in its loop's thread, functors
  of \<open>send\<close> calls of other threads, writability, \<open>shutdown\<close> in the loop's thread, and whatever
  leaves this connection, its channel and its socket alone.  The list is the data accepted.
\<close>

inductive conn_run :: "('k, 'y) tcp_sys_scheme \<Rightarrow> 'k net_view \<Rightarrow> ptr \<Rightarrow> ('x, 'k, 'u, 'a, 'z) world_scheme \<Rightarrow>
    byte list \<Rightarrow> ('x, 'k, 'u, 'a, 'z) world_result \<Rightarrow> bool" for S V p w0 where
  start: "conn_run S V p w0 [] (Inr w0)"
| send: "conn_run S V p w0 acc (Inr w) \<Longrightarrow> has_room p data w \<Longrightarrow>
     conn_run S V p w0 (acc @ accepted S p data w) (send S (thread_id w) p data w)"
| queued_send: "conn_run S V p w0 acc (Inr w) \<Longrightarrow> has_room p data w \<Longrightarrow>
     conn_run S V p w0 (acc @ accepted S p data w) (run_functor S U other (SendInLoop p data) w)"
| writable: "conn_run S V p w0 acc (Inr w) \<Longrightarrow> conn_run S V p w0 acc (handleWrite S p w)"
| shutdown: "conn_run S V p w0 acc (Inr w) \<Longrightarrow> conn_run S V p w0 acc (shutdown S (thread_id w) p w)"
| others: "conn_run S V p w0 acc (Inr w) \<Longrightarrow> conns w' p = conns w p \<Longrightarrow> channel_heap w' = channel_heap w \<Longrightarrow>
     channels w' = channels w \<Longrightarrow> io_same V (kernel w) (kernel w') \<Longrightarrow> conn_run S V p w0 acc (Inr w')"

text \<open>What the abstract runs keep.\<close>

definition stream_inv :: "byte list \<Rightarrow> abs_conn \<Rightarrow> bool" where
  "stream_inv all_data a \<longleftrightarrow> a_sent a @ a_waiting a = all_data \<and> (a_state a = kConnected \<or> a_state a = kDisConnecting) \<and>
     (a_closed a \<longrightarrow> a_waiting a = [] \<and> a_state a = kDisConnecting) \<and>
     (a_state a = kDisConnecting \<longrightarrow> a_closed a \<or> a_waiting a \<noteq> [])"

lemma stream_inv_send:
  assumes "stream_inv all_data a"
  shows "stream_inv (all_data @ (if a_state a \<noteq> kConnected then [] else if a_waiting a \<noteq> [] then data
      else case r of SOk n \<Rightarrow> data | SErr e \<Rightarrow> if broken e then [] else data)) (a_send data r a)"
  using assms by (auto simp: stream_inv_def a_send_def split: sysret.splits)

lemma stream_inv_flush:
  assumes "stream_inv all_data a" and "\<And>n. r = SOk n \<Longrightarrow> n \<le> length (a_waiting a)"
  shows "stream_inv all_data (a_flush r a)"
  using assms by (cases r) (auto simp: stream_inv_def a_flush_def)

lemma stream_inv_shutdown: "stream_inv all_data a \<Longrightarrow> stream_inv all_data (a_shutdown a)"
  by (auto simp: stream_inv_def a_shutdown_def)

lemma accepted_sim:
  assumes "sim_at V p w a c ch" and "sock_write S (kernel w) (socket_fd c) data = (r, k)"
  shows "accepted S p data w = (if a_state a \<noteq> kConnected then [] else if a_waiting a \<noteq> [] then data
      else case r of SOk n \<Rightarrow> data | SErr e \<Rightarrow> if broken e then [] else data)"
  using assms by (auto simp: accepted_def sim_at_def)

lemma stream_send:
  assumes laws: "tcp_laws S V" and s: "sim V p w a" and inv: "stream_inv all_data a" and room: "has_room p data w"
  shows "\<exists>w' a'. sendInLoop S p data w = Inr w' \<and> sim V p w' a' \<and> stream_inv (all_data @ accepted S p data w) a'"
proof -
  from s obtain c ch where c: "sim_at V p w a c ch" by (auto simp: sim_def)
  obtain r k where wr: "sock_write S (kernel w) (socket_fd c) data = (r, k)" by fastforce
  have "length (a_waiting a) + 2 * length data + 8 \<le> vec_max_size"
    using room c by (auto simp: has_room_def sim_at_def)
  from sim_send [OF laws c this wr] stream_inv_send [OF inv, of data r] show ?thesis
    unfolding accepted_sim [OF c wr] by blast
qed

lemma conn_run_sim:
  assumes "conn_run S V p w0 acc r" and laws: "tcp_laws S V" and "sim V p w0 a0" and "stream_inv all_data a0"
  shows "\<exists>w a. r = Inr w \<and> sim V p w a \<and> stream_inv (all_data @ acc) a"
  using assms(1)
proof (induction rule: conn_run.induct)
  case start
  then show ?case using assms(3,4) by auto
next
  case (send acc w data)
  then obtain a where a: "sim V p w a" "stream_inv (all_data @ acc) a" by auto
  from stream_send [OF laws a send.hyps(2)] obtain w' a' where
    w': "sendInLoop S p data w = Inr w'" "sim V p w' a'" "stream_inv ((all_data @ acc) @ accepted S p data w) a'" by blast
  show ?case
  proof (cases "a_state a = kConnected")
    case True
    then have "Tcp_Connection.send S (thread_id w) p data w = sendInLoop S p data w"
      using a(1) by (auto simp: send_def sim_def sim_at_def conn_deref_Some isInLoopThread_def)
    with w' show ?thesis by auto
  next
    case False
    then have "Tcp_Connection.send S (thread_id w) p data w = Inr w" "accepted S p data w = []"
      using a(1) by (auto simp: send_def sim_def sim_at_def conn_deref_Some accepted_def)
    with a show ?thesis by auto
  qed
next
  case (queued_send acc w data U other)
  then obtain a where a: "sim V p w a" "stream_inv (all_data @ acc) a" by auto
  from stream_send [OF laws a queued_send.hyps(2)] show ?case by auto
next
  case (writable acc w)
  then obtain a c ch where a: "sim_at V p w a c ch" "stream_inv (all_data @ acc) a" by (auto simp: sim_def)
  obtain r k where wr: "sock_write S (kernel w) (socket_fd c) (a_waiting a) = (r, k)" by fastforce
  from sim_flush [OF laws a(1) wr] stream_inv_flush [OF a(2), of r] tcp_write [OF laws wr] show ?case
    by fastforce
next
  case (shutdown acc w)
  then obtain a c ch where a: "sim_at V p w a c ch" "stream_inv (all_data @ acc) a" by (auto simp: sim_def)
  from sim_shutdown [OF laws a(1)] stream_inv_shutdown [OF a(2)] show ?case by auto
next
  case (others acc w w')
  then obtain a c ch where a: "sim_at V p w a c ch" "stream_inv (all_data @ acc) a" by (auto simp: sim_def)
  from sim_at_frame [OF a(1) others.hyps(2-5)] a(2) show ?case by (auto simp: sim_def)
qed

section \<open>Properties\<close>

text \<open>A kernel whose sockets take at most two bytes per write, and a connection in it.\<close>

type_synonym sample_net = "sample_kernel \<times> (int \<Rightarrow> byte list) \<times> int set"

definition on_loop :: "(sample_kernel \<Rightarrow> 'r \<times> sample_kernel) \<Rightarrow> sample_net \<Rightarrow> 'r \<times> sample_net" where
  "on_loop f n = (case f (fst n) of (r, k) \<Rightarrow> (r, (k, snd n)))"

definition sample_tcp_sys :: "sample_net tcp_sys" where
  "sample_tcp_sys = \<lparr>
     epoll_ctl = (\<lambda>n operation fd ev. on_loop (\<lambda>k. epoll_ctl sample_loop_sys k operation fd ev) n),
     epoll_wait = (\<lambda>n l t. on_loop (\<lambda>k. epoll_wait sample_loop_sys k l t) n),
     wall_clock = (\<lambda>n. (Timestamp 1, n)),
     eventfd_read = (\<lambda>n fd. on_loop (\<lambda>k. eventfd_read sample_loop_sys k fd) n),
     eventfd_write = (\<lambda>n fd. on_loop (\<lambda>k. eventfd_write sample_loop_sys k fd) n),
     epoll_create = on_loop (epoll_create sample_loop_sys),
     timerfd_create = on_loop (timerfd_create sample_loop_sys),
     eventfd_create = on_loop (eventfd_create sample_loop_sys),
     close_fd = (\<lambda>n fd. n),
     sock_write = (\<lambda>(k, out, shut) fd bs. (SOk (min 2 (length bs)), (k, out(fd := out fd @ take 2 bs), shut))),
     sock_readv = (\<lambda>n fd ls. (SOk [], n)),
     sock_sendfile = (\<lambda>n out_fd in_fd off count. ((SOk 0, off), n)),
     sock_error = (\<lambda>n fd. (SOk 104, n)),
     sock_shutdown_wr = (\<lambda>(k, out, shut) fd. (SOk (), (k, out, insert fd shut))),
     sock_keepalive = (\<lambda>n fd on. n)\<rparr>"

definition sample_view :: "sample_net net_view" where
  "sample_view = \<lparr>nv_interest = sample_interest \<circ> fst, nv_opened = sample_opened \<circ> fst,
     nv_out = (\<lambda>n. fst (snd n)), nv_shut = (\<lambda>n. snd (snd n))\<rparr>"

lemma sample_tcp_epoll_laws: "epoll_laws sample_tcp_sys (nv_interest sample_view) (nv_opened sample_view)"
  using sample_reports
  by (simp add: epoll_laws_def sample_tcp_sys_def sample_loop_sys_def on_loop_def sample_epoll_def sample_view_def
      sample_interest_def sample_opened_def map_of_filter_ne)

lemma sample_tcp_laws: "tcp_laws sample_tcp_sys sample_view"
proof -
  have ctl: "snd (snd (epoll_ctl sample_tcp_sys n operation fd ev)) = snd n" for n operation fd ev
    by (simp add: sample_tcp_sys_def on_loop_def split: prod.split)
  have "sock_write sample_tcp_sys k fd bs = (r, k') \<Longrightarrow>
      nv_interest sample_view k' = nv_interest sample_view k \<and> nv_opened sample_view k' = nv_opened sample_view k \<and>
      nv_shut sample_view k' = nv_shut sample_view k \<and>
      (case r of SOk n \<Rightarrow> n \<le> length bs \<and>
          nv_out sample_view k' = (nv_out sample_view k)(fd := nv_out sample_view k fd @ take n bs)
       | SErr e \<Rightarrow> nv_out sample_view k' = nv_out sample_view k)" for k fd bs r k'
    by (cases k) (auto simp: sample_tcp_sys_def sample_view_def min_def)
  moreover have "io_same sample_view k (snd (eventfd_write sample_tcp_sys k fd))" for k fd
    by (cases k) (auto simp: io_same_def sample_tcp_sys_def sample_loop_sys_def on_loop_def sample_view_def
        sample_interest_def sample_opened_def)
  ultimately show ?thesis
    using sample_tcp_epoll_laws ctl
    by (simp add: tcp_laws_def) (simp add: sample_view_def sample_tcp_sys_def split_beta)
qed

definition sample_conn :: "(nat, nat) connection" where
  "sample_conn = \<lparr>state = kConnected, reading = False, conn_loop = 9, socket_fd = 5, conn_channel = 3, local_addr = 0, peer_addr = 0,
     input_buffer = \<lparr>buf = replicate 16 0, read_index = 8, write_index = 8\<rparr>,
     output_buffer = \<lparr>buf = replicate 16 0, read_index = 8, write_index = 8\<rparr>,
     high_water_mark = 4, connection_callback = None, conn_close_callback = Some 1, write_complete_callback = Some 2,
     high_water_mark_callback = Some 3, message_callback = None, conn_name = ''c'', sending_file = False,
     fd_to_send = 0, fd_offset = 0, file_count = 0\<rparr>"

definition sample_channel :: "nat channel_cb channel" where
  "sample_channel = (Channel_new 9 5)\<lparr>events := 3, index := 1, tie_obj := Some 7, tied := True,
     close_callback := Some (ConnClose 7), error_callback := Some (ConnError 7),
     read_callback := Some (ConnRead 7), write_callback := Some (ConnWrite 7)\<rparr>"

definition sample_world :: "(nat, sample_net, nat, nat) world" where
  "sample_world = \<lparr>channels = [5 \<mapsto> 3], channel_heap = [3 \<mapsto> sample_channel],
     kernel = (([(5, (3, 3))], 0, 7), (\<lambda>_. []), {}), looping = False,
     quit_flag = False, thread_id = 100, pollReturnTime = Timestamp 0, wakeup_fd = 4, wakeup_channel = 1,
     active_channels = [], pendingFunctors = [], calling_pending_functors = False, conns = [7 \<mapsto> sample_conn]\<rparr>"

lemma sample_sim_at: "sim_at sample_view 7 sample_world
    \<lparr>a_state = kConnected, a_sent = [], a_waiting = [], a_closed = False\<rparr> sample_conn sample_channel"
proof -
  have "poller_inv (nv_interest sample_view) sample_world"
    by (auto simp: poller_inv_def sample_world_def chan_ok_def watched_def sample_channel_def Channel_new_def
        index_consts sample_view_def sample_interest_def)
  then show ?thesis
    by (simp add: sim_at_def conn_chan_ok_def)
       (simp add: sample_world_def sample_conn_def sample_channel_def Channel_new_def
        buf_inv_def contents_def vec_max_size_def sample_view_def sample_opened_def isWriting_def kWriteEvent_def EPOLLOUT_def)
qed

lemma sample_sim: "sim sample_view 7 sample_world
    \<lparr>a_state = kConnected, a_sent = [], a_waiting = [], a_closed = False\<rparr>"
  using sample_sim_at unfolding sim_def by blast

text \<open>
  C1: the byte stream is intact.  Over every run of sends, queued sends, writable events and a
  shutdown, with any partial writes and errors of the kernel, no operation fails and the bytes
  the kernel has taken followed by those in the output buffer are exactly the data accepted,
  in order, nothing lost, repeated or reordered.
\<close>

theorem stream_integrity:
  assumes "tcp_laws S V" and "conn_run S V p w0 acc r"
    and "sim V p w0 \<lparr>a_state = kConnected, a_sent = sent0, a_waiting = waiting0, a_closed = False\<rparr>"
  shows "\<exists>w c. r = Inr w \<and> conns w p = Some c \<and>
    nv_out V (kernel w) (socket_fd c) @ contents (output_buffer c) = sent0 @ waiting0 @ acc"
proof -
  have "stream_inv (sent0 @ waiting0) \<lparr>a_state = kConnected, a_sent = sent0, a_waiting = waiting0, a_closed = False\<rparr>"
    by (simp add: stream_inv_def)
  from conn_run_sim [OF assms(2,1,3) this] show ?thesis
    by (fastforce simp: sim_def sim_at_def stream_inv_def)
qed

lemma sample_run:
  "conn_run sample_tcp_sys sample_view 7 sample_world [1, 2, 3] (send sample_tcp_sys (thread_id sample_world) 7 [1, 2, 3] sample_world)"
proof -
  have "has_room 7 [1, 2, 3] sample_world"
    by (simp add: has_room_def sample_world_def sample_conn_def contents_def vec_max_size_def)
  from conn_run.send [OF conn_run.start this, of sample_tcp_sys sample_view]
  show ?thesis
    by (simp add: accepted_def sample_world_def sample_conn_def contents_def sample_tcp_sys_def)
qed

theorem stream_integrity_witness:
  "\<exists>w c. send sample_tcp_sys (thread_id sample_world) 7 [1, 2, 3] sample_world = Inr w \<and> conns w 7 = Some c \<and>
    nv_out sample_view (kernel w) (socket_fd c) @ contents (output_buffer c) = [] @ [] @ [1, 2, 3]"
  by (rule stream_integrity [OF sample_tcp_laws sample_run sample_sim])



text \<open>
  The loop watches a connection for writability exactly while bytes are waiting in its
  output buffer, in every state of such a run: it neither spins on a writable socket with
  nothing to write nor forgets waiting bytes.
\<close>

lemma writable_iff_waiting:
  assumes "tcp_laws S V" and "conn_run S V p w0 acc r"
    and "sim V p w0 \<lparr>a_state = kConnected, a_sent = sent0, a_waiting = waiting0, a_closed = False\<rparr>"
  shows "\<exists>w c ch. r = Inr w \<and> conns w p = Some c \<and> channel_heap w (conn_channel c) = Some ch \<and>
    (isWriting ch \<longleftrightarrow> contents (output_buffer c) \<noteq> [])"
proof -
  have "stream_inv (sent0 @ waiting0) \<lparr>a_state = kConnected, a_sent = sent0, a_waiting = waiting0, a_closed = False\<rparr>"
    by (simp add: stream_inv_def)
  from conn_run_sim [OF assms(2,1,3) this] show ?thesis
    by (fastforce simp: sim_def sim_at_def stream_inv_def conn_chan_ok_def)
qed

text \<open>
  C20: \<open>sendInLoop\<close> refines the abstract send for every answer of the kernel, and notifies the
  user exactly when it should: write-complete when the kernel took all the data at once, and
  the high-water mark when the bytes waiting go from below the mark to the mark or above.
\<close>

theorem sendInLoop_refines:
  assumes "tcp_laws S V" and "sim_at V p w a c ch"
    and "length (a_waiting a) + 2 * length data + 8 \<le> vec_max_size"
    and "sock_write S (kernel w) (socket_fd c) data = (r, k)"
    and "a_state a \<noteq> kDisConnected" and "a_state a \<noteq> kDisConnecting"
  shows "\<exists>w'. sendInLoop S p data w = Inr w' \<and> sim V p w' (a_send data r a) \<and>
    pendingFunctors w' = pendingFunctors w @
      (if a_waiting a = [] \<and> r = SOk (length data) \<and> write_complete_callback c \<noteq> None then [WriteComplete p] else []) @
      (let old_len = length (a_waiting a); new_len = old_len + length (left_over data r a)
       in if old_len < new_len \<and> old_len < unat (high_water_mark c) \<and> unat (high_water_mark c) \<le> new_len \<and>
             high_water_mark_callback c \<noteq> None then [HighWaterMark p] else [])"
  using sim_send [OF assms(1-4)] assms(5,6) by (auto simp: send_notes_def crossing_def)

theorem sendInLoop_refines_witness:
  "\<exists>w'. sendInLoop sample_tcp_sys 7 [1, 2, 3, 4, 5, 6] sample_world = Inr w' \<and>
    sim sample_view 7 w' \<lparr>a_state = kConnected, a_sent = [1, 2], a_waiting = [3, 4, 5, 6], a_closed = False\<rparr> \<and>
    pendingFunctors w' = [HighWaterMark 7]"
  using sendInLoop_refines [OF sample_tcp_laws sample_sim_at, of "[1, 2, 3, 4, 5, 6]" "SOk 2"]
  by (simp add: vec_max_size_def sample_world_def sample_conn_def sample_tcp_sys_def a_send_def left_over_def)

text \<open>
  C21: \<open>handleWrite\<close> refines the abstract flush for every answer of the kernel and queues the
  write-complete notification exactly when it emptied the output buffer.
\<close>

theorem handleWrite_refines:
  assumes "tcp_laws S V" and "sim_at V p w a c ch"
    and "sock_write S (kernel w) (socket_fd c) (a_waiting a) = (r, k)"
  shows "\<exists>w'. handleWrite S p w = Inr w' \<and> sim V p w' (a_flush r a) \<and>
    pendingFunctors w' = pendingFunctors w @
      (if a_waiting a \<noteq> [] \<and> a_state a \<noteq> kDisConnected \<and> r = SOk (length (a_waiting a)) \<and>
          write_complete_callback c \<noteq> None then [WriteComplete p] else [])"
  using sim_flush [OF assms] unfolding flush_notes_def by blast

theorem handleWrite_refines_witness:
  "\<exists>w'. handleWrite sample_tcp_sys 7 sample_world = Inr w' \<and>
    sim sample_view 7 w' \<lparr>a_state = kConnected, a_sent = [], a_waiting = [], a_closed = False\<rparr> \<and>
    pendingFunctors w' = []"
  using handleWrite_refines [OF sample_tcp_laws sample_sim_at, of "SOk 0"]
  by (simp add: sample_world_def sample_conn_def sample_tcp_sys_def a_flush_def)

text \<open>
  C38: data sent from another thread can be lost by a following \<open>shutdown\<close>: \<open>send\<close> accepts the
  data while the connection is connected and queues it, \<open>shutdown\<close> changes the state at once,
  and when the queued \<open>sendInLoop\<close> runs it drops the data without a trace.
\<close>

theorem cross_thread_send_dropped:
  assumes "conns w p = Some c" and "state c = kConnected" and "tid \<noteq> thread_id w"
  shows "\<exists>w1 w2. send S tid p data w = Inr w1 \<and> shutdown S tid p w1 = Inr w2 \<and>
    pendingFunctors w2 = pendingFunctors w @ [SendInLoop p data, ShutDownInLoop p] \<and>
    run_functor S U other (SendInLoop p data) w2 = Inr w2"
  using assms
  by (simp add: send_def shutdown_def conn_deref_def isInLoopThread_def runInLoop_def queueInLoop_def
      push_functor_def wakeUp_def setState_def conn_set_def sendInLoop_def)

theorem cross_thread_send_dropped_witness:
  "\<exists>w1 w2. send sample_tcp_sys 200 7 [1, 2] sample_world = Inr w1 \<and> shutdown sample_tcp_sys 200 7 w1 = Inr w2 \<and>
    pendingFunctors w2 = pendingFunctors sample_world @ [SendInLoop 7 [1, 2], ShutDownInLoop 7] \<and>
    run_functor sample_tcp_sys (\<lambda>_. Inr) (\<lambda>_. Inr) (SendInLoop 7 [1, 2]) w2 = Inr w2"
  by (rule cross_thread_send_dropped [where c = sample_conn]) (simp_all add: sample_world_def sample_conn_def)

end
