(* ===== verification/Tcp_Lifecycle.thy ===== *)
theory Tcp_Lifecycle
  imports Tcp_Stream
begin

text \<open>
  The life of a connection: establishment, incoming data, closing and destruction
  (\<open>connectionEstablished\<close>, \<open>handleRead\<close>, \<open>handleClose\<close>, \<open>handleError\<close>, \<open>connectionDestroyed\<close> of
  src/TcpConnection.cc), and what reaches the user when one event reports several conditions.
\<close>

section \<open>Opening and closing\<close>

lemma setState_ok: "conns w p = Some c \<Longrightarrow> setState p st w = Inr (conn_set p (c\<lparr>state := st\<rparr>) w)"
  by (simp add: setState_def conn_deref_Some)

text \<open>Only channels, connections and the kernel differ.\<close>

definition world_only :: "('x, 'k, 'u, 'a, 'z) world_scheme \<Rightarrow> ('x, 'k, 'u, 'a, 'z) world_scheme \<Rightarrow> bool" where
  "world_only w w' \<longleftrightarrow> w' = w\<lparr>channels := channels w', channel_heap := channel_heap w', kernel := kernel w', conns := conns w'\<rparr>"

lemma world_only_asked: "world_only w (asked q ch e k (ch_set q' ch' (conn_set p c w)))"
  "world_only w (asked q ch e k (conn_set p c w))"
  by (simp_all add: world_only_def asked_def ch_set_def conn_set_def)

lemma closing_steps:
  assumes laws: "tcp_laws S V" and inv: "poller_inv (nv_interest V) w" and c: "conns w p = Some c"
    and ok: "conn_chan_ok V c ch w"
  shows "\<exists>w2 ch2. and_then (setState p kDisConnected w) (disableAll S (conn_channel c)) = Inr w2 \<and>
    poller_inv (nv_interest V) w2 \<and> conns w2 = (conns w)(p \<mapsto> c\<lparr>state := kDisConnected\<rparr>) \<and>
    conn_chan_ok V c ch2 w2 \<and> events ch2 = 0 \<and> nv_interest V (kernel w2) (socket_fd c) = None \<and>
    pendingFunctors w2 = pendingFunctors w \<and> world_only w w2"
proof -
  let ?c = "c\<lparr>state := kDisConnected\<rparr>"
  let ?w = "conn_set p ?c w"
  have inv1: "poller_inv (nv_interest V) ?w"
    using inv by - (rule poller_inv_same [of "nv_interest V" w], auto)
  have ch: "channel_heap ?w (conn_channel c) = Some ch" "ch_fd ch \<in> nv_opened V (kernel ?w)"
    "channels ?w (ch_fd ch) = Some (conn_channel c)" "ch_fd ch = socket_fd c"
    using ok by (auto simp: conn_chan_ok_def)
  from set_events_ok [OF tcp_epoll [OF laws] inv1 ch(1,2), of "\<lambda>e. kNoneEvent"] ch(3) obtain k where
    k: "disableAll S (conn_channel c) ?w = Inr (asked (conn_channel c) ch 0 k ?w)"
      "poller_inv (nv_interest V) (asked (conn_channel c) ch 0 k ?w)"
      "nv_interest V k = (nv_interest V (kernel w))(socket_fd c := None)" "nv_opened V k = nv_opened V (kernel w)"
    by (auto simp: disableAll_def kNoneEvent_def ch(4))
  have "index ch \<noteq> kNew" using poller_invD(1) [OF inv1 ch(1)] ch(3) by (auto simp: chan_ok_def)
  then have "conn_chan_ok V c (ch\<lparr>events := 0, index := kDelete\<rparr>) (asked (conn_channel c) ch 0 k ?w)"
    using ok k(4) by (simp add: conn_chan_ok_def asked_def new_index_def index_consts)
  with k c show ?thesis
    by (intro exI [of _ "asked (conn_channel c) ch 0 k ?w"] exI [of _ "ch\<lparr>events := 0, index := kDelete\<rparr>"])
       (simp add: setState_ok world_only_asked)
qed

section \<open>Establishing and destroying\<close>

text \<open>
  Establishing a connection makes it connected, ties its channel to it and has the kernel watch
  its socket for reading; all that is done when the user's connection callback runs.
\<close>

lemma established_watched:
  assumes "tcp_laws S V" and "poller_inv (nv_interest V) w" and "conns w p = Some c"
    and "channel_heap w (conn_channel c) = Some ch" and "ch_fd ch = socket_fd c" and "events ch = 0"
    and "socket_fd c \<in> nv_opened V (kernel w)" and "channels w (socket_fd c) = None"
  shows "\<exists>w3 ch3. connectionEstablished S U p w = call_if_set U connection_callback (\<lambda>u. UserCall u p) p w3 \<and>
    poller_inv (nv_interest V) w3 \<and> conns w3 p = Some (c\<lparr>state := kConnected\<rparr>) \<and>
    channel_heap w3 (conn_channel c) = Some ch3 \<and> tied ch3 \<and> tie_obj ch3 = Some p \<and>
    nv_interest V (kernel w3) = (nv_interest V (kernel w))(socket_fd c \<mapsto> (kReadEvent, conn_channel c)) \<and>
    conn_chan_ok V (c\<lparr>state := kConnected\<rparr>) ch3 w3 \<and> world_only w w3"
proof -
  let ?c = "c\<lparr>state := kConnected\<rparr>" and ?ch = "ch\<lparr>tie_obj := Some p, tied := True\<rparr>"
  let ?w = "ch_set (conn_channel c) ?ch (conn_set p ?c w)"
  have inv1: "poller_inv (nv_interest V) (conn_set p ?c w)"
    using assms(2) by - (rule poller_inv_same [of "nv_interest V" w], auto)
  have inv: "poller_inv (nv_interest V) ?w"
    by (rule poller_inv_cong [OF inv1]) (use assms(4) in auto)
  have chan: "channel_heap ?w (conn_channel c) = Some ?ch" "events ?ch = 0"
      "ch_fd ?ch \<in> nv_opened V (kernel ?w)" "channels ?w (ch_fd ?ch) = None"
    using assms by auto
  from enableReading_fresh [OF tcp_epoll [OF assms(1)] inv chan] obtain k where
    k: "enableReading S (conn_channel c) ?w = Inr (asked (conn_channel c) ?ch kReadEvent k ?w)"
      "poller_inv (nv_interest V) (asked (conn_channel c) ?ch kReadEvent k ?w)"
      "nv_interest V k = (nv_interest V (kernel w))(socket_fd c \<mapsto> (kReadEvent, conn_channel c))"
      "nv_opened V k = nv_opened V (kernel w)"
    using assms(5) by auto
  have "tie_channel (conn_channel c) p (conn_set p ?c w) = Inr ?w"
    using assms(4) by (simp add: tie_channel_def ch_deref_Some)
  then have "connectionEstablished S U p w = call_if_set U connection_callback (\<lambda>u. UserCall u p) p
      (asked (conn_channel c) ?ch kReadEvent k ?w)"
    using k(1) assms(3) by (simp add: connectionEstablished_def conn_deref_Some setState_ok)
  moreover have "conn_chan_ok V ?c (?ch\<lparr>events := kReadEvent, index := kAdd\<rparr>) (asked (conn_channel c) ?ch kReadEvent k ?w)"
    using assms(5,7) k(4) kReadEvent_nonzero [of 0]
    by (simp add: conn_chan_ok_def asked_def new_index_def index_consts ch_set_def)
  ultimately show ?thesis
    using k kReadEvent_nonzero [of 0]
    by (intro exI [of _ "asked (conn_channel c) ?ch kReadEvent k ?w"] exI [of _ "?ch\<lparr>events := kReadEvent, index := kAdd\<rparr>"])
       (simp add: world_only_asked new_index_def, simp add: ch_set_def)
qed

lemma conn_unregister:
  assumes laws: "tcp_laws S V" and w1: "poller_inv (nv_interest V) w1" "conn_chan_ok V c ch1 w1"
  shows "\<exists>w'. removeChannel S (conn_channel c) w1 = Inr w' \<and> poller_inv (nv_interest V) w' \<and> poller_only w1 w' \<and>
    conns w' = conns w1 \<and> hasChannel (conn_channel c) w' = Inr False \<and> nv_interest V (kernel w') (socket_fd c) = None"
proof -
  have h: "channel_heap w1 (conn_channel c) = Some ch1" "ch_fd ch1 = socket_fd c"
    "channels w1 (socket_fd c) = Some (conn_channel c)"
    using w1(2) by (auto simp: conn_chan_ok_def)
  have reg: "index ch1 \<noteq> kNew" using poller_invD(1) [OF w1(1) h(1)] h by (auto simp: chan_ok_def)
  from removeChannel_ok [OF tcp_epoll [OF laws] w1(1) h(1)] reg obtain w' where
    w': "removeChannel S (conn_channel c) w1 = Inr w'" "poller_inv (nv_interest V) w'" "poller_only w1 w'"
      "channel_heap w' = (channel_heap w1)(conn_channel c \<mapsto> ch1\<lparr>index := kNew\<rparr>)"
      "channels w' = (channels w1)(ch_fd ch1 := None)"
      "nv_interest V (kernel w') = (nv_interest V (kernel w1))(ch_fd ch1 := None)" by auto
  have "conns w' = conns w1"
    using arg_cong [OF w'(3) [unfolded poller_only_def], of conns] by simp
  with w' h show ?thesis by (intro exI [of _ w']) (auto simp: hasChannel_def ch_deref_def)
qed

text \<open>
  Destroying a connection that is already closed, or has no connection callback, ends with its
  channel unknown to the poller and its socket unknown to epoll, whatever its state was.
\<close>

lemma destroyed_unregistered:
  assumes laws: "tcp_laws S V" and inv: "poller_inv (nv_interest V) w" and c: "conns w p = Some c"
    and ok: "conn_chan_ok V c ch w" and st: "state c = kDisConnected \<or> connection_callback c = None"
    and connecting: "state c \<noteq> kConnecting"
  shows "\<exists>w' c'. connectionDestroyed S U p w = Inr w' \<and> poller_inv (nv_interest V) w' \<and>
    conns w' p = Some c' \<and> state c' = kDisConnected \<and> hasChannel (conn_channel c) w' = Inr False \<and>
    nv_interest V (kernel w') (socket_fd c) = None"
proof -
  note fin = conn_unregister [OF laws]
  show ?thesis
  proof (cases "state c = kDisConnected")
    case True
    with fin [OF inv ok] c show ?thesis by (auto simp: connectionDestroyed_def conn_deref_Some)
  next
    case False
    from closing_steps [OF laws inv c ok] obtain w2 ch2 where
      w2: "and_then (setState p kDisConnected w) (disableAll S (conn_channel c)) = Inr w2"
        "poller_inv (nv_interest V) w2" "conns w2 = (conns w)(p \<mapsto> c\<lparr>state := kDisConnected\<rparr>)"
        "conn_chan_ok V c ch2 w2" by blast
    have "call_if_set U connection_callback (\<lambda>u. UserCall u p) p w2 = Inr w2"
      using w2(3) st False by (simp add: call_if_set_def conn_deref_def)
    with w2(1) c False connecting have "connectionDestroyed S U p w = removeChannel S (conn_channel c) w2"
      by (cases "state c") (auto simp: connectionDestroyed_def conn_deref_Some setState_ok)
    with fin [OF w2(2,4)] w2(3) show ?thesis by auto
  qed
qed

section \<open>Properties\<close>

text \<open>
  When a connection closes, for whatever reason, it is disconnected and the kernel watches
  it no more before any of the user's callbacks runs; then the connection callback and the
  close callback run, in this order.
\<close>

lemma closed_unwatched:
  assumes "tcp_laws S V" and "poller_inv (nv_interest V) w" and "conns w p = Some c" and "conn_chan_ok V c ch w"
  shows "\<exists>w2. handleClose S U p w =
      and_then (call_if_set U connection_callback (\<lambda>u. UserCall u p) p w2)
        (call_if_set U conn_close_callback (\<lambda>u. UserCall u p) p) \<and>
    poller_inv (nv_interest V) w2 \<and> conns w2 = (conns w)(p \<mapsto> c\<lparr>state := kDisConnected\<rparr>) \<and>
    nv_interest V (kernel w2) (socket_fd c) = None \<and> pendingFunctors w2 = pendingFunctors w"
proof -
  from closing_steps [OF assms] obtain w2 where
    w2: "and_then (setState p kDisConnected w) (disableAll S (conn_channel c)) = Inr w2"
      "poller_inv (nv_interest V) w2" "conns w2 = (conns w)(p \<mapsto> c\<lparr>state := kDisConnected\<rparr>)"
      "nv_interest V (kernel w2) (socket_fd c) = None" "pendingFunctors w2 = pendingFunctors w" by blast
  from w2(1) assms(3) have "handleClose S U p w =
      and_then (call_if_set U connection_callback (\<lambda>u. UserCall u p) p w2)
        (call_if_set U conn_close_callback (\<lambda>u. UserCall u p) p)"
    by (simp add: handleClose_def conn_deref_Some setState_ok)
  with w2 show ?thesis by blast
qed

text \<open>
  C26: when the socket is readable, \<open>handleRead\<close> appends exactly the bytes the kernel delivered to
  the input buffer and then runs the message callback with the time of the poll; an end of
  file closes the connection; a read error is handled as an error.
\<close>

theorem handleRead_delivers:
  assumes "conns w p = Some c" and "channel_heap w (conn_channel c) = Some ch" and "buf_inv (input_buffer c)"
    and "readv_bounded (sock_readv S)"
    and "length (contents (input_buffer c)) + 3 * extra_buffer_size + 8 \<le> vec_max_size"
    and "sock_readv S (kernel w) (ch_fd ch)
      (if extra_buffer_size < unat (writeableBytes (input_buffer c)) then [unat (writeableBytes (input_buffer c))]
       else [unat (writeableBytes (input_buffer c)), extra_buffer_size]) = (r, k)"
  shows "case r of
      SOk bs \<Rightarrow> \<exists>b. buf_inv b \<and> contents b = contents (input_buffer c) @ bs \<and>
        (let w1 = conn_set p (c\<lparr>input_buffer := b\<rparr>) (w\<lparr>kernel := k\<rparr>)
         in conn_handleRead S U t p w =
              (if bs \<noteq> [] then call_if_set U message_callback (\<lambda>u. UserMessage u p t) p w1
               else handleClose S U p w1))
    | SErr e \<Rightarrow> conn_handleRead S U t p w =
        handleError S U p (conn_set p c (w\<lparr>kernel := k\<rparr>))"
proof (cases r)
  case (SErr e)
  with readFd_error [of "sock_readv S" "kernel w" "ch_fd ch" "input_buffer c"] assms show ?thesis
    by (simp add: conn_handleRead_def conn_deref_Some ch_deref_Some)
next
  case (SOk bs)
  with readFd_ok [OF assms(3-5)] assms(6) obtain b where
    "readFd (sock_readv S) (ch_fd ch) (kernel w) (input_buffer c) = Inr (SOk (length bs), k, b)"
    "buf_inv b" "contents b = contents (input_buffer c) @ bs" by blast
  with SOk assms(1,2) show ?thesis
    by (auto simp: conn_handleRead_def conn_deref_Some ch_deref_Some Let_def)
qed

theorem handleRead_delivers_witness:
  "\<exists>b. buf_inv b \<and> contents b = [] \<and>
    conn_handleRead sample_tcp_sys (\<lambda>_. Inr) (Timestamp 1) 7 sample_world =
      handleClose sample_tcp_sys (\<lambda>_. Inr) 7
        (conn_set 7 (sample_conn\<lparr>input_buffer := b\<rparr>) (sample_world\<lparr>kernel := (([(5, (3, 3))], 0, 7), (\<lambda>_. []), {})\<rparr>))"
  using handleRead_delivers [of sample_world 7 sample_conn sample_channel sample_tcp_sys "SOk []"
      "(([(5, (3, 3))], 0, 7), (\<lambda>_. []), {})" "\<lambda>_. Inr" "Timestamp 1"]
  by (simp add: sample_world_def sample_tcp_sys_def readv_bounded_def)
     (simp add: sample_conn_def buf_inv_def contents_def vec_max_size_def extra_buffer_size_def)

text \<open>A connection about to hear of a hang-up and an error, and a user who notes every call.\<close>

definition closing_world :: "(nat, sample_net, nat, nat) world" where
  "closing_world = sample_world\<lparr>channel_heap := [3 \<mapsto> sample_channel\<lparr>revent := EPOLLHUP OR EPOLLERR\<rparr>]\<rparr>"

definition note_close :: "nat user_call \<Rightarrow> nat action list" where
  "note_close cl = (case cl of UserCall u p \<Rightarrow> [ActQueue (OtherFunctor u)] | UserMessage u p t \<Rightarrow> [])"


end
