(* ===== verification/Tcp_File.thy ===== *)
theory Tcp_File
  imports Tcp_Lifecycle
begin

text \<open>
  Sending a file (\<open>sendFile\<close>, \<open>sendFileInLoop\<close> and the file branch of \<open>handleWrite\<close> of
  src/TcpConnection.cc): what the socket receives over all the writable events it takes, and
  the ways in which a file and the output buffer get into each other's way.
\<close>

section \<open>What is asked of sendfile\<close>

text \<open>
  The documented behaviour: on success the bytes from the offset on have gone to the socket and the
  offset has advanced by their number, at most the number asked for and at most what the file has;
  on failure nothing was sent.
\<close>

definition sendfile_laws :: "('k, 'y) tcp_sys_scheme \<Rightarrow> 'k net_view \<Rightarrow> (int \<Rightarrow> byte list) \<Rightarrow> bool" where
  "sendfile_laws S V file \<longleftrightarrow>
     (\<forall>k out fd off n r off' k'. sock_sendfile S k out fd off n = ((r, off'), k') \<longrightarrow>
        nv_interest V k' = nv_interest V k \<and> nv_opened V k' = nv_opened V k \<and> nv_shut V k' = nv_shut V k \<and>
        (case r of
           SOk m \<Rightarrow> m \<le> unat n \<and> m \<le> length (drop (nat off) (file fd)) \<and> off' = off + int m \<and>
             nv_out V k' = (nv_out V k)(out := nv_out V k out @ take m (drop (nat off) (file fd)))
         | SErr e \<Rightarrow> off' = off \<and> nv_out V k' = nv_out V k))"

lemmas sendfile_law = sendfile_laws_def [THEN iffD1, rule_format]

definition gave_up :: "('k, 'y) tcp_sys_scheme \<Rightarrow> 'k \<Rightarrow> ('u, 'a) connection \<Rightarrow> int \<Rightarrow> int \<Rightarrow> size_t \<Rightarrow> bool" where
  "gave_up S k c fd off n =
     (case fst (fst (sock_sendfile S k (socket_fd c) fd off n)) of SOk m \<Rightarrow> False | SErr e \<Rightarrow> broken e)"

section \<open>One call of sendfile\<close>

text \<open>The connection at address \<open>p\<close> is established.\<close>

definition ready :: "'k net_view \<Rightarrow> ptr \<Rightarrow> ('x, 'k, 'u, 'a, 'z) world_scheme \<Rightarrow>
    ('u, 'a) connection \<Rightarrow> 'x channel_cb channel \<Rightarrow> bool" where
  "ready V p w c ch \<longleftrightarrow> poller_inv (nv_interest V) w \<and> conns w p = Some c \<and> conn_chan_ok V c ch w \<and>
     state c = kConnected"

text \<open>Nothing waits in the output buffer and \<open>sent\<close> bytes of the file have reached the socket.\<close>

definition file_at :: "'k net_view \<Rightarrow> ptr \<Rightarrow> int \<Rightarrow> int \<Rightarrow> nat \<Rightarrow> byte list \<Rightarrow> byte list \<Rightarrow> nat \<Rightarrow>
    ('x, 'k, 'u, 'a, 'z) world_scheme \<Rightarrow> ('u, 'a) connection \<Rightarrow> 'x channel_cb channel \<Rightarrow> bool" where
  "file_at V p fd off n content base sent w c ch \<longleftrightarrow>
     ready V p w c ch \<and> buf_inv (output_buffer c) \<and> contents (output_buffer c) = [] \<and> sent \<le> n \<and> sent \<le> length (drop (nat off) content) \<and>
     nv_out V (kernel w) (socket_fd c) = base @ take sent (drop (nat off) content) \<and>
     (sending_file c \<longrightarrow> sent < n \<and> fd_to_send c = fd \<and> fd_offset c = off + int sent \<and> unat (file_count c) = n - sent)"

lemma conn_chan_ok_same:
  assumes "conn_chan_ok V c ch w" and "socket_fd c' = socket_fd c" and "conn_channel c' = conn_channel c"
    and "channel_heap w' = channel_heap w" and "channels w' = channels w"
    and "nv_opened V (kernel w') = nv_opened V (kernel w)"
  shows "conn_chan_ok V c' ch w'"
  using assms by (simp add: conn_chan_ok_def)

lemma ready_same:
  assumes "ready V p w c ch" and "conns w' p = Some c'" and "channel_heap w' = channel_heap w"
    and "channels w' = channels w" and "nv_interest V (kernel w') = nv_interest V (kernel w)"
    and "nv_opened V (kernel w') = nv_opened V (kernel w)"
    and "socket_fd c' = socket_fd c" "conn_channel c' = conn_channel c" "state c' = state c"
  shows "ready V p w' c' ch"
  using assms(1,2,7-9) poller_inv_same [of "nv_interest V" w w', OF _ assms(4,3,5)]
    conn_chan_ok_same [OF _ assms(7,8,3,4,6)]
  by (simp add: ready_def)

text \<open>The interest in writability is switched, and nothing else of the connection changes.\<close>

lemma ready_set_events:
  assumes laws: "tcp_laws S V" and i: "ready V p w c ch"
  shows "\<exists>w' ch'. set_events S (conn_channel c) f w = Inr w' \<and> ready V p w' c ch' \<and> events ch' = f (events ch) \<and>
    pendingFunctors w' = pendingFunctors w \<and> nv_out V (kernel w') = nv_out V (kernel w)"
  using sim_set_events [OF laws, of w c ch f] i unfolding ready_def by fastforce

text \<open>The last part of \<open>sendFileInLoop\<close>: what remains is noted and writability watched.\<close>

definition file_rest :: "('k, 'y) tcp_sys_scheme \<Rightarrow> ptr \<Rightarrow> size_t \<Rightarrow> ('x, 'k, 'u, 'a, 'z) world_scheme \<Rightarrow>
    ('x, 'k, 'u, 'a, 'z) world_result" where
  "file_rest S p rest w = and_then (conn_deref p w) (\<lambda>c5.
     let w6 = conn_set p (c5\<lparr>file_count := rest\<rparr>) w
     in and_then (ch_deref (conn_channel c5) w6) (\<lambda>ch6.
        if \<not> isWriting ch6 then enableWriting S (conn_channel c5) w6 else Inr w6))"

lemma file_rest_ok:
  assumes laws: "tcp_laws S V" and i: "ready V p w c ch"
  shows "\<exists>w' ch'. file_rest S p rest w = Inr w' \<and> ready V p w' (c\<lparr>file_count := rest\<rparr>) ch' \<and> isWriting ch' \<and>
    pendingFunctors w' = pendingFunctors w \<and> nv_out V (kernel w') = nv_out V (kernel w)"
proof -
  let ?w = "conn_set p (c\<lparr>file_count := rest\<rparr>) w"
  have i1: "ready V p ?w (c\<lparr>file_count := rest\<rparr>) ch" by (rule ready_same [OF i]) simp_all
  have h: "conns w p = Some c" "channel_heap w (conn_channel c) = Some ch" using i by (auto simp: ready_def conn_chan_ok_def)
  note start = file_rest_def conn_deref_Some [OF h(1)] Let_def ch_deref_Some h
  show ?thesis
  proof (cases "isWriting ch")
    case True
    with i1 show ?thesis by (intro exI [of _ ?w] exI [of _ ch]) (simp add: start)
  next
    case False
    from ready_set_events [OF laws i1, of "\<lambda>e. e OR kWriteEvent"] obtain w' ch' where
      "enableWriting S (conn_channel c) ?w = Inr w'" "ready V p w' (c\<lparr>file_count := rest\<rparr>) ch'"
      "isWriting ch'" "pendingFunctors w' = pendingFunctors ?w" "nv_out V (kernel w') = nv_out V (kernel ?w)"
      using isWriting_on by (force simp: enableWriting_def)
    with False show ?thesis by (intro exI [of _ w'] exI [of _ ch']) (simp add: start)
  qed
qed

text \<open>After the last byte: the notification is queued, the flag cleared and writability not watched.\<close>

lemma file_done:
  assumes laws: "tcp_laws S V" and i: "ready V p w c ch"
    and c': "c' = c\<lparr>fd_offset := off, sending_file := False\<rparr>"
  shows "\<exists>w' ch'. disableWriting S (conn_channel c) (conn_set p c' (if b then queue_own S f w else w)) = Inr w' \<and>
    ready V p w' c' ch' \<and> \<not> isWriting ch' \<and> pendingFunctors w' = pendingFunctors w @ (if b then [f] else []) \<and>
    nv_out V (kernel w') = nv_out V (kernel w)"
proof -
  let ?w = "if b then queue_own S f w else w"
  have io: "io_same V (kernel w) (kernel ?w)" using queue_own_io [OF laws, of w f] by simp
  have "ready V p (conn_set p c' ?w) c' ch"
    using io by (intro ready_same [OF i]) (simp_all add: c' io_same_def)
  from ready_set_events [OF laws this, of "\<lambda>e. e AND NOT kWriteEvent"] obtain w' ch' where
    "disableWriting S (conn_channel c) (conn_set p c' ?w) = Inr w'" "ready V p w' c' ch'" "\<not> isWriting ch'"
    "pendingFunctors w' = pendingFunctors ?w" "nv_out V (kernel w') = nv_out V (kernel ?w)"
    using isWriting_off by (force simp: disableWriting_def c')
  with io show ?thesis by (intro exI [of _ w'] exI [of _ ch']) (simp add: io_same_def)
qed

text \<open>The branches of \<open>sendFileInLoop\<close> for a connection that is not closing.\<close>

lemma sendFileInLoop_idle:
  assumes "conns w p = Some c" and "channel_heap w (conn_channel c) = Some ch"
    and "state c \<noteq> kDisConnected" and "state c \<noteq> kDisConnecting" and "\<not> sending_file c"
  shows "sendFileInLoop S p w = (if file_count c \<noteq> 0 then file_rest S p (file_count c) w else Inr w)"
  using assms by (simp add: sendFileInLoop_def conn_deref_Some ch_deref_Some file_rest_def)

lemma sendFileInLoop_open:
  assumes "conns w p = Some c" and "channel_heap w (conn_channel c) = Some ch" and "ch_fd ch = sock"
    and "state c \<noteq> kDisConnected" and "state c \<noteq> kDisConnecting" and "sending_file c"
    and "sock_sendfile S (kernel w) sock (fd_to_send c) (fd_offset c) (file_count c) = ((r, off), k)"
    and "w1 = conn_set p (c\<lparr>fd_offset := off\<rparr>) (w\<lparr>kernel := k\<rparr>)"
  shows "sendFileInLoop S p w =
    (case r of
       SErr e \<Rightarrow> if broken e then Inr (conn_set p (c\<lparr>fd_offset := off, sending_file := False\<rparr>) w1)
                 else if file_count c \<noteq> 0 then file_rest S p (file_count c) w1 else Inr w1
     | SOk m \<Rightarrow> if file_count c = of_nat m
                then disableWriting S (conn_channel c) (conn_set p (c\<lparr>fd_offset := off, sending_file := False\<rparr>)
                       (if write_complete_callback c \<noteq> None then queue_own S (WriteComplete p) w1 else w1))
                else file_rest S p (file_count c - of_nat m) w1)"
  using assms
  by (cases r) (auto simp: sendFileInLoop_def conn_deref_Some ch_deref_Some file_rest_def Let_def broken_def and_then_assoc)

lemma sendFileInLoop_cases:
  assumes "conns w p = Some c" and "channel_heap w (conn_channel c) = Some ch" and "ch_fd ch = socket_fd c"
    and "state c = kConnected" and "sending_file c"
    and "sock_sendfile S (kernel w) (socket_fd c) (fd_to_send c) (fd_offset c) (file_count c) = ((r, off), k)"
    and "w1 = conn_set p (c\<lparr>fd_offset := off\<rparr>) (w\<lparr>kernel := k\<rparr>)"
  shows "sendFileInLoop S p w =
    (case r of
       SErr e \<Rightarrow> if broken e then Inr (conn_set p (c\<lparr>fd_offset := off, sending_file := False\<rparr>) w1)
                 else if file_count c \<noteq> 0 then file_rest S p (file_count c) w1 else Inr w1
     | SOk m \<Rightarrow> if file_count c = of_nat m
                then disableWriting S (conn_channel c) (conn_set p (c\<lparr>fd_offset := off, sending_file := False\<rparr>)
                       (if write_complete_callback c \<noteq> None then queue_own S (WriteComplete p) w1 else w1))
                else file_rest S p (file_count c - of_nat m) w1)"
  using sendFileInLoop_open [OF assms(1-3) _ _ assms(5-7)] assms(4) by simp

text \<open>
  One call of \<open>sendfile\<close> by a connection that is sending a file: how far it gets, whether the
  file is still being sent afterwards, and that write-complete is queued exactly with the last byte.
\<close>

definition file_step :: "('k, 'y) tcp_sys_scheme \<Rightarrow> 'k net_view \<Rightarrow> ptr \<Rightarrow> int \<Rightarrow> int \<Rightarrow> nat \<Rightarrow> byte list \<Rightarrow> byte list \<Rightarrow>
    ('u, 'a) connection \<Rightarrow> ('x, 'k, 'u, 'a, 'z) world_scheme \<Rightarrow> ('x, 'k, 'u, 'a, 'z) world_result \<Rightarrow> bool" where
  "file_step S V p fd off n content base c w r \<longleftrightarrow>
     (\<exists>w' c' ch' sent'. r = Inr w' \<and> file_at V p fd off n content base sent' w' c' ch' \<and>
       socket_fd c' = socket_fd c \<and> (sending_file c' \<longrightarrow> isWriting ch') \<and>
       (\<not> sending_file c' \<longrightarrow> gave_up S (kernel w) c fd (fd_offset c) (file_count c) \<or> sent' = n) \<and>
       pendingFunctors w' = pendingFunctors w @
         (if sent' = n \<and> write_complete_callback c \<noteq> None then [WriteComplete p] else []))"

lemma file_step_error:
  assumes laws: "tcp_laws S V" and fl: "sendfile_laws S V content" and at: "file_at V p fd off n data base sent w c ch"
    and sending: "sending_file c" and w1: "w1 = conn_set p (c\<lparr>fd_offset := o'\<rparr>) (w\<lparr>kernel := k\<rparr>)"
    and sf: "sock_sendfile S (kernel w) (socket_fd c) fd (fd_offset c) (file_count c) = ((SErr e, o'), k)"
    and i1: "ready V p w1 (c\<lparr>fd_offset := o'\<rparr>) ch"
  shows "file_step S V p fd off n data base c w
    (if broken e then Inr (conn_set p (c\<lparr>fd_offset := o', sending_file := False\<rparr>) w1)
     else file_rest S p (file_count c) w1)"
proof -
  have c: "o' = off + int sent" "nv_out V k = nv_out V (kernel w)" "fd_to_send c = fd"
    "unat (file_count c) = n - sent" "sent < n" "sent \<le> length (drop (nat off) data)"
    "nv_out V (kernel w) (socket_fd c) = base @ take sent (drop (nat off) data)"
    "buf_inv (output_buffer c)" "contents (output_buffer c) = []"
    using at sending sendfile_law [OF fl sf] by (auto simp: file_at_def)
  show ?thesis
  proof (cases "broken e")
    case True
    let ?c = "c\<lparr>fd_offset := o', sending_file := False\<rparr>"
    have "ready V p (conn_set p ?c w1) ?c ch" by (rule ready_same [OF i1]) simp_all
    moreover have "gave_up S (kernel w) c fd (fd_offset c) (file_count c)" using True sf by (simp add: gave_up_def)
    ultimately show ?thesis
      using True c unfolding file_step_def
      by (intro exI [of _ "conn_set p ?c w1"] exI [of _ ?c] exI [of _ ch] exI [of _ sent]) (simp add: file_at_def w1)
  next
    case False
    from file_rest_ok [OF laws i1, of "file_count c"] obtain w' ch' where
      "file_rest S p (file_count c) w1 = Inr w'" "ready V p w' (c\<lparr>fd_offset := o', file_count := file_count c\<rparr>) ch'"
      "isWriting ch'" "pendingFunctors w' = pendingFunctors w1" "nv_out V (kernel w') = nv_out V (kernel w1)" by blast
    with False c sending show ?thesis unfolding file_step_def
      by (intro exI [of _ w'] exI [of _ "c\<lparr>fd_offset := o', file_count := file_count c\<rparr>"] exI [of _ ch'] exI [of _ sent])
         (simp add: file_at_def w1)
  qed
qed

lemma file_step_some:
  assumes laws: "tcp_laws S V" and fl: "sendfile_laws S V content" and at: "file_at V p fd off n (content fd) base sent w c ch"
    and sending: "sending_file c" and w1: "w1 = conn_set p (c\<lparr>fd_offset := o'\<rparr>) (w\<lparr>kernel := k\<rparr>)" and off: "0 \<le> off"
    and sf: "sock_sendfile S (kernel w) (socket_fd c) fd (fd_offset c) (file_count c) = ((SOk m, o'), k)"
    and i1: "ready V p w1 (c\<lparr>fd_offset := o'\<rparr>) ch"
  shows "file_step S V p fd off n (content fd) base c w
    (if file_count c = of_nat m
     then disableWriting S (conn_channel c) (conn_set p (c\<lparr>fd_offset := o', sending_file := False\<rparr>)
            (if write_complete_callback c \<noteq> None then queue_own S (WriteComplete p) w1 else w1))
     else file_rest S p (file_count c - of_nat m) w1)"
proof -
  let ?data = "drop (nat off) (content fd)"
  have c: "fd_offset c = off + int sent" "fd_to_send c = fd" "unat (file_count c) = n - sent" "sent < n"
    "sent \<le> length ?data" "nv_out V (kernel w) (socket_fd c) = base @ take sent ?data"
    "buf_inv (output_buffer c)" "contents (output_buffer c) = []"
    using at sending by (auto simp: file_at_def)
  have pos: "nat (off + int sent) = nat off + sent" using off by simp
  have m: "m \<le> unat (file_count c)" "o' = off + int (sent + m)" "sent + m \<le> length ?data"
    "nv_out V k (socket_fd c) = base @ take sent ?data @ take m (drop sent ?data)"
    using sendfile_law [OF fl sf] c by (auto simp: pos add.commute)
  have cast: "unat (of_nat m :: size_t) = m"
    by (rule unat_of_nat_small) (use le_less_trans [OF m(1) unat_bound64] in simp)
  show ?thesis
  proof (cases "file_count c = of_nat m")
    case True
    then have n: "n = sent + m" using cast c(3,4) by simp
    from file_done [OF laws i1 refl, of o' "write_complete_callback c \<noteq> None" "WriteComplete p"] obtain w' ch' where
      "disableWriting S (conn_channel c) (conn_set p (c\<lparr>fd_offset := o', sending_file := False\<rparr>)
          (if write_complete_callback c \<noteq> None then queue_own S (WriteComplete p) w1 else w1)) = Inr w'"
      "ready V p w' (c\<lparr>fd_offset := o', sending_file := False\<rparr>) ch'"
      "pendingFunctors w' = pendingFunctors w1 @ (if write_complete_callback c \<noteq> None then [WriteComplete p] else [])"
      "nv_out V (kernel w') = nv_out V (kernel w1)" by auto
    with True m n c show ?thesis unfolding file_step_def
      by (intro exI [of _ w'] exI [of _ "c\<lparr>fd_offset := o', sending_file := False\<rparr>"] exI [of _ ch'] exI [of _ n])
         (simp add: file_at_def w1 take_add)
  next
    case False
    have "unat (file_count c - of_nat m) = unat (file_count c) - m"
      using m(1) cast by (simp add: unat_sub_nowrap)
    moreover have "unat (file_count c) \<noteq> m" using False by auto
    ultimately have rest: "sent + m < n" "unat (file_count c - of_nat m) = n - (sent + m)" using m(1) c(3,4) by auto
    from file_rest_ok [OF laws i1, of "file_count c - of_nat m"] obtain w' ch' where
      "file_rest S p (file_count c - of_nat m) w1 = Inr w'"
      "ready V p w' (c\<lparr>fd_offset := o', file_count := file_count c - of_nat m\<rparr>) ch'"
      "isWriting ch'" "pendingFunctors w' = pendingFunctors w1" "nv_out V (kernel w') = nv_out V (kernel w1)" by auto
    with False c sending m rest show ?thesis unfolding file_step_def
      by (intro exI [of _ w'] exI [of _ "c\<lparr>fd_offset := o', file_count := file_count c - of_nat m\<rparr>"] exI [of _ ch']
          exI [of _ "sent + m"]) (simp add: file_at_def w1 take_add)
  qed
qed

lemma sendFileInLoop_ok:
  assumes laws: "tcp_laws S V" and fl: "sendfile_laws S V content" and off: "0 \<le> off"
    and at: "file_at V p fd off n (content fd) base sent w c ch" and sending: "sending_file c"
  shows "file_step S V p fd off n (content fd) base c w (sendFileInLoop S p w)"
proof -
  have i: "ready V p w c ch" and c: "fd_to_send c = fd" "file_count c \<noteq> 0"
    using at sending by (auto simp: file_at_def)
  have h: "conns w p = Some c" "channel_heap w (conn_channel c) = Some ch" "ch_fd ch = socket_fd c" "state c = kConnected"
    using i by (auto simp: ready_def conn_chan_ok_def)
  obtain r o' k where sf: "sock_sendfile S (kernel w) (socket_fd c) fd (fd_offset c) (file_count c) = ((r, o'), k)"
    by (metis surj_pair)
  define w1 where w1: "w1 = conn_set p (c\<lparr>fd_offset := o'\<rparr>) (w\<lparr>kernel := k\<rparr>)"
  have i1: "ready V p w1 (c\<lparr>fd_offset := o'\<rparr>) ch"
    using sendfile_law [OF fl sf] by (intro ready_same [OF i]) (simp_all add: w1)
  note eq = sendFileInLoop_cases [OF h sending sf [folded c(1)] w1]
  show ?thesis
  proof (cases r)
    case (SErr e)
    with file_step_error [OF laws fl at sending w1 _ i1, of e] sf c(2) show ?thesis by (simp add: eq split: if_splits)
  next
    case (SOk m)
    with file_step_some [OF laws fl at sending w1 off _ i1, of m] sf show ?thesis by (simp add: eq)
  qed
qed


section \<open>Runs that send a file\<close>

text \<open>
  \<open>sendFile\<close> in the loop's thread, then any number of writable events, between them whatever leaves
  this connection, its channel and its socket alone.  The flag says whether the kernel has reported
  that the connection is broken.
\<close>

inductive file_run :: "('k, 'y) tcp_sys_scheme \<Rightarrow> 'k net_view \<Rightarrow> ptr \<Rightarrow> int \<Rightarrow> int \<Rightarrow> size_t \<Rightarrow>
    ('x, 'k, 'u, 'a, 'z) world_scheme \<Rightarrow> bool \<Rightarrow> ('x, 'k, 'u, 'a, 'z) world_result \<Rightarrow> bool" for S V p fd off n w0 where
  start: "conns w0 p = Some c \<Longrightarrow>
     file_run S V p fd off n w0 (gave_up S (kernel w0) c fd off n) (sendFile S (thread_id w0) p fd off n w0)"
| writable: "file_run S V p fd off n w0 b (Inr w) \<Longrightarrow> conns w p = Some c \<Longrightarrow>
     file_run S V p fd off n w0 (b \<or> sending_file c \<and> gave_up S (kernel w) c (fd_to_send c) (fd_offset c) (file_count c))
       (handleWrite S p w)"
| others: "file_run S V p fd off n w0 b (Inr w) \<Longrightarrow> conns w' p = conns w p \<Longrightarrow> channel_heap w' = channel_heap w \<Longrightarrow>
     channels w' = channels w \<Longrightarrow> io_same V (kernel w) (kernel w') \<Longrightarrow> file_run S V p fd off n w0 b (Inr w')"

definition file_inv :: "'k net_view \<Rightarrow> ptr \<Rightarrow> int \<Rightarrow> int \<Rightarrow> nat \<Rightarrow> byte list \<Rightarrow> byte list \<Rightarrow> int \<Rightarrow> bool \<Rightarrow>
    ('x, 'k, 'u, 'a, 'z) world_result \<Rightarrow> bool" where
  "file_inv V p fd off n content base sock b r \<longleftrightarrow>
     (\<exists>w c ch sent. r = Inr w \<and> file_at V p fd off n content base sent w c ch \<and> socket_fd c = sock \<and>
       (sending_file c \<longrightarrow> isWriting ch) \<and> (\<not> sending_file c \<longrightarrow> b \<or> sent = n))"

lemma file_step_inv:
  assumes "file_step S V p fd off n content base c w r"
    and "gave_up S (kernel w) c fd (fd_offset c) (file_count c) \<Longrightarrow> b" and "socket_fd c = sock"
  shows "file_inv V p fd off n content base sock b r"
  using assms unfolding file_step_def file_inv_def by blast

lemma handleWrite_file:
  assumes "ready V p w c ch" and "buf_inv (output_buffer c)" and "contents (output_buffer c) = []"
  shows "handleWrite S p w = (if isWriting ch \<and> sending_file c then sendFileInLoop S p w else Inr w)"
  using assms waiting_readable
  by (auto simp: ready_def conn_chan_ok_def handleWrite_def conn_deref_Some ch_deref_Some)

lemma file_run_at:
  assumes "file_run S V p fd off n w0 b r" and laws: "tcp_laws S V" and fl: "sendfile_laws S V content" and off: "0 \<le> off"
    and n: "n \<noteq> 0" and ready0: "ready V p w0 c0 ch0" "buf_inv (output_buffer c0)" "contents (output_buffer c0) = []"
  shows "file_inv V p fd off (unat n) (content fd) (nv_out V (kernel w0) (socket_fd c0)) (socket_fd c0) b r"
  using assms(1)
proof (induction rule: file_run.induct)
  case (start c)
  let ?c = "c\<lparr>sending_file := True, fd_to_send := fd, fd_offset := off, file_count := n\<rparr>"
  let ?w = "conn_set p ?c w0"
  have c: "c = c0" "state c = kConnected" using start ready0 by (auto simp: ready_def)
  have "ready V p ?w ?c ch0" by (rule ready_same [OF ready0(1)]) (simp_all add: c)
  then have "file_at V p fd off (unat n) (content fd) (nv_out V (kernel w0) (socket_fd c0)) 0 ?w ?c ch0"
    using n ready0(2,3) by (simp add: file_at_def c unat_gt_0)
  from sendFileInLoop_ok [OF laws fl off this] have
    "file_step S V p fd off (unat n) (content fd) (nv_out V (kernel w0) (socket_fd c0)) ?c ?w (sendFileInLoop S p ?w)"
    by simp
  moreover have "sendFile S (thread_id w0) p fd off n w0 = sendFileInLoop S p ?w"
    using start c(2) by (simp add: sendFile_def conn_deref_Some isInLoopThread_def Let_def)
  ultimately show ?case using c(1) by (auto intro: file_step_inv simp: gave_up_def)
next
  case (writable b w c)
  then obtain c1 ch sent where at1: "file_at V p fd off (unat n) (content fd) (nv_out V (kernel w0) (socket_fd c0)) sent w c1 ch"
    and h1: "socket_fd c1 = socket_fd c0" "sending_file c1 \<longrightarrow> isWriting ch" "\<not> sending_file c1 \<longrightarrow> b \<or> sent = unat n"
    by (auto simp: file_inv_def)
  have "c1 = c" using at1 writable.hyps(2) by (simp add: file_at_def ready_def)
  note at = at1 [unfolded this] and h = h1 [unfolded this]
  note hw = handleWrite_file [of V p w c ch]
  show ?case
  proof (cases "sending_file c")
    case True
    with at h(2) have "handleWrite S p w = sendFileInLoop S p w" "fd_to_send c = fd"
      by (simp_all add: hw file_at_def)
    with file_step_inv [OF sendFileInLoop_ok [OF laws fl off at True] _ h(1)] True show ?thesis by simp
  next
    case False
    with at have "handleWrite S p w = Inr w" by (simp add: hw file_at_def)
    with False at h show ?thesis by (auto simp: file_inv_def)
  qed
next
  case (others b w w')
  then obtain c ch sent where at: "file_at V p fd off (unat n) (content fd) (nv_out V (kernel w0) (socket_fd c0)) sent w c ch"
    and h: "socket_fd c = socket_fd c0" "sending_file c \<longrightarrow> isWriting ch" "\<not> sending_file c \<longrightarrow> b \<or> sent = unat n"
    by (auto simp: file_inv_def)
  have i: "ready V p w c ch" "conns w p = Some c" using at by (simp_all add: file_at_def ready_def)
  have io: "nv_interest V (kernel w') = nv_interest V (kernel w)" "nv_opened V (kernel w') = nv_opened V (kernel w)"
    using others.hyps(5) by (simp_all add: io_same_def)
  have "ready V p w' c ch"
    by (rule ready_same [OF i(1) others.hyps(2) [unfolded i(2)] others.hyps(3,4) io refl refl refl])
  with at others.hyps(5) have "file_at V p fd off (unat n) (content fd) (nv_out V (kernel w0) (socket_fd c0)) sent w' c ch"
    by (simp add: file_at_def io_same_def)
  with h show ?case unfolding file_inv_def by blast
qed


section \<open>Properties\<close>


text \<open>A kernel that sends up to two bytes of a file per call.\<close>

definition sample_file :: "int \<Rightarrow> byte list" where
  "sample_file fd = [10, 11, 12, 13, 14]"

definition sample_file_sys :: "sample_net tcp_sys" where
  "sample_file_sys = sample_tcp_sys\<lparr>sock_sendfile := (\<lambda>(k, out, shut) sock fd off n.
     let bs = take (min 2 (unat n)) (drop (nat off) (sample_file fd))
     in ((SOk (length bs), off + int (length bs)), (k, out(sock := out sock @ bs), shut)))\<rparr>"

lemma sample_file_laws: "tcp_laws sample_file_sys sample_view" "sendfile_laws sample_file_sys sample_view sample_file"
proof -
  show "tcp_laws sample_file_sys sample_view"
    using sample_tcp_laws by (simp add: tcp_laws_def epoll_laws_def sample_file_sys_def)
  show "sendfile_laws sample_file_sys sample_view sample_file"
    by (auto simp: sendfile_laws_def sample_file_sys_def sample_view_def Let_def min_def)
qed

lemma sample_ready: "ready sample_view 7 sample_world sample_conn sample_channel" "buf_inv (output_buffer sample_conn)"
  "contents (output_buffer sample_conn) = []"
  using sample_sim_at by (auto simp: sim_at_def ready_def)



text \<open>
  C37: a file overtakes the bytes that are waiting.  When \<open>sendFile\<close> is called while the output
  buffer holds bytes accepted earlier, the file's bytes go to the socket at once and the waiting
  bytes stay behind them; and if the whole file is taken, the channel stops asking for writability
  with those bytes still waiting.
\<close>

theorem sendFile_overtakes:
  assumes laws: "tcp_laws S V" and fl: "sendfile_laws S V content" and i: "ready V p w c ch"
    and waiting: "contents (output_buffer c) \<noteq> []"
    and sf: "sock_sendfile S (kernel w) (socket_fd c) fd off n = ((SOk m, off'), k)"
  shows "\<exists>w' c' ch'. sendFile S (thread_id w) p fd off n w = Inr w' \<and> conns w' p = Some c' \<and>
    channel_heap w' (conn_channel c') = Some ch' \<and> contents (output_buffer c') = contents (output_buffer c) \<and>
    nv_out V (kernel w') (socket_fd c) = nv_out V (kernel w) (socket_fd c) @ take m (drop (nat off) (content fd)) \<and>
    (isWriting ch' \<longleftrightarrow> n \<noteq> of_nat m)"
proof -
  let ?c = "c\<lparr>sending_file := True, fd_to_send := fd, fd_offset := off, file_count := n\<rparr>"
  let ?w = "conn_set p ?c w"
  define w1 where w1: "w1 = conn_set p (?c\<lparr>fd_offset := off'\<rparr>) (?w\<lparr>kernel := k\<rparr>)"
  have h: "conns ?w p = Some ?c" "channel_heap ?w (conn_channel ?c) = Some ch" "ch_fd ch = socket_fd ?c" "state ?c = kConnected"
    "sending_file ?c" "sock_sendfile S (kernel ?w) (socket_fd ?c) (fd_to_send ?c) (fd_offset ?c) (file_count ?c) = ((SOk m, off'), k)"
    using i sf by (auto simp: ready_def conn_chan_ok_def)
  have i1: "ready V p w1 (?c\<lparr>fd_offset := off'\<rparr>) ch"
    using sendfile_law [OF fl sf] by (intro ready_same [OF i]) (simp_all add: w1)
  have out: "nv_out V (kernel w1) (socket_fd c) = nv_out V (kernel w) (socket_fd c) @ take m (drop (nat off) (content fd))"
    using sendfile_law [OF fl sf] by (simp add: w1)
  have eq: "sendFile S (thread_id w) p fd off n w = sendFileInLoop S p ?w"
    using i by (simp add: sendFile_def ready_def conn_deref_Some isInLoopThread_def Let_def)
  note step = sendFileInLoop_cases [OF h w1]
  show ?thesis
  proof (cases "n = of_nat m")
    case True
    then have "sendFile S (thread_id w) p fd off n w = disableWriting S (conn_channel c)
        (conn_set p (?c\<lparr>fd_offset := off', sending_file := False\<rparr>)
          (if write_complete_callback c \<noteq> None then queue_own S (WriteComplete p) w1 else w1))"
      unfolding eq step by simp
    with file_done [OF laws i1 refl, of off' "write_complete_callback c \<noteq> None" "WriteComplete p"] obtain w' ch' where
      "sendFile S (thread_id w) p fd off n w = Inr w'" "ready V p w' (?c\<lparr>fd_offset := off', sending_file := False\<rparr>) ch'"
      "\<not> isWriting ch'" "nv_out V (kernel w') = nv_out V (kernel w1)" by auto
    with True out show ?thesis
      by (intro exI [of _ w'] exI [of _ "?c\<lparr>fd_offset := off', sending_file := False\<rparr>"] exI [of _ ch'])
         (simp add: ready_def conn_chan_ok_def)
  next
    case False
    from file_rest_ok [OF laws i1, of "n - of_nat m"] False out show ?thesis
      by (auto simp: eq step ready_def conn_chan_ok_def)
  qed
qed

definition waiting_conn :: "(nat, nat) connection" where
  "waiting_conn = sample_conn\<lparr>output_buffer := \<lparr>buf = replicate 16 1, read_index = 8, write_index = 10\<rparr>\<rparr>"

theorem sendFile_overtakes_witness:
  "\<exists>w' c' ch'. sendFile sample_file_sys (thread_id (conn_set 7 waiting_conn sample_world)) 7 20 1 2
      (conn_set 7 waiting_conn sample_world) = Inr w' \<and> conns w' 7 = Some c' \<and>
    channel_heap w' (conn_channel c') = Some ch' \<and> contents (output_buffer c') = contents (output_buffer waiting_conn) \<and>
    nv_out sample_view (kernel w') (socket_fd waiting_conn) =
      nv_out sample_view (kernel (conn_set 7 waiting_conn sample_world)) (socket_fd waiting_conn) @
        take 2 (drop (nat 1) (sample_file 20)) \<and>
    (isWriting ch' \<longleftrightarrow> (2 :: size_t) \<noteq> of_nat 2)"
proof (rule sendFile_overtakes [OF sample_file_laws])
  show "ready sample_view 7 (conn_set 7 waiting_conn sample_world) waiting_conn sample_channel"
    by (rule ready_same [OF sample_ready(1)]) (simp_all add: waiting_conn_def)
  show "contents (output_buffer waiting_conn) \<noteq> []" by (simp add: waiting_conn_def contents_def)
  show "sock_sendfile sample_file_sys (kernel (conn_set 7 waiting_conn sample_world)) (socket_fd waiting_conn) 20 1 2 =
      ((SOk 2, 3), (([(5, (3, 3))], 0, 7), (\<lambda>_. [])(5 := [11, 12]), {}))"
    by (simp add: sample_file_sys_def sample_file_def sample_world_def waiting_conn_def sample_conn_def)
qed

text \<open>
  The converse: when a writable event empties the output buffer of a connection that is sending a
  file, writability is not watched any more although the file is not finished.
\<close>

lemma flush_stalls_file:
  assumes laws: "tcp_laws S V" and i: "ready V p w c ch" and ch: "isWriting ch" and sending: "sending_file c"
    and b: "buf_inv (output_buffer c)" "contents (output_buffer c) \<noteq> []"
    and wr: "sock_write S (kernel w) (socket_fd c) (contents (output_buffer c)) = (SOk (length (contents (output_buffer c))), k)"
  shows "\<exists>w' c' ch'. handleWrite S p w = Inr w' \<and> conns w' p = Some c' \<and> channel_heap w' (conn_channel c') = Some ch' \<and>
    sending_file c' \<and> \<not> isWriting ch'"
proof -
  let ?n = "of_nat (length (contents (output_buffer c))) :: size_t"
  let ?c = "c\<lparr>output_buffer := retrieve ?n (output_buffer c)\<rparr>"
  let ?w = "conn_set p ?c (w\<lparr>kernel := k\<rparr>)"
  have h: "conns w p = Some c" "channel_heap w (conn_channel c) = Some ch" "ch_fd ch = socket_fd c" "state c = kConnected"
    using i by (auto simp: ready_def conn_chan_ok_def)
  have "?n = readableBytes (output_buffer c)" by (simp flip: unat_readable [OF b(1)])
  then have empty: "readableBytes (retrieve ?n (output_buffer c)) = 0"
    using retrieve_ok [OF b(1), of ?n] waiting_readable unat_readable [OF b(1)] by simp
  have "ready V p ?w ?c ch" using tcp_write [OF laws wr] by (intro ready_same [OF i]) simp_all
  from ready_set_events [OF laws this, of "\<lambda>e. e AND NOT kWriteEvent"] obtain w' ch' where
    "disableWriting S (conn_channel c) ?w = Inr w'" "ready V p w' ?c ch'" "\<not> isWriting ch'"
    using isWriting_off by (force simp: disableWriting_def)
  with h ch sending b empty wr waiting_readable [OF b(1)] show ?thesis
    by (simp add: handleWrite_def conn_deref_Some ch_deref_Some writeFd_ok [OF b(1)] Let_def ready_def conn_chan_ok_def)
qed

text \<open>
  A file that is shorter than the count asked for keeps the loop busy for ever: at its end
  \<open>sendfile\<close> sends nothing, and every writable event leaves the connection as it was, still watched.
\<close>

lemma short_file_spins:
  assumes i: "ready V p w c ch" and ch: "isWriting ch" and sending: "sending_file c"
    and b: "buf_inv (output_buffer c)" "contents (output_buffer c) = []" and n: "file_count c \<noteq> 0"
    and sf: "sock_sendfile S (kernel w) (socket_fd c) (fd_to_send c) (fd_offset c) (file_count c) = ((SOk 0, fd_offset c), k)"
  shows "handleWrite S p w = Inr (w\<lparr>kernel := k\<rparr>)"
proof -
  have h: "conns w p = Some c" "channel_heap w (conn_channel c) = Some ch" "ch_fd ch = socket_fd c" "state c = kConnected"
    using i by (auto simp: ready_def conn_chan_ok_def)
  have "conn_set p c (w\<lparr>kernel := k\<rparr>) = w\<lparr>kernel := k\<rparr>" using h(1) by (simp add: conn_set_def fun_upd_idem)
  with h ch sending n sf show ?thesis
    by (simp add: handleWrite_file [OF i b] sendFileInLoop_cases [OF h sending sf refl] file_rest_def conn_deref_Some
        ch_deref_Some)
qed

text \<open>
  A shutdown while a file is being sent neither sends the rest nor shuts the write end down: the
  next writable event drops the file, and every later one finds nothing to do, still watched.
\<close>

lemma shutdown_drops_file:
  assumes i: "ready V p w c ch" and ch: "isWriting ch" and sending: "sending_file c"
    and b: "buf_inv (output_buffer c)" "contents (output_buffer c) = []"
  shows "\<exists>w1 w2. shutdown S (thread_id w) p w = Inr w1 \<and> handleWrite S p w1 = Inr w2 \<and> handleWrite S p w2 = Inr w2 \<and>
    kernel w2 = kernel w \<and> channel_heap w2 = channel_heap w \<and>
    conns w2 p = Some (c\<lparr>state := kDisConnecting, sending_file := False\<rparr>)"
  using i ch sending waiting_readable [OF b(1)] b(2)
  by (simp add: ready_def conn_chan_ok_def shutdown_def handleWrite_def sendFileInLoop_def conn_deref_def ch_deref_Some
      setState_ok runInLoop_def isInLoopThread_def shutDownInLoop_def)

end
