(* ===== verification/Loop_Safety.thy ===== *)
theory Loop_Safety
  imports Tcp_File
begin

text \<open>
  Safety of a whole loop: polling, dispatching the channel callbacks of connections and running
  the queued functors (src/EventLoop.cc, src/Channel.cc, src/EPollPoller.cc and
  src/TcpConnection.cc together).  An invariant of the loop, its channels, its connections and its
  queue is kept by every operation, whatever the kernel answers, so that no address is used that
  is not allocated, no empty callback is called and no descriptor is registered twice; the one
  failure left is a buffer that would pass the largest size of a vector.
\<close>

section \<open>Operations that keep an invariant\<close>

text \<open>
  An operation is safe in a state when it ends in a good state the first one may evolve into, or
  runs out of resources: a buffer past the largest size of a vector, or the connections counted
  past the largest integer.
\<close>

definition exhausted :: "error \<Rightarrow> bool" where
  "exhausted e \<longleftrightarrow> e = LengthError \<or> e = SignedOverflow"

definition safe_in :: "('w \<Rightarrow> bool) \<Rightarrow> ('w \<Rightarrow> 'w \<Rightarrow> bool) \<Rightarrow> 'w \<Rightarrow> error + 'w \<Rightarrow> bool" where
  "safe_in good evolves w r \<longleftrightarrow> (\<exists>e. r = Inl e \<and> exhausted e) \<or> (\<exists>w'. r = Inr w' \<and> good w' \<and> evolves w w')"

locale evolution =
  fixes good :: "'w \<Rightarrow> bool" and evolves :: "'w \<Rightarrow> 'w \<Rightarrow> bool"
  assumes refl: "evolves w w" and trans: "evolves w w1 \<Longrightarrow> evolves w1 w2 \<Longrightarrow> evolves w w2"
begin

lemma return: "good w \<Longrightarrow> safe_in good evolves w (Inr w)"
  using refl by (simp add: safe_in_def)

lemma result: "good w' \<Longrightarrow> evolves w w' \<Longrightarrow> safe_in good evolves w (Inr w')"
  by (simp add: safe_in_def)

lemma from_later: "evolves w w1 \<Longrightarrow> safe_in good evolves w1 r \<Longrightarrow> safe_in good evolves w r"
  unfolding safe_in_def using trans by blast

lemma sequence:
  assumes "safe_in good evolves w m"
    and "\<And>w1. m = Inr w1 \<Longrightarrow> good w1 \<Longrightarrow> evolves w w1 \<Longrightarrow> safe_in good evolves w1 (f w1)"
  shows "safe_in good evolves w (and_then m f)"
  using assms from_later by (cases m) (fastforce simp: safe_in_def)+

lemma iterated:
  assumes "good w" and "\<And>x w1. x \<in> set xs \<Longrightarrow> good w1 \<Longrightarrow> evolves w w1 \<Longrightarrow> safe_in good evolves w1 (f x w1)"
  shows "safe_in good evolves w (fold_r f xs w)"
  using assms
proof (induction xs arbitrary: w)
  case Nil
  then show ?case by (simp add: return)
next
  case (Cons x xs)
  have "safe_in good evolves w1 (fold_r f xs w1)" if "good w1" "evolves w w1" for w1
    using that Cons.prems(2) trans by (intro Cons.IH) auto
  then show ?case using Cons.prems refl by (auto intro: sequence)
qed

end

section \<open>The invariant of a loop\<close>

text \<open>What other parts rely on of a connection and of a channel.\<close>

definition conn_face :: "('x, 'k, 'u, 'a, 'z) world_scheme \<Rightarrow> ptr \<Rightarrow> (ptr \<times> bool \<times> bool) option" where
  "conn_face w p = map_option (\<lambda>c. (conn_channel c, write_complete_callback c \<noteq> None, high_water_mark_callback c \<noteq> None)) (conns w p)"

definition ch_face :: "'cb channel \<Rightarrow> int \<times> 'cb option \<times> 'cb option \<times> 'cb option \<times> 'cb option" where
  "ch_face ch = (ch_fd ch, read_callback ch, write_callback ch, close_callback ch, error_callback ch)"

text \<open>
  What is assumed of the functors and callbacks that are not of connections, of the loop and
  the message callback of a connection, and of the rest of the state.
\<close>

record ('x, 'u, 'z) contract =
  closure_ok :: "'x \<Rightarrow> bool"
  callback_ok :: "'x call \<Rightarrow> bool"
  conn_ok :: "ptr \<Rightarrow> 'u option \<Rightarrow> bool"
  rest_ok :: "'z \<Rightarrow> bool"

type_synonym faces = "ptr \<rightharpoonup> ptr \<times> bool \<times> bool"

text \<open>A functor that can run, and a channel whose callbacks can.\<close>

fun functor_ok :: "('x, 'u, 'z) contract \<Rightarrow> faces \<Rightarrow> 'x loop_functor \<Rightarrow> bool" where
  "functor_ok C F (SendInLoop p data) \<longleftrightarrow> F p \<noteq> None \<and> length data \<le> vec_max_size"
| "functor_ok C F (SendFileInLoop p) \<longleftrightarrow> F p \<noteq> None"
| "functor_ok C F (ShutDownInLoop p) \<longleftrightarrow> F p \<noteq> None"
| "functor_ok C F (WriteComplete p) \<longleftrightarrow> (\<exists>q b. F p = Some (q, True, b))"
| "functor_ok C F (HighWaterMark p) \<longleftrightarrow> (\<exists>q b. F p = Some (q, b, True))"
| "functor_ok C F (ConnectionEstablished p) \<longleftrightarrow> F p \<noteq> None"
| "functor_ok C F (ConnectionDestroyed p) \<longleftrightarrow> F p \<noteq> None"
| "functor_ok C F (OtherFunctor x) \<longleftrightarrow> closure_ok C x"

fun call_ok :: "('x, 'u, 'z) contract \<Rightarrow> faces \<Rightarrow> 'x channel_cb call \<Rightarrow> bool" where
  "call_ok C F (CallRead (ConnRead p) t) \<longleftrightarrow> F p \<noteq> None"
| "call_ok C F (Call (ConnWrite p)) \<longleftrightarrow> F p \<noteq> None"
| "call_ok C F (Call (ConnClose p)) \<longleftrightarrow> F p \<noteq> None"
| "call_ok C F (Call (ConnError p)) \<longleftrightarrow> F p \<noteq> None"
| "call_ok C F (CallRead (OtherCallback x) t) \<longleftrightarrow> callback_ok C (CallRead x t)"
| "call_ok C F (Call (OtherCallback x)) \<longleftrightarrow> callback_ok C (Call x)"
| "call_ok C F _ \<longleftrightarrow> False"

definition slots_ok :: "('x, 'u, 'z) contract \<Rightarrow> faces \<Rightarrow> 'x channel_cb channel \<Rightarrow> bool" where
  "slots_ok C F ch \<longleftrightarrow> (\<forall>cb t. read_callback ch = Some cb \<longrightarrow> call_ok C F (CallRead cb t)) \<and>
     (\<forall>cb. cb \<in> set_option (write_callback ch) \<union> set_option (close_callback ch) \<union> set_option (error_callback ch) \<longrightarrow>
        call_ok C F (Call cb))"

definition world_inv :: "'k net_view \<Rightarrow> ('x, 'u, 'z) contract \<Rightarrow> ('x, 'k, 'u, 'a, 'z) world_scheme \<Rightarrow> bool" where
  "world_inv V C w \<longleftrightarrow>
     poller_inv (nv_interest V) w \<and>
     (\<forall>q q' ch ch'. channel_heap w q = Some ch \<longrightarrow> channel_heap w q' = Some ch' \<longrightarrow> ch_fd ch = ch_fd ch' \<longrightarrow> q = q') \<and>
     (\<forall>q ch. channel_heap w q = Some ch \<longrightarrow> ch_fd ch \<in> nv_opened V (kernel w) \<and> slots_ok C (conn_face w) ch) \<and>
     (\<forall>p c. conns w p = Some c \<longrightarrow>
        channel_heap w (conn_channel c) \<noteq> None \<and> buf_inv (input_buffer c) \<and> buf_inv (output_buffer c) \<and>
        conn_ok C (conn_loop c) (message_callback c)) \<and>
     finite (dom (channel_heap w)) \<and> finite (dom (conns w)) \<and>
     (\<forall>f \<in> set (pendingFunctors w). functor_ok C (conn_face w) f) \<and>
     rest_ok C (world.more w)"

text \<open>Connections and channels stay, and callbacks that are set stay set.\<close>

definition world_evolves :: "('x, 'k, 'u, 'a, 'z) world_scheme \<Rightarrow> ('x, 'k, 'u, 'a, 'z) world_scheme \<Rightarrow> bool" where
  "world_evolves w w' \<longleftrightarrow> dom (channel_heap w) \<subseteq> dom (channel_heap w') \<and>
     (\<forall>p q a b. conn_face w p = Some (q, a, b) \<longrightarrow> (\<exists>a' b'. conn_face w' p = Some (q, a', b') \<and> (a \<longrightarrow> a') \<and> (b \<longrightarrow> b')))"

lemma world_evolves_refl [simp]: "world_evolves w w"
  by (auto simp: world_evolves_def)

lemma world_evolves_face:
  assumes "world_evolves w w'" and "conn_face w p = Some (q, a, b)"
  obtains a' b' where "conn_face w' p = Some (q, a', b')" and "a \<longrightarrow> a'" and "b \<longrightarrow> b'"
  using assms unfolding world_evolves_def by blast

lemma world_evolves_trans:
  assumes "world_evolves w w1" and "world_evolves w1 w2"
  shows "world_evolves w w2"
proof -
  have "\<exists>a' b'. conn_face w2 p = Some (q, a', b') \<and> (a \<longrightarrow> a') \<and> (b \<longrightarrow> b')" if "conn_face w p = Some (q, a, b)" for p q a b
    using that by (elim world_evolves_face [OF assms(1)] world_evolves_face [OF assms(2)]) simp
  moreover have "dom (channel_heap w) \<subseteq> dom (channel_heap w2)"
    using assms by (meson world_evolves_def order_trans)
  ultimately show ?thesis unfolding world_evolves_def by blast
qed

interpretation lp: evolution "world_inv V C" world_evolves for V C
  by unfold_locales (rule world_evolves_refl, rule world_evolves_trans)

definition world_safe :: "'k net_view \<Rightarrow> ('x, 'u, 'z) contract \<Rightarrow> ('x, 'k, 'u, 'a, 'z) world_scheme \<Rightarrow> ('x, 'k, 'u, 'a, 'z) world_result \<Rightarrow> bool" where
  "world_safe V C = safe_in (world_inv V C) world_evolves"

lemmas safe_return = lp.return [folded world_safe_def]
lemmas safe_result = lp.result [folded world_safe_def]
lemmas safe_later = lp.from_later [folded world_safe_def]
lemmas safe_then = lp.sequence [folded world_safe_def]
lemmas safe_fold = lp.iterated [folded world_safe_def]

lemma functor_ok_evolves:
  assumes "functor_ok C (conn_face w) f" and "world_evolves w w'"
  shows "functor_ok C (conn_face w') f"
  using assms by (cases f) (fastforce simp: world_evolves_def)+

definition conn_at :: "('x, 'k, 'u, 'a, 'z) world_scheme \<Rightarrow> ptr \<Rightarrow> bool" where
  "conn_at w p \<longleftrightarrow> conn_face w p \<noteq> None"

definition chan_at :: "('x, 'k, 'u, 'a, 'z) world_scheme \<Rightarrow> ptr \<Rightarrow> bool" where
  "chan_at w q \<longleftrightarrow> channel_heap w q \<noteq> None"

lemma face_Some: "conn_at w p \<Longrightarrow> \<exists>c. conns w p = Some c"
  by (auto simp: conn_at_def conn_face_def)

lemma conn_at_Some: "conns w p = Some c \<Longrightarrow> conn_at w p"
  by (simp add: conn_at_def conn_face_def)

lemma chan_at_Some: "channel_heap w q = Some ch \<Longrightarrow> chan_at w q"
  by (simp add: chan_at_def)

lemma world_invD:
  assumes "world_inv V C w"
  shows "poller_inv (nv_interest V) w"
    and "channel_heap w q = Some ch \<Longrightarrow> channel_heap w q' = Some ch' \<Longrightarrow> ch_fd ch = ch_fd ch' \<Longrightarrow> q = q'"
    and "channel_heap w q = Some ch \<Longrightarrow> ch_fd ch \<in> nv_opened V (kernel w) \<and> slots_ok C (conn_face w) ch"
    and "conns w p = Some c \<Longrightarrow>
      (\<exists>ch. channel_heap w (conn_channel c) = Some ch) \<and> buf_inv (input_buffer c) \<and> buf_inv (output_buffer c) \<and>
      conn_ok C (conn_loop c) (message_callback c)"
    and "f \<in> set (pendingFunctors w) \<Longrightarrow> functor_ok C (conn_face w) f"
    and "rest_ok C (world.more w)" and "finite (dom (channel_heap w))" and "finite (dom (conns w))"
  using assms unfolding world_inv_def by blast+

text \<open>A state that differs only in what nobody else relies on.\<close>

lemma world_inv_frame:
  fixes w w' :: "('x, 'k, 'u, 'a, 'z) world_scheme"
  assumes inv: "world_inv V C w" and pinv: "poller_inv (nv_interest V) w'"
    and ch: "\<And>q. map_option ch_face (channel_heap w' q) = map_option ch_face (channel_heap w q)"
    and face: "\<And>p. conn_face w' p = conn_face w p"
    and bufs: "\<And>p c. conns w' p = Some c \<Longrightarrow> buf_inv (input_buffer c) \<and> buf_inv (output_buffer c) \<and> conn_ok C (conn_loop c) (message_callback c)"
    and pend: "\<And>f. f \<in> set (pendingFunctors w') \<Longrightarrow> functor_ok C (conn_face w) f"
    and opn: "nv_opened V (kernel w) \<subseteq> nv_opened V (kernel w')" and more: "rest_ok C (world.more w')"
  shows "world_inv V C w'" and "world_evolves w w'"
proof -
  have F: "conn_face w' = conn_face w" using face by blast
  have old: "\<exists>d. channel_heap w q = Some d \<and> ch_face d = ch_face c" if "channel_heap w' q = Some c" for q c
    using ch [of q] that by (auto simp: map_option_case split: option.splits)
  have new: "\<exists>d. channel_heap w' q = Some d \<and> ch_face d = ch_face c" if "channel_heap w q = Some c" for q c
    using ch [of q] that by (auto simp: map_option_case split: option.splits)
  have slots: "slots_ok C G d = slots_ok C G c" if "ch_face d = ch_face c" for G d c
    using that by (simp add: slots_ok_def ch_face_def)
  have "dom (channel_heap w') = dom (channel_heap w)" by (fastforce simp: dom_def dest: old new)
  moreover have "dom (conns u) = dom (conn_face u)" for u :: "('x, 'k, 'u, 'a, 'z) world_scheme"
    by (auto simp: conn_face_def dom_def)
  ultimately have fin: "finite (dom (channel_heap w'))" "finite (dom (conns w'))"
    using world_invD(7,8) [OF inv] by (simp_all add: F)
  show "world_inv V C w'" unfolding world_inv_def
  proof (intro conjI allI impI ballI pinv)
    fix q q' d d' assume "channel_heap w' q = Some d" "channel_heap w' q' = Some d'" "ch_fd d = ch_fd d'"
    with old world_invD(2) [OF inv] show "q = q'" by (metis ch_face_def prod.inject)
  next
    fix q and d assume "channel_heap w' q = Some d"
    with old obtain c where c: "channel_heap w q = Some c" "ch_face c = ch_face d" by blast
    then show "ch_fd d \<in> nv_opened V (kernel w')" "slots_ok C (conn_face w') d"
      using world_invD(3) [OF inv c(1)] slots [OF c(2)] opn by (auto simp: F ch_face_def)
  next
    fix p c assume "conns w' p = Some c"
    then have "conn_face w p = Some (conn_channel c, write_complete_callback c \<noteq> None, high_water_mark_callback c \<noteq> None)"
      unfolding F [symmetric] by (simp add: conn_face_def)
    then obtain d where "conns w p = Some d" "conn_channel d = conn_channel c" by (auto simp: conn_face_def)
    with world_invD(4) [OF inv] new show "channel_heap w' (conn_channel c) \<noteq> None" by fastforce
  qed (use bufs pend more fin in \<open>auto simp: F\<close>)
  show "world_evolves w w'" using new by (auto simp: world_evolves_def F)
qed


section \<open>Primitive changes\<close>

text \<open>What is asked of the kernel: the laws of connections, and that no call closes a descriptor.\<close>

definition quiet_call :: "'k net_view \<Rightarrow> 'k \<Rightarrow> 'k \<Rightarrow> bool" where
  "quiet_call V k k' \<longleftrightarrow> nv_interest V k' = nv_interest V k \<and> nv_opened V k' = nv_opened V k"

definition loop_laws :: "('k, 'y) tcp_sys_scheme \<Rightarrow> 'k net_view \<Rightarrow> bool" where
  "loop_laws S V \<longleftrightarrow> tcp_laws S V \<and> readv_bounded (sock_readv S) \<and>
     (\<forall>k fd ls. quiet_call V k (snd (sock_readv S k fd ls))) \<and>
     (\<forall>k out fd off n. quiet_call V k (snd (sock_sendfile S k out fd off n))) \<and>
     (\<forall>k fd. quiet_call V k (snd (sock_error S k fd)))"

lemmas loop_tcp = loop_laws_def [THEN iffD1, THEN conjunct1]
lemmas loop_readv = loop_laws_def [THEN iffD1, THEN conjunct2, THEN conjunct1]
lemmas loop_quiet_readv = loop_laws_def [THEN iffD1, THEN conjunct2, THEN conjunct2, THEN conjunct1, rule_format]
lemmas loop_quiet_sendfile = loop_laws_def [THEN iffD1, THEN conjunct2, THEN conjunct2, THEN conjunct2, THEN conjunct1, rule_format]
lemmas loop_quiet_error = loop_laws_def [THEN iffD1, THEN conjunct2, THEN conjunct2, THEN conjunct2, THEN conjunct2, rule_format]

lemma more_simps [simp]:
  "world.more (conn_set p c w) = world.more w" "world.more (ch_set q ch w) = world.more w"
  "world.more (queueInLoop S tid f w) = world.more w" "world.more (queue_own S f w) = world.more w"
  "world.more (asked q ch e k w) = world.more w"
  by (simp_all add: conn_set_def ch_set_def queue_own_def queueInLoop_def push_functor_def wakeUp_def asked_def Let_def)

lemma conn_face_simps [simp]:
  "conn_face (w\<lparr>kernel := k\<rparr>) = conn_face w" "conn_face (ch_set q ch w) = conn_face w"
  "conn_face (queue_own S f w) = conn_face w"
  by (simp_all add: conn_face_def fun_eq_iff ch_set_def)

lemma safe_kernel:
  assumes inv: "world_inv V C w" and k: "quiet_call V (kernel w) k"
  shows "world_inv V C (w\<lparr>kernel := k\<rparr>)" and "world_evolves w (w\<lparr>kernel := k\<rparr>)"
proof -
  have "poller_inv (nv_interest V) (w\<lparr>kernel := k\<rparr>)"
    using world_invD(1) [OF inv] k by - (rule poller_inv_same, auto simp: quiet_call_def)
  note fr = world_inv_frame [OF inv this]
  show "world_inv V C (w\<lparr>kernel := k\<rparr>)" "world_evolves w (w\<lparr>kernel := k\<rparr>)"
    using world_invD(4,5,6) [OF inv] k by (auto intro!: fr simp: quiet_call_def)
qed

text \<open>A connection changes in its own fields: state, buffers, progress of a file.\<close>

definition same_face :: "('u, 'a) connection \<Rightarrow> ('u, 'a) connection \<Rightarrow> bool" where
  "same_face c c' \<longleftrightarrow> conn_channel c' = conn_channel c \<and> conn_loop c' = conn_loop c \<and> message_callback c' = message_callback c \<and>
     (write_complete_callback c' = None \<longleftrightarrow> write_complete_callback c = None) \<and>
     (high_water_mark_callback c' = None \<longleftrightarrow> high_water_mark_callback c = None) \<and>
     buf_inv (input_buffer c') \<and> buf_inv (output_buffer c')"

lemma conn_face_set:
  assumes "conns w p = Some c" and "same_face c c'"
  shows "conn_face (conn_set p c' w) = conn_face w"
  using assms by (auto simp: conn_face_def same_face_def fun_eq_iff)

lemma safe_conn_set:
  assumes inv: "world_inv V C w" and c: "conns w p = Some c" and face: "same_face c c'"
  shows "world_inv V C (conn_set p c' w)" and "world_evolves w (conn_set p c' w)"
proof -
  have "poller_inv (nv_interest V) (conn_set p c' w)"
    using world_invD(1) [OF inv] by - (rule poller_inv_same, auto)
  note fr = world_inv_frame [OF inv this]
  have bufs: "buf_inv (input_buffer d) \<and> buf_inv (output_buffer d) \<and> conn_ok C (conn_loop d) (message_callback d)" if "conns (conn_set p c' w) q = Some d" for q d
    using that face c world_invD(4) [OF inv] by (auto simp: same_face_def split: if_splits)
  show "world_inv V C (conn_set p c' w)" "world_evolves w (conn_set p c' w)"
    using world_invD(5,6) [OF inv] bufs by (auto intro!: fr simp: conn_face_set [OF c face])
qed

lemma safe_queue:
  assumes inv: "world_inv V C w" and laws: "tcp_laws S V" and f: "functor_ok C (conn_face w) f"
  shows "world_inv V C (queue_own S f w)" and "world_evolves w (queue_own S f w)"
proof -
  have io: "io_same V (kernel w) (kernel (queue_own S f w))" by (rule queue_own_io [OF laws])
  then have "poller_inv (nv_interest V) (queue_own S f w)"
    using world_invD(1) [OF inv] by - (rule poller_inv_same, auto simp: io_same_def)
  note fr = world_inv_frame [OF inv this]
  show "world_inv V C (queue_own S f w)" "world_evolves w (queue_own S f w)"
    using world_invD(4,5,6) [OF inv] io f by (auto intro!: fr simp: io_same_def)
qed

text \<open>The slot of a channel's descriptor in the poller's map is free or its own.\<close>

lemma own_slot:
  assumes inv: "world_inv V C w" and q: "channel_heap w q = Some ch"
  shows "channels w (ch_fd ch) = None \<or> channels w (ch_fd ch) = Some q"
proof (cases "channels w (ch_fd ch)")
  case (Some q')
  with poller_invD(2) [OF world_invD(1) [OF inv]] obtain ch' where "channel_heap w q' = Some ch'" "ch_fd ch' = ch_fd ch" by blast
  with world_invD(2) [OF inv q] Some show ?thesis by auto
qed simp

lemma safe_heap:
  assumes inv: "world_inv V C w" and pinv: "poller_inv (nv_interest V) w'"
    and q: "channel_heap w q = Some ch" and ch': "channel_heap w' = (channel_heap w)(q \<mapsto> ch')" "ch_face ch' = ch_face ch"
    and same: "conns w' = conns w" "pendingFunctors w' = pendingFunctors w" "nv_opened V (kernel w') = nv_opened V (kernel w)"
      "world.more w' = world.more w"
  shows "world_safe V C w (Inr w')"
proof -
  have "conn_face w' = conn_face w" by (simp add: conn_face_def fun_eq_iff same(1))
  then show ?thesis
    using world_invD(4,5,6) [OF inv] q ch' same
    by (intro safe_result world_inv_frame [OF inv pinv]) auto
qed

lemma safe_set_events:
  assumes laws: "tcp_laws S V" and inv: "world_inv V C w" and q: "channel_heap w q = Some ch"
  shows "world_safe V C w (set_events S q f w)"
proof -
  from set_events_ok [OF tcp_epoll [OF laws] world_invD(1) [OF inv] q _ own_slot [OF inv q], of f] world_invD(3) [OF inv q]
  obtain k where k: "set_events S q f w = Inr (asked q ch (f (events ch)) k w)"
      "poller_inv (nv_interest V) (asked q ch (f (events ch)) k w)" "nv_opened V k = nv_opened V (kernel w)" by auto
  show ?thesis unfolding k(1) by (rule safe_heap [OF inv k(2) q asked_sel(5)]) (simp_all add: k(3) ch_face_def)
qed


lemma safe_removeChannel:
  assumes laws: "tcp_laws S V" and inv: "world_inv V C w" and q: "channel_heap w q = Some ch"
  shows "world_safe V C w (removeChannel S q w)"
proof -
  from removeChannel_ok [OF tcp_epoll [OF laws] world_invD(1) [OF inv] q] obtain w' where
    w': "removeChannel S q w = Inr w'" "poller_inv (nv_interest V) w'"
      "channel_heap w' = (channel_heap w)(q \<mapsto> ch\<lparr>index := kNew\<rparr>)" "nv_opened V (kernel w') = nv_opened V (kernel w)"
      "poller_only w w'" by auto
  have "conns w' = conns w" "pendingFunctors w' = pendingFunctors w" "world.more w' = world.more w"
    using arg_cong [OF w'(5) [unfolded poller_only_def], of conns]
      arg_cong [OF w'(5) [unfolded poller_only_def], of pendingFunctors]
      arg_cong [OF w'(5) [unfolded poller_only_def], of world.more] by simp_all
  then show ?thesis unfolding w'(1) by (intro safe_heap [OF inv w'(2) q w'(3)]) (simp_all add: w'(4) ch_face_def)
qed

lemma safe_tie:
  assumes inv: "world_inv V C w" and q: "channel_heap w q = Some ch"
  shows "world_safe V C w (tie_channel q obj w)"
proof -
  let ?ch = "ch\<lparr>tie_obj := Some obj, tied := True\<rparr>"
  have "poller_inv (nv_interest V) (ch_set q ?ch w)"
    by (rule poller_inv_cong [OF world_invD(1) [OF inv]]) (use q in auto)
  then have "world_safe V C w (Inr (ch_set q ?ch w))"
    by (rule safe_heap [OF inv _ q ch_set_sel(1)]) (simp_all add: ch_face_def ch_set_def)
  then show ?thesis using q by (simp add: tie_channel_def ch_deref_Some)
qed

section \<open>Operations of a connection\<close>

text \<open>
  Where an operation starts: the connection is there, with its channel.  The changes of the
  connection itself are collected in \<open>faces\<close>.
\<close>

lemma safe_conn:
  assumes "world_inv V C w" and "conn_at w p"
    and "\<And>c ch. conns w p = Some c \<Longrightarrow> channel_heap w (conn_channel c) = Some ch \<Longrightarrow> chan_at w (conn_channel c) \<Longrightarrow>
      buf_inv (input_buffer c) \<Longrightarrow> buf_inv (output_buffer c) \<Longrightarrow> world_safe V C w (f c)"
  shows "world_safe V C w (and_then (conn_deref p w) f)"
proof -
  from face_Some [OF assms(2)] obtain c where c: "conns w p = Some c" by blast
  with assms(3) [OF c] world_invD(4) [OF assms(1) c] show ?thesis by (auto simp: conn_deref_Some intro: chan_at_Some)
qed

lemma safe_setState:
  assumes "world_inv V C w" and "conn_at w p"
  shows "world_safe V C w (setState p st w)"
  unfolding setState_def using assms
  by (intro safe_conn safe_result safe_conn_set) (auto simp: same_face_def)

text \<open>The connections are there after a safe step, and so are the channels.\<close>

lemma face_evolves: "world_evolves w w' \<Longrightarrow> conn_at w p \<Longrightarrow> conn_at w' p"
  unfolding world_evolves_def conn_at_def by fastforce

lemma heap_evolves: "world_evolves w w' \<Longrightarrow> chan_at w q \<Longrightarrow> chan_at w' q"
  by (auto simp: world_evolves_def chan_at_def dom_def)

lemma safe_channel_op:
  assumes "tcp_laws S V" and "world_inv V C w" and "chan_at w q"
  shows "world_safe V C w (enableReading S q w)" "world_safe V C w (enableWriting S q w)"
    "world_safe V C w (disableWriting S q w)" "world_safe V C w (disableAll S q w)" "world_safe V C w (removeChannel S q w)"
    "world_safe V C w (tie_channel q obj w)"
  using assms safe_set_events [OF assms(1,2)] safe_removeChannel [OF assms(1,2)] safe_tie [OF assms(2)]
  by (auto simp: chan_at_def enableReading_def enableWriting_def disableWriting_def disableAll_def)

lemma shutDownWrite_quiet:
  assumes "tcp_laws S V"
  shows "quiet_call V (kernel w) (kernel (shutDownWrite S fd w))"
  using tcp_shutdown [OF assms] by (simp add: shutDownWrite_def quiet_call_def)

lemma safe_shutDownInLoop:
  assumes laws: "tcp_laws S V" and inv: "world_inv V C w" and p: "conn_at w p"
  shows "world_safe V C w (shutDownInLoop S p w)"
proof -
  have "world_safe V C w (Inr (shutDownWrite S fd w))" for fd
    using safe_kernel [OF inv shutDownWrite_quiet [OF laws, of w fd]] by (intro safe_result) (simp_all add: shutDownWrite_def)
  then show ?thesis
    unfolding shutDownInLoop_def by (intro safe_conn [OF inv p]) (auto simp: ch_deref_Some intro: safe_return [OF inv])
qed


text \<open>The user's code, called for a connection that is there, is safe itself.\<close>

fun conn_of :: "'u user_call \<Rightarrow> ptr" where
  "conn_of (UserCall u p) = p"
| "conn_of (UserMessage u p t) = p"

text \<open>A message goes to the message callback of its connection.\<close>

fun own_message :: "('x, 'k, 'u, 'a, 'z) world_scheme \<Rightarrow> 'u user_call \<Rightarrow> bool" where
  "own_message w (UserCall u p) \<longleftrightarrow> True"
| "own_message w (UserMessage u p t) \<longleftrightarrow> (\<exists>c. conns w p = Some c \<and> message_callback c = Some u)"

definition user_safe :: "'k net_view \<Rightarrow> ('x, 'u, 'z) contract \<Rightarrow> ('x, 'k, 'u, 'a, 'z) user_code \<Rightarrow> bool" where
  "user_safe V C U \<longleftrightarrow> (\<forall>cl w. world_inv V C w \<longrightarrow> conn_at w (conn_of cl) \<longrightarrow> own_message w cl \<longrightarrow> world_safe V C w (U cl w))"

lemma safe_call_if_set:
  assumes "user_safe V C U" and inv: "world_inv V C w" and p: "conn_at w p" and "\<And>u. conn_of (mk u) = p"
    and "\<And>c u. conns w p = Some c \<Longrightarrow> slot c = Some u \<Longrightarrow> own_message w (mk u)"
  shows "world_safe V C w (call_if_set U slot mk p w)"
  unfolding call_if_set_def using assms
  by (intro safe_conn [OF inv p]) (auto simp: user_safe_def intro: safe_return split: option.split)

lemma safe_call_unchecked:
  assumes "user_safe V C U" and inv: "world_inv V C w" and c: "conns w p = Some c" "slot c \<noteq> None"
  shows "world_safe V C w (call_unchecked U slot p w)"
proof -
  have "conn_at w p" by (rule conn_at_Some [OF c(1)])
  then show ?thesis
    using assms by (auto simp: call_unchecked_def conn_deref_Some user_safe_def split: option.split)
qed

lemma safe_connectionEstablished:
  assumes laws: "tcp_laws S V" and U: "user_safe V C U" and inv: "world_inv V C w" and p: "conn_at w p"
  shows "world_safe V C w (connectionEstablished S U p w)"
  unfolding connectionEstablished_def
proof (rule safe_conn [OF inv p])
  fix c ch assume ch: "chan_at w (conn_channel c)"
  show "world_safe V C w (and_then (setState p kConnected w) (\<lambda>w1. and_then (tie_channel (conn_channel c) p w1)
      (\<lambda>w2. and_then (enableReading S (conn_channel c) w2) (call_if_set U connection_callback (\<lambda>u. UserCall u p) p))))"
    by (intro safe_then safe_setState safe_channel_op safe_call_if_set [OF U])
       (use inv p laws ch in \<open>auto dest: heap_evolves face_evolves\<close>)
qed


lemma safe_closing:
  assumes laws: "tcp_laws S V" and U: "user_safe V C U" and inv: "world_inv V C w" and p: "conn_at w p" and ch: "chan_at w q"
    and f: "\<And>w1. world_inv V C w1 \<Longrightarrow> conn_at w1 p \<Longrightarrow> chan_at w1 q \<Longrightarrow> world_safe V C w1 (f w1)"
  shows "world_safe V C w (and_then (setState p kDisConnected w) (\<lambda>w1. and_then (disableAll S q w1)
    (\<lambda>w2. and_then (call_if_set U connection_callback (\<lambda>u. UserCall u p) p w2) f)))"
  by (intro safe_then safe_setState safe_channel_op safe_call_if_set [OF U] f)
     (use inv p laws ch in \<open>auto dest: heap_evolves face_evolves\<close>)

lemma safe_connectionDestroyed:
  assumes laws: "tcp_laws S V" and U: "user_safe V C U" and inv: "world_inv V C w" and p: "conn_at w p"
  shows "world_safe V C w (connectionDestroyed S U p w)"
  unfolding connectionDestroyed_def
proof (rule safe_conn [OF inv p])
  fix c ch assume ch: "chan_at w (conn_channel c)"
  note fin = safe_channel_op(5) [OF laws]
  show "world_safe V C w (and_then (if state c = kConnected \<or> state c = kDisConnecting
      then and_then (setState p kDisConnected w) (\<lambda>w1. and_then (disableAll S (conn_channel c) w1)
             (call_if_set U connection_callback (\<lambda>u. UserCall u p) p))
      else Inr w) (removeChannel S (conn_channel c)))"
  proof (cases "state c = kConnected \<or> state c = kDisConnecting")
    case True
    with safe_closing [OF laws U inv p ch fin] show ?thesis by (simp add: and_then_assoc)
  next
    case False
    with fin [OF inv ch] show ?thesis by (simp only: if_False and_then.simps)
  qed
qed

lemma safe_handleClose:
  assumes laws: "tcp_laws S V" and U: "user_safe V C U" and inv: "world_inv V C w" and p: "conn_at w p"
  shows "world_safe V C w (handleClose S U p w)"
  unfolding handleClose_def
  by (rule safe_conn [OF inv p]) (intro safe_closing [OF laws U inv p] safe_call_if_set [OF U], auto)

lemma conn_at_kernel [simp]: "conn_at (w\<lparr>kernel := k\<rparr>) = conn_at w"
  by (simp add: conn_at_def fun_eq_iff)

lemma safe_handleError:
  assumes laws: "loop_laws S V" and U: "user_safe V C U" and inv: "world_inv V C w" and p: "conn_at w p"
  shows "world_safe V C w (handleError S U p w)"
  unfolding handleError_def
proof (rule safe_conn [OF inv p])
  fix c ch assume ch: "channel_heap w (conn_channel c) = Some ch"
  let ?w = "w\<lparr>kernel := snd (sock_error S (kernel w) (ch_fd ch))\<rparr>"
  have "world_safe V C w (handleClose S U p ?w)"
    by (rule safe_later [OF safe_kernel(2) [OF inv loop_quiet_error [OF laws]]
          safe_handleClose [OF loop_tcp [OF laws] U safe_kernel(1) [OF inv loop_quiet_error [OF laws]]]]) (simp add: p)
  with ch show "world_safe V C w (and_then (ch_deref (conn_channel c) w)
      (\<lambda>ch. handleClose S U p (w\<lparr>kernel := snd (sock_error S (kernel w) (ch_fd ch))\<rparr>)))"
    by (simp add: ch_deref_Some)
qed

lemma safe_handleRead:
  assumes laws: "loop_laws S V" and U: "user_safe V C U" and inv: "world_inv V C w" and p: "conn_at w p"
  shows "world_safe V C w (conn_handleRead S U t p w)"
  unfolding conn_handleRead_def
proof (rule safe_conn [OF inv p])
  fix c ch assume c: "conns w p = Some c" "channel_heap w (conn_channel c) = Some ch"
    "buf_inv (input_buffer c)" "buf_inv (output_buffer c)"
  let ?b = "input_buffer c"
  let ?vec = "if extra_buffer_size < unat (writeableBytes ?b) then [unat (writeableBytes ?b)]
    else [unat (writeableBytes ?b), extra_buffer_size]"
  obtain r k where call: "sock_readv S (kernel w) (ch_fd ch) ?vec = (r, k)" by fastforce
  have "quiet_call V (kernel w) k" using loop_quiet_readv [OF laws, of "kernel w" "ch_fd ch" ?vec] call by simp
  note w0 = safe_kernel [OF inv this]
  have w1: "world_inv V C (conn_set p (c\<lparr>input_buffer := b\<rparr>) (w\<lparr>kernel := k\<rparr>))"
      "world_evolves w (conn_set p (c\<lparr>input_buffer := b\<rparr>) (w\<lparr>kernel := k\<rparr>))" if "buf_inv b" for b
  proof -
    have "conns (w\<lparr>kernel := k\<rparr>) p = Some c" "same_face c (c\<lparr>input_buffer := b\<rparr>)" using c that by (simp_all add: same_face_def)
    note set = safe_conn_set [OF w0(1) this]
    show "world_inv V C (conn_set p (c\<lparr>input_buffer := b\<rparr>) (w\<lparr>kernel := k\<rparr>))" by (rule set(1))
    show "world_evolves w (conn_set p (c\<lparr>input_buffer := b\<rparr>) (w\<lparr>kernel := k\<rparr>))"
      by (rule world_evolves_trans [OF w0(2) set(2)])
  qed
  have later: "conn_at (conn_set p d (w\<lparr>kernel := k\<rparr>)) p" for d by (rule conn_at_Some) simp
  have "world_safe V C w (and_then (readFd (sock_readv S) (ch_fd ch) (kernel w) ?b) (\<lambda>(r, k, b).
      let w1 = conn_set p (c\<lparr>input_buffer := b\<rparr>) (w\<lparr>kernel := k\<rparr>)
      in case r of SOk n \<Rightarrow> if 0 < n then call_if_set U message_callback (\<lambda>u. UserMessage u p t) p w1 else handleClose S U p w1
         | SErr _ \<Rightarrow> handleError S U p w1))"
  proof (cases r)
    case (SErr e)
    with call have "readFd (sock_readv S) (ch_fd ch) (kernel w) ?b = Inr (SErr e, k, ?b)" by (intro readFd_error) simp
    moreover have "world_safe V C w (handleError S U p (conn_set p (c\<lparr>input_buffer := ?b\<rparr>) (w\<lparr>kernel := k\<rparr>)))"
      by (rule safe_later [OF w1(2) [OF c(3)] safe_handleError [OF laws U w1(1) [OF c(3)] later]])
    ultimately show ?thesis by simp
  next
    case (SOk bs)
    with readFd_cases [OF c(3) loop_readv [OF laws]] call consider
      "readFd (sock_readv S) (ch_fd ch) (kernel w) ?b = Inl LengthError"
      | b where "readFd (sock_readv S) (ch_fd ch) (kernel w) ?b = Inr (SOk (length bs), k, b)" "buf_inv b" by blast
    then show ?thesis
    proof cases
      case 1
      then show ?thesis by (simp add: world_safe_def safe_in_def exhausted_def)
    next
      case 2
      let ?w = "conn_set p (c\<lparr>input_buffer := b\<rparr>) (w\<lparr>kernel := k\<rparr>)"
      have "world_safe V C w (handleClose S U p ?w)"
        by (rule safe_later [OF w1(2) [OF 2(2)] safe_handleClose [OF loop_tcp [OF laws] U w1(1) [OF 2(2)] later]])
      moreover have "world_safe V C w (call_if_set U message_callback (\<lambda>u. UserMessage u p t) p ?w)"
        by (rule safe_later [OF w1(2) [OF 2(2)] safe_call_if_set [OF U w1(1) [OF 2(2)] later]]) auto
      ultimately show ?thesis using 2 by (simp add: Let_def)
    qed
  qed
  with c(2) show "world_safe V C w (and_then (ch_deref (conn_channel c) w) (\<lambda>ch.
      and_then (readFd (sock_readv S) (ch_fd ch) (kernel w) (input_buffer c)) (\<lambda>(r, k, b).
      let w1 = conn_set p (c\<lparr>input_buffer := b\<rparr>) (w\<lparr>kernel := k\<rparr>)
      in case r of SOk n \<Rightarrow> if 0 < n then call_if_set U message_callback (\<lambda>u. UserMessage u p t) p w1 else handleClose S U p w1
         | SErr _ \<Rightarrow> handleError S U p w1)))"
    by (simp only: ch_deref_Some and_then.simps)
qed


section \<open>Sending\<close>

lemma safe_try_write:
  assumes laws: "tcp_laws S V" and inv: "world_inv V C w" and c: "conns w p = Some c" and len: "length data \<le> vec_max_size"
    and wr: "try_write S p c fd data w = (n, rest, fault, w1)"
  shows "world_inv V C w1 \<and> world_evolves w w1 \<and> conns w1 = conns w \<and> channel_heap w1 = channel_heap w \<and>
    n \<le> length data \<and> unat rest = length data - n"
proof -
  obtain r k where call: "sock_write S (kernel w) fd data = (r, k)" by fastforce
  note law = tcp_write [OF laws call]
  have w0: "world_inv V C (w\<lparr>kernel := k\<rparr>)" "world_evolves w (w\<lparr>kernel := k\<rparr>)"
    using safe_kernel [OF inv, of k] law by (simp_all add: quiet_call_def)
  have small: "unat (of_nat (length data) :: size_t) = length data"
    by (rule unat_of_nat_small) (use len in \<open>simp add: vec_max_size_def\<close>)
  have note_ok: "functor_ok C (conn_face (w\<lparr>kernel := k\<rparr>)) (WriteComplete p)" if "write_complete_callback c \<noteq> None"
    using c that by (simp add: conn_face_def)
  have queued: "world_inv V C (queue_own S (WriteComplete p) (w\<lparr>kernel := k\<rparr>))"
      "world_evolves w (queue_own S (WriteComplete p) (w\<lparr>kernel := k\<rparr>))" if "write_complete_callback c \<noteq> None"
    using safe_queue [OF w0(1) laws note_ok [OF that]] world_evolves_trans [OF w0(2)] by blast+
  show ?thesis
  proof (cases r)
    case (SErr e)
    with wr call w0 small show ?thesis by (auto simp: try_write_def)
  next
    case (SOk m)
    have m: "m \<le> length data" "unat (of_nat m :: size_t) = m"
      using law SOk len by (auto simp: vec_max_size_def intro!: unat_of_nat_small)
    then have "unat (of_nat (length data) - of_nat m :: size_t) = length data - m"
      by (simp add: unat_sub_nowrap small)
    with wr call SOk w0 queued m show ?thesis by (auto simp: try_write_def Let_def split: if_splits)
  qed
qed

text \<open>The rest of the data goes behind the waiting bytes and writability is watched.\<close>

lemma safe_send_tail:
  assumes laws: "tcp_laws S V" and inv: "world_inv V C w" and c: "conns w p = Some c" "channel_heap w (conn_channel c) = Some ch"
    and len: "unat remaining \<le> length rest" "unat remaining \<le> vec_max_size"
  shows "world_safe V C w (send_tail S p c ch rest remaining w)"
proof -
  have bufs: "buf_inv (input_buffer c)" "buf_inv (output_buffer c)" using world_invD(4) [OF inv c(1)] by auto
  define w1 where "w1 = (if high_water_mark c \<le> readableBytes (output_buffer c) + remaining \<and>
    readableBytes (output_buffer c) < high_water_mark c \<and> high_water_mark_callback c \<noteq> None
    then queue_own S (HighWaterMark p) w else w)"
  have "high_water_mark_callback c \<noteq> None \<Longrightarrow> functor_ok C (conn_face w) (HighWaterMark p)" using c(1) by (simp add: conn_face_def)
  then have q: "world_inv V C w1" "world_evolves w w1" "conns w1 p = Some c" "channel_heap w1 = channel_heap w"
    using safe_queue [OF inv laws, of "HighWaterMark p"] inv c(1) world_evolves_refl by (simp_all add: w1_def)
  have fin: "world_safe V C w (if \<not> isWriting ch then enableWriting S (conn_channel c) (conn_set p (c\<lparr>output_buffer := b\<rparr>) w1)
      else Inr (conn_set p (c\<lparr>output_buffer := b\<rparr>) w1))" if "buf_inv b" for b
  proof -
    let ?w = "conn_set p (c\<lparr>output_buffer := b\<rparr>) w1"
    have "same_face c (c\<lparr>output_buffer := b\<rparr>)" using bufs that by (simp add: same_face_def)
    note set = safe_conn_set [OF q(1,3) this]
    have "chan_at ?w (conn_channel c)" using c(2) q(4) by (simp add: chan_at_def)
    from safe_channel_op(2) [OF laws set(1) this] safe_return [OF set(1)]
    have "world_safe V C ?w (if \<not> isWriting ch then enableWriting S (conn_channel c) ?w else Inr ?w)" by simp
    from safe_later [OF world_evolves_trans [OF q(2) set(2)] this] show ?thesis .
  qed
  have "world_safe V C w (and_then (append_bytes rest remaining (output_buffer c)) (\<lambda>b.
      if \<not> isWriting ch then enableWriting S (conn_channel c) (conn_set p (c\<lparr>output_buffer := b\<rparr>) w1)
      else Inr (conn_set p (c\<lparr>output_buffer := b\<rparr>) w1)))"
    using append_bytes_cases [OF bufs(2) len] fin
    by (auto simp: if_room_def) (simp add: world_safe_def safe_in_def exhausted_def)
  with safe_return [OF inv] show ?thesis unfolding send_tail_def Let_def w1_def [symmetric] by simp
qed

lemma safe_sendInLoop:
  assumes laws: "tcp_laws S V" and inv: "world_inv V C w" and p: "conn_at w p" and len: "length data \<le> vec_max_size"
  shows "world_safe V C w (sendInLoop S p data w)"
proof -
  from face_Some [OF p] world_invD(4) [OF inv] obtain c ch where
    c: "conns w p = Some c" "channel_heap w (conn_channel c) = Some ch" by metis
  obtain n rest fault w1 where wr: "(n, rest, fault, w1) = (if \<not> isWriting ch \<and> readableBytes (output_buffer c) = 0
      then try_write S p c (ch_fd ch) data w else (0, of_nat (length data), False, w))" by (metis surj_pair)
  have small: "unat (of_nat (length data) :: size_t) = length data"
    by (rule unat_of_nat_small) (use len in \<open>simp add: vec_max_size_def\<close>)
  have w1: "world_inv V C w1" "world_evolves w w1" "conns w1 = conns w" "channel_heap w1 = channel_heap w"
      "n \<le> length data" "unat rest = length data - n"
    using wr [symmetric] safe_try_write [OF laws inv c(1) len, of "ch_fd ch" n rest fault w1] inv world_evolves_refl small
    by (auto split: if_splits)
  have "world_safe V C w (send_tail S p c ch (drop n data) rest w1)"
    by (rule safe_later [OF w1(2) safe_send_tail [OF laws w1(1)]]) (use w1 c len in auto)
  moreover have "sendInLoop S p data w = Inr w" if "state c = kDisConnected \<or> state c = kDisConnecting"
    using c(1) that by (simp add: sendInLoop_def conn_deref_Some)
  ultimately show ?thesis
    using sendInLoop_tail [OF c _ _ wr] safe_return [OF inv] safe_result [OF w1(1,2)]
    by (cases "state c = kDisConnected \<or> state c = kDisConnecting") auto
qed


lemma queue_own_eq: "isInLoopThread tid w \<Longrightarrow> queueInLoop S tid f w = queue_own S f w"
  by (simp add: queue_own_def isInLoopThread_def)

lemma queueInLoop_world [simp]:
  "conns (queueInLoop S tid f w) = conns w" "channel_heap (queueInLoop S tid f w) = channel_heap w"
  "channels (queueInLoop S tid f w) = channels w" "pendingFunctors (queueInLoop S tid f w) = pendingFunctors w @ [f]"
  by (simp_all add: queueInLoop_def push_functor_def wakeUp_def Let_def)

text \<open>A functor queued by any thread.\<close>

lemma safe_queueInLoop:
  assumes inv: "world_inv V C w" and laws: "tcp_laws S V" and f: "functor_ok C (conn_face w) f"
  shows "world_safe V C w (Inr (queueInLoop S tid f w))"
proof -
  let ?w = "queueInLoop S tid f w"
  have io: "io_same V (kernel w) (kernel ?w)"
    using tcp_eventfd [OF laws] by (simp add: queueInLoop_def push_functor_def wakeUp_def Let_def)
  then have "poller_inv (nv_interest V) ?w"
    using world_invD(1) [OF inv] by - (rule poller_inv_same, auto simp: io_same_def)
  note fr = world_inv_frame [OF inv this]
  have "conn_face ?w = conn_face w" by (simp add: conn_face_def fun_eq_iff)
  then show ?thesis using world_invD(4,5,6) [OF inv] io f by (intro safe_result fr) (auto simp: io_same_def)
qed

lemma safe_send:
  assumes laws: "tcp_laws S V" and inv: "world_inv V C w" and p: "conn_at w p" and len: "length data \<le> vec_max_size"
  shows "world_safe V C w (send S tid p data w)"
  unfolding send_def runInLoop_def
  using safe_sendInLoop [OF assms] safe_queueInLoop [OF inv laws, of "SendInLoop p data" tid] p len safe_return [OF inv]
  by (intro safe_conn [OF inv p]) (simp add: conn_at_def)

lemma safe_shutdown:
  assumes laws: "tcp_laws S V" and inv: "world_inv V C w" and p: "conn_at w p"
  shows "world_safe V C w (shutdown S tid p w)"
  unfolding shutdown_def
proof (rule safe_conn [OF inv p])
  fix c
  have step: "world_safe V C w1 (runInLoop S (\<lambda>_. shutDownInLoop S p) tid (ShutDownInLoop p) w1)"
    if "world_inv V C w1" "world_evolves w w1" for w1
    using safe_shutDownInLoop [OF laws that(1), of p] safe_queueInLoop [OF that(1) laws, of "ShutDownInLoop p" tid]
      face_evolves [OF that(2) p] by (simp add: runInLoop_def conn_at_def)
  show "world_safe V C w (if state c = kConnected then and_then (setState p kDisConnecting w)
      (runInLoop S (\<lambda>_. shutDownInLoop S p) tid (ShutDownInLoop p)) else Inr w)"
    using safe_then [OF safe_setState [OF inv p, of kDisConnecting]] step safe_return [OF inv] by simp
qed

section \<open>Sending files\<close>

lemma safe_file_rest:
  assumes laws: "tcp_laws S V" and inv: "world_inv V C w" and p: "conn_at w p"
  shows "world_safe V C w (file_rest S p rest w)"
  unfolding file_rest_def
proof (rule safe_conn [OF inv p])
  fix c ch assume c: "conns w p = Some c" "channel_heap w (conn_channel c) = Some ch" "chan_at w (conn_channel c)"
    "buf_inv (input_buffer c)" "buf_inv (output_buffer c)"
  let ?w = "conn_set p (c\<lparr>file_count := rest\<rparr>) w"
  have "same_face c (c\<lparr>file_count := rest\<rparr>)" using c by (simp add: same_face_def)
  note set = safe_conn_set [OF inv c(1) this]
  have at: "chan_at ?w (conn_channel c)" using c(3) by (simp add: chan_at_def)
  have "world_safe V C ?w (if \<not> isWriting ch then enableWriting S (conn_channel c) ?w else Inr ?w)"
    using safe_channel_op(2) [OF laws set(1) at] safe_return [OF set(1)] by simp
  from safe_later [OF set(2) this] c(2) show "world_safe V C w (let w6 = conn_set p (c\<lparr>file_count := rest\<rparr>) w
     in and_then (ch_deref (conn_channel c) w6) (\<lambda>ch6.
        if \<not> isWriting ch6 then enableWriting S (conn_channel c) w6 else Inr w6))"
    by (simp add: Let_def ch_deref_Some)
qed

lemma safe_file_done:
  assumes laws: "tcp_laws S V" and inv: "world_inv V C w" and c: "conns w p = Some c" and ch: "chan_at w (conn_channel c)"
    and c': "same_face c c'" "conn_channel c' = conn_channel c"
  shows "world_safe V C w (disableWriting S (conn_channel c) (conn_set p c'
    (if write_complete_callback c \<noteq> None then queue_own S (WriteComplete p) w else w)))"
proof -
  let ?w1 = "if write_complete_callback c \<noteq> None then queue_own S (WriteComplete p) w else w"
  have "write_complete_callback c \<noteq> None \<Longrightarrow> functor_ok C (conn_face w) (WriteComplete p)" using c by (simp add: conn_face_def)
  then have q: "world_inv V C ?w1" "world_evolves w ?w1" "conns ?w1 p = Some c"
    using safe_queue [OF inv laws, of "WriteComplete p"] inv c by simp_all
  note set = safe_conn_set [OF q(1,3) c'(1)]
  have "chan_at (conn_set p c' ?w1) (conn_channel c)" using ch by (simp add: chan_at_def)
  from safe_later [OF world_evolves_trans [OF q(2) set(2)] safe_channel_op(3) [OF laws set(1) this]] show ?thesis .
qed


lemma safe_sendFileInLoop:
  assumes laws: "loop_laws S V" and inv: "world_inv V C w" and p: "conn_at w p"
  shows "world_safe V C w (sendFileInLoop S p w)"
proof -
  note tcp = loop_tcp [OF laws]
  from face_Some [OF p] world_invD(4) [OF inv] obtain c ch where
    c: "conns w p = Some c" "channel_heap w (conn_channel c) = Some ch" "buf_inv (input_buffer c)" "buf_inv (output_buffer c)" by metis
  consider (closing) "state c = kDisConnected \<or> state c = kDisConnecting"
    | (idle) "state c \<noteq> kDisConnected" "state c \<noteq> kDisConnecting" "\<not> sending_file c"
    | (sending) "state c \<noteq> kDisConnected" "state c \<noteq> kDisConnecting" "sending_file c" by blast
  then show ?thesis
  proof cases
    case closing
    then have "sendFileInLoop S p w = Inr (conn_set p (c\<lparr>sending_file := False\<rparr>) w)"
      using c(1) by (simp add: sendFileInLoop_def conn_deref_Some)
    with safe_result [OF safe_conn_set [OF inv c(1), of "c\<lparr>sending_file := False\<rparr>"]] c show ?thesis by (simp add: same_face_def)
  next
    case idle
    with safe_file_rest [OF tcp inv p] safe_return [OF inv] show ?thesis by (simp add: sendFileInLoop_idle [OF c(1,2)])
  next
    case sending
    obtain r off k where sf: "sock_sendfile S (kernel w) (ch_fd ch) (fd_to_send c) (fd_offset c) (file_count c) = ((r, off), k)"
      by (metis surj_pair)
    define w1 where w1: "w1 = conn_set p (c\<lparr>fd_offset := off\<rparr>) (w\<lparr>kernel := k\<rparr>)"
    have "quiet_call V (kernel w) k"
      using loop_quiet_sendfile [OF laws, of "kernel w" "ch_fd ch" "fd_to_send c" "fd_offset c" "file_count c"] sf by simp
    note w0 = safe_kernel [OF inv this]
    have "conns (w\<lparr>kernel := k\<rparr>) p = Some c" "same_face c (c\<lparr>fd_offset := off\<rparr>)" using c by (simp_all add: same_face_def)
    note set = safe_conn_set [OF w0(1) this, folded w1]
    note ev = world_evolves_trans [OF w0(2) set(2)]
    have c1: "conns w1 p = Some (c\<lparr>fd_offset := off\<rparr>)" "conn_at w1 p" "chan_at w1 (conn_channel (c\<lparr>fd_offset := off\<rparr>))"
      using c by (auto simp: w1 conn_at_def conn_face_def chan_at_def)
    have face: "same_face (c\<lparr>fd_offset := off\<rparr>) (c\<lparr>fd_offset := off, sending_file := False\<rparr>)" using c by (simp add: same_face_def)
    have rest: "world_safe V C w (file_rest S p n w1)" for n
      by (rule safe_later [OF ev safe_file_rest [OF tcp set(1) c1(2)]])
    have broken: "world_safe V C w (Inr (conn_set p (c\<lparr>fd_offset := off, sending_file := False\<rparr>) w1))"
      using safe_conn_set [OF set(1) c1(1) face] ev by (meson safe_result world_evolves_trans)
    have last: "world_safe V C w (disableWriting S (conn_channel c) (conn_set p (c\<lparr>fd_offset := off, sending_file := False\<rparr>)
        (if write_complete_callback c \<noteq> None then queue_own S (WriteComplete p) w1 else w1)))"
      using safe_later [OF ev safe_file_done [OF tcp set(1) c1(1,3) face]] by simp
    note step = sendFileInLoop_open [OF c(1,2) refl sending sf w1]
    show ?thesis
    proof (cases r)
      case (SOk m)
      show ?thesis unfolding step SOk sysret.case
        by (cases "file_count c = of_nat m") (simp_all only: if_True if_False last rest simp_thms)
    next
      case (SErr e)
      show ?thesis unfolding step SErr sysret.case
        using rest broken safe_result [OF set(1) ev] by simp
    qed
  qed
qed

lemma safe_sendFile:
  assumes laws: "loop_laws S V" and inv: "world_inv V C w" and p: "conn_at w p"
  shows "world_safe V C w (sendFile S tid p fd off n w)"
  unfolding sendFile_def
proof (rule safe_conn [OF inv p])
  fix c assume c: "conns w p = Some c" "buf_inv (input_buffer c)" "buf_inv (output_buffer c)"
  let ?c = "c\<lparr>sending_file := True, fd_to_send := fd, fd_offset := off, file_count := n\<rparr>"
  let ?w = "conn_set p ?c w"
  have "same_face c ?c" using c by (simp add: same_face_def)
  note set = safe_conn_set [OF inv c(1) this]
  have at: "conn_at ?w p" by (rule conn_at_Some) simp
  have "world_safe V C w (sendFileInLoop S p ?w)" "world_safe V C w (Inr (queueInLoop S tid (SendFileInLoop p) ?w))"
    by (rule safe_later [OF set(2) safe_sendFileInLoop [OF laws set(1) at]],
        rule safe_later [OF set(2) safe_queueInLoop [OF set(1) loop_tcp [OF laws]]])
       (use at in \<open>simp add: conn_at_def\<close>)
  with safe_return [OF inv] show "world_safe V C w (if state c = kConnected
     then let w1 = ?w in if isInLoopThread tid w1 then sendFileInLoop S p w1 else Inr (queueInLoop S tid (SendFileInLoop p) w1)
     else Inr w)" by (simp add: Let_def)
qed


section \<open>Writable events\<close>

lemma safe_flushed:
  assumes laws: "tcp_laws S V" and inv: "world_inv V C w" and c: "conns w p = Some c" and ch: "chan_at w q"
    and wcc: "wcc \<noteq> None \<longrightarrow> write_complete_callback c \<noteq> None"
  shows "world_safe V C w (and_then
    (if drained then and_then (disableWriting S q w) (\<lambda>w3.
       Inr (if wcc \<noteq> None then queue_own S (WriteComplete p) w3 else w3)) else Inr w)
    (\<lambda>w4. and_then (conn_deref p w4) (\<lambda>c4. if state c4 = kDisConnecting then shutDownInLoop S p w4 else Inr w4)))"
proof (rule safe_then)
  have note_ok: "functor_ok C (conn_face w) (WriteComplete p)" if "wcc \<noteq> None"
    using c that wcc by (simp add: conn_face_def)
  have "world_safe V C w3 (Inr (if wcc \<noteq> None then queue_own S (WriteComplete p) w3 else w3))"
    if w3: "world_inv V C w3" "world_evolves w w3" for w3
    using safe_result [OF safe_queue [OF w3(1) laws functor_ok_evolves [OF note_ok w3(2)]]] safe_return [OF w3(1)] by simp
  then show "world_safe V C w (if drained then and_then (disableWriting S q w) (\<lambda>w3.
       Inr (if wcc \<noteq> None then queue_own S (WriteComplete p) w3 else w3)) else Inr w)"
    using safe_then [OF safe_channel_op(3) [OF laws inv ch]] safe_return [OF inv] by simp
next
  fix w4 assume w4: "world_inv V C w4" "world_evolves w w4"
  note at = face_evolves [OF w4(2) conn_at_Some [OF c]]
  show "world_safe V C w4 (and_then (conn_deref p w4) (\<lambda>c4. if state c4 = kDisConnecting then shutDownInLoop S p w4 else Inr w4))"
    by (rule safe_conn [OF w4(1) at]) (use safe_shutDownInLoop [OF laws w4(1) at] safe_return [OF w4(1)] in simp)
qed

lemma safe_handleWrite:
  assumes laws: "loop_laws S V" and inv: "world_inv V C w" and p: "conn_at w p"
  shows "world_safe V C w (handleWrite S p w)"
proof -
  note tcp = loop_tcp [OF laws]
  from face_Some [OF p] world_invD(4) [OF inv] obtain c ch where
    c: "conns w p = Some c" "channel_heap w (conn_channel c) = Some ch" "buf_inv (input_buffer c)" "buf_inv (output_buffer c)" by metis
  obtain r k where wr: "sock_write S (kernel w) (ch_fd ch) (contents (output_buffer c)) = (r, k)" by fastforce
  have w0: "world_inv V C (w\<lparr>kernel := k\<rparr>)" "world_evolves w (w\<lparr>kernel := k\<rparr>)"
    using safe_kernel [OF inv, of k] tcp_write [OF tcp wr] by (simp_all add: quiet_call_def)
  let ?b = "\<lambda>n. retrieve (of_nat n) (output_buffer c)"
  let ?w = "\<lambda>n. conn_set p (c\<lparr>output_buffer := ?b n\<rparr>) (w\<lparr>kernel := k\<rparr>)"
  have some: "world_safe V C w (and_then
      (if readableBytes (?b n) = 0 then and_then (disableWriting S (conn_channel c) (?w n)) (\<lambda>w3.
         Inr (if write_complete_callback c \<noteq> None then queue_own S (WriteComplete p) w3 else w3)) else Inr (?w n))
      (\<lambda>w4. and_then (conn_deref p w4) (\<lambda>c4. if state c4 = kDisConnecting then shutDownInLoop S p w4 else Inr w4)))" for n
  proof -
    have "conns (w\<lparr>kernel := k\<rparr>) p = Some c" "same_face c (c\<lparr>output_buffer := ?b n\<rparr>)"
      using c retrieve_ok [OF c(4), of "of_nat n"] by (simp_all add: same_face_def)
    note set = safe_conn_set [OF w0(1) this]
    have at: "conns (?w n) p = Some (c\<lparr>output_buffer := ?b n\<rparr>)" by simp
    show ?thesis
      by (rule safe_later [OF world_evolves_trans [OF w0(2) set(2)] safe_flushed [OF tcp set(1) at]])
         (use c(2) in \<open>simp_all add: chan_at_def\<close>)
  qed
  show ?thesis
    using some safe_result [OF w0] safe_return [OF inv] safe_sendFileInLoop [OF laws inv p]
    by (cases r) (simp_all add: handleWrite_def conn_deref_Some [OF c(1)] ch_deref_Some [OF c(2)] writeFd_ok [OF c(4)] wr Let_def)
qed

section \<open>Functors, callbacks and the loop\<close>

lemma safe_run_functor:
  assumes laws: "loop_laws S V" and U: "user_safe V C U" and other: "\<And>x w. closure_ok C x \<Longrightarrow> world_inv V C w \<Longrightarrow> world_safe V C w (other x w)"
    and inv: "world_inv V C w" and f: "functor_ok C (conn_face w) f"
  shows "world_safe V C w (run_functor S U other f w)"
proof (cases f)
  case (WriteComplete p)
  with f obtain c where "conns w p = Some c" "write_complete_callback c \<noteq> None" by (auto simp: conn_face_def)
  with WriteComplete safe_call_unchecked [OF U inv] show ?thesis by simp
next
  case (HighWaterMark p)
  with f obtain c where "conns w p = Some c" "high_water_mark_callback c \<noteq> None" by (auto simp: conn_face_def)
  with HighWaterMark safe_call_unchecked [OF U inv] show ?thesis by simp
qed (use assms safe_sendInLoop [OF loop_tcp [OF laws] inv] safe_sendFileInLoop [OF laws inv] safe_shutDownInLoop [OF loop_tcp [OF laws] inv]
      safe_connectionEstablished [OF loop_tcp [OF laws] U inv] safe_connectionDestroyed [OF loop_tcp [OF laws] U inv]
     in \<open>simp_all add: conn_at_def\<close>)

lemma safe_conn_invoke:
  assumes laws: "loop_laws S V" and U: "user_safe V C U" and other: "\<And>x w. callback_ok C x \<Longrightarrow> world_inv V C w \<Longrightarrow> world_safe V C w (other x w)"
    and inv: "world_inv V C w" and cl: "call_ok C (conn_face w) cl"
  shows "world_safe V C w (conn_invoke S U other cl w)"
  using cl safe_handleRead [OF laws U inv] safe_handleWrite [OF laws inv] safe_handleClose [OF loop_tcp [OF laws] U inv]
    safe_handleError [OF laws U inv] other [OF _ inv]
  by (cases "(S, U, other, cl, w)" rule: conn_invoke.cases) (simp_all add: conn_at_def)


text \<open>The callbacks and functors that are not of connections are safe.\<close>

definition others_safe :: "'k net_view \<Rightarrow> ('x, 'u, 'z) contract \<Rightarrow> ('y \<Rightarrow> bool) \<Rightarrow>
    ('y \<Rightarrow> ('x, 'k, 'u, 'a, 'z) world_scheme \<Rightarrow> ('x, 'k, 'u, 'a, 'z) world_result) \<Rightarrow> bool" where
  "others_safe V C good other \<longleftrightarrow> (\<forall>x w. good x \<longrightarrow> world_inv V C w \<longrightarrow> world_safe V C w (other x w))"

lemma safe_run_slot:
  assumes inv: "world_inv V C w" and q: "chan_at w q"
    and run: "\<And>cl ch. channel_heap w q = Some ch \<Longrightarrow> slots_ok C (conn_face w) ch \<Longrightarrow> slot ch = Some cl \<Longrightarrow> world_safe V C w (invoke cl w)"
  shows "world_safe V C w (run_slot invoke cond slot q w)"
proof -
  from q obtain ch where ch: "channel_heap w q = Some ch" by (auto simp: chan_at_def)
  with world_invD(3) [OF inv ch] run [OF ch] safe_return [OF inv] show ?thesis
    by (auto simp: run_slot_def ch_deref_Some split: option.split)
qed

lemma safe_handleEvent:
  assumes laws: "loop_laws S V" and U: "user_safe V C U" and other: "others_safe V C (callback_ok C) other"
    and inv: "world_inv V C w" and q: "chan_at w q"
  shows "world_safe V C w (handleEvent (conn_invoke S U other) alive t q w)"
proof -
  note invoke = safe_conn_invoke [OF laws U, of other] other [unfolded others_safe_def, rule_format]
  have slot: "world_safe V C w1 (run_slot (conn_invoke S U other) cond slot q w1)"
    if "world_inv V C w1" "chan_at w1 q"
      "\<And>ch cl. slots_ok C (conn_face w1) ch \<Longrightarrow> slot ch = Some cl \<Longrightarrow> call_ok C (conn_face w1) cl" for w1 cond slot
    using that by (intro safe_run_slot invoke) auto
  have guarded: "world_safe V C w (handleEventWithGuard (conn_invoke S U other) t q w)"
    unfolding handleEventWithGuard_def
    by (intro safe_then slot) (use inv q in \<open>auto simp: slots_ok_def dest: heap_evolves\<close>)
  from q obtain ch where "channel_heap w q = Some ch" by (auto simp: chan_at_def)
  with guarded safe_return [OF inv] show ?thesis by (simp add: handleEvent_def ch_deref_Some)
qed

lemma world_inv_flags:
  assumes inv: "world_inv V C w" and w': "channels w' = channels w" "channel_heap w' = channel_heap w" "kernel w' = kernel w"
    "conns w' = conns w" "set (pendingFunctors w') \<subseteq> set (pendingFunctors w)" "world.more w' = world.more w"
  shows "world_inv V C w'" and "world_evolves w w'"
proof -
  have "poller_inv (nv_interest V) w'" using world_invD(1) [OF inv] by (rule poller_inv_same) (simp_all add: w')
  note fr = world_inv_frame [OF inv this]
  have F: "conn_face w' = conn_face w" by (simp add: conn_face_def fun_eq_iff w')
  show "world_inv V C w'" "world_evolves w w'"
    using world_invD(4,5,6) [OF inv] w' by (auto intro!: fr simp: F)
qed

lemma safe_doingPendingFunctors:
  assumes laws: "loop_laws S V" and U: "user_safe V C U" and other: "others_safe V C (closure_ok C) other" and inv: "world_inv V C w"
  shows "world_safe V C w (doingPendingFunctors (run_functor S U other) w)"
proof -
  let ?w = "w\<lparr>calling_pending_functors := True, pendingFunctors := []\<rparr>"
  have start: "world_inv V C ?w" "world_evolves w ?w" by (rule world_inv_flags [OF inv]; simp)+
  have F: "conn_face ?w = conn_face w" by (simp add: conn_face_def fun_eq_iff)
  have "world_safe V C ?w (fold_r (run_functor S U other) (pendingFunctors w) ?w)"
  proof (rule safe_fold [OF start(1)])
    fix f w1 assume f: "f \<in> set (pendingFunctors w)" and w1: "world_inv V C w1" "world_evolves ?w w1"
    have "functor_ok C (conn_face ?w) f" using world_invD(5) [OF inv f] by (simp add: F)
    from safe_run_functor [OF laws U _ w1(1) functor_ok_evolves [OF this w1(2)]] other
    show "world_safe V C w1 (run_functor S U other f w1)" by (simp add: others_safe_def)
  qed
  then have "world_safe V C ?w (and_then (fold_r (run_functor S U other) (pendingFunctors w) ?w)
      (\<lambda>w3. Inr (w3\<lparr>calling_pending_functors := False\<rparr>)))"
    by (rule safe_then) (rule safe_result, (rule world_inv_flags, assumption, simp_all)+)
  from safe_later [OF start(2) this] show ?thesis by (simp add: doingPendingFunctors_def Let_def)
qed

lemma safe_poll:
  assumes laws: "loop_laws S V" and inv: "world_inv V C w" and run: "poll S t [] w = r"
  shows "\<exists>st active w1. r = Inr (st, active, w1) \<and> world_inv V C w1 \<and> world_evolves w w1 \<and> (\<forall>q \<in> set active. chan_at w1 q)"
proof -
  obtain ans k where wait: "epoll_wait S (kernel w) kEpollEventListSize t = (ans, k)" by fastforce
  define evs where "evs = (case ans of SOk es \<Rightarrow> es | SErr _ \<Rightarrow> [])"
  from poll_ok [OF tcp_epoll [OF loop_tcp [OF laws]] world_invD(1) [OF inv] wait, of "[]", folded evs_def] obtain st w1 where
    w1: "poll S t [] w = Inr (st, map snd evs, w1)" "poller_inv (nv_interest V) w1"
      "nv_opened V (kernel w1) = nv_opened V (kernel w)" "poller_only w w1"
      "\<forall>(ev, q) \<in> set evs. \<exists>c. channel_heap w q = Some c \<and> index c = kAdd \<and> channel_heap w1 q = Some (c\<lparr>revent := ev\<rparr>)"
      "\<forall>q. q \<notin> snd ` set evs \<longrightarrow> channel_heap w1 q = channel_heap w q" by auto
  have only: "conns w1 = conns w" "pendingFunctors w1 = pendingFunctors w" "world.more w1 = world.more w"
    using arg_cong [OF w1(4) [unfolded poller_only_def], of conns]
      arg_cong [OF w1(4) [unfolded poller_only_def], of pendingFunctors]
      arg_cong [OF w1(4) [unfolded poller_only_def], of world.more] by simp_all
  have face: "map_option ch_face (channel_heap w1 q) = map_option ch_face (channel_heap w q)" for q
  proof (cases "q \<in> snd ` set evs")
    case True
    with w1(5) obtain ev c where "channel_heap w q = Some c" "channel_heap w1 q = Some (c\<lparr>revent := ev\<rparr>)" by auto
    then show ?thesis by (simp add: ch_face_def)
  qed (use w1(6) in simp)
  have F: "conn_face w1 = conn_face w" by (simp add: conn_face_def fun_eq_iff only)
  note fr = world_inv_frame [OF inv w1(2) face]
  have "world_inv V C w1" "world_evolves w w1"
    using world_invD(4,5,6) [OF inv] w1(3) by (auto intro!: fr simp: F only)
  moreover have "\<forall>q \<in> set (map snd evs). chan_at w1 q" using w1(5) by (fastforce simp: chan_at_def)
  ultimately show ?thesis using w1(1) run by auto
qed

lemma safe_iteration:
  assumes laws: "loop_laws S V" and U: "user_safe V C U" and others: "others_safe V C (callback_ok C) cbs" "others_safe V C (closure_ok C) fns" and inv: "world_inv V C w"
  shows "world_safe V C w (loop_iteration S (handleEvent (conn_invoke S U cbs) alive) (run_functor S U fns) w)"
proof -
  have w0: "world_inv V C (w\<lparr>active_channels := []\<rparr>)" "world_evolves w (w\<lparr>active_channels := []\<rparr>)"
    by (rule world_inv_flags [OF inv]; simp)+
  from safe_poll [OF laws w0(1) refl, of kPollTimeMs] obtain st active w1 where
    w1: "poll S kPollTimeMs [] (w\<lparr>active_channels := []\<rparr>) = Inr (st, active, w1)" "world_inv V C w1"
      "world_evolves (w\<lparr>active_channels := []\<rparr>) w1" "\<forall>q \<in> set active. chan_at w1 q" by blast
  let ?w = "w1\<lparr>active_channels := active, pollReturnTime := st\<rparr>"
  have w2: "world_inv V C ?w" "world_evolves w1 ?w" by (rule world_inv_flags [OF w1(2)]; simp)+
  have "world_safe V C ?w (and_then (fold_r (handleEvent (conn_invoke S U cbs) alive st) active ?w)
      (doingPendingFunctors (run_functor S U fns)))"
    by (intro safe_then safe_fold [OF w2(1)] safe_handleEvent [OF laws U others(1)] safe_doingPendingFunctors [OF laws U others(2)])
       (use w1(4) w2(2) in \<open>auto dest: heap_evolves\<close>)
  from safe_later [OF world_evolves_trans [OF world_evolves_trans [OF w0(2) w1(3)] w2(2)] this] show ?thesis
    by (simp add: loop_iteration_def w1(1))
qed


text \<open>A loop that returns has returned safely.\<close>

lemma safe_while:
  assumes ret: "while_not_quit b w = Some r" and body: "\<And>w. world_inv V C w \<Longrightarrow> world_safe V C w (body w)"
    and "b = body" and "world_inv V C w"
  shows "world_safe V C w r"
proof -
  have "b = body \<longrightarrow> world_inv V C w \<longrightarrow> world_safe V C w r"
  proof (rule while_not_quit.raw_induct [OF _ ret], intro impI)
    fix iter b w r assume IH: "\<And>b w r. iter b w = Some r \<Longrightarrow> b = body \<longrightarrow> world_inv V C w \<longrightarrow> world_safe V C w r"
      and step: "(if quit_flag w then Some (Inr w) else case b w of Inl e \<Rightarrow> Some (Inl e) | Inr w' \<Rightarrow> iter b w') = Some r"
      and b: "b = body" and inv: "world_inv V C w"
    from body [OF inv] consider e where "body w = Inl e" "exhausted e" | w' where "body w = Inr w'" "world_inv V C w'" "world_evolves w w'"
      by (auto simp: world_safe_def safe_in_def)
    then show "world_safe V C w r"
    proof cases
      case 1
      with step b safe_return [OF inv] show ?thesis by (auto simp: world_safe_def safe_in_def split: if_splits)
    next
      case 2
      with step IH [of b w' r] b safe_return [OF inv] safe_later [OF 2(3)] show ?thesis by (auto split: if_splits)
    qed
  qed
  with assms(3,4) show ?thesis by blast
qed

lemma safe_loop:
  assumes laws: "loop_laws S V" and U: "user_safe V C U" and others: "others_safe V C (callback_ok C) cbs" "others_safe V C (closure_ok C) fns" and inv: "world_inv V C w"
    and ret: "loop_fn S (handleEvent (conn_invoke S U cbs) alive) (run_functor S U fns) w = Some r"
  shows "world_safe V C w r"
proof (cases "quit_flag w")
  case True
  with ret safe_return [OF inv] show ?thesis by (auto simp: loop_fn_def)
next
  case False
  let ?w = "w\<lparr>looping := True, quit_flag := False\<rparr>"
  have start: "world_inv V C ?w" "world_evolves w ?w" by (rule world_inv_flags [OF inv]; simp)+
  from False ret obtain r1 where
    r1: "while_not_quit (loop_iteration S (handleEvent (conn_invoke S U cbs) alive) (run_functor S U fns)) ?w = Some r1"
      "r = and_then r1 (\<lambda>w1. Inr (w1\<lparr>looping := False\<rparr>))" by (auto simp: loop_fn_def)
  have "world_safe V C ?w r1" by (rule safe_while [OF r1(1) safe_iteration [OF laws U others] refl start(1)])
  then have "world_safe V C ?w r"
    unfolding r1(2) by (rule safe_then) (rule safe_result, (rule world_inv_flags, assumption, simp_all)+)
  with safe_later [OF start(2)] show ?thesis by blast
qed

section \<open>User code made of calls of the interface\<close>

text \<open>Calls on the connection the callback is given, and functors of the user's own.\<close>

fun own_action :: "('x, 'u, 'z) contract \<Rightarrow> ptr \<Rightarrow> 'x action \<Rightarrow> bool" where
  "own_action C p (ActSend q data) \<longleftrightarrow> q = p \<and> length data \<le> vec_max_size"
| "own_action C p (ActShutdown q) \<longleftrightarrow> q = p"
| "own_action C p (ActSendFile q fd off n) \<longleftrightarrow> q = p"
| "own_action C p (ActRetrieve q n) \<longleftrightarrow> q = p"
| "own_action C p (ActQueue f) \<longleftrightarrow> (\<exists>x. f = OtherFunctor x \<and> closure_ok C x)"

lemma safe_conn_act:
  assumes laws: "loop_laws S V" and inv: "world_inv V C w" and p: "conn_at w p" and a: "own_action C p a"
  shows "world_safe V C w (conn_act S a w)"
proof (cases a)
  case (ActRetrieve q n)
  have "world_safe V C w (and_then (conn_deref p w) (\<lambda>c. Inr (conn_set p (c\<lparr>input_buffer := retrieve n (input_buffer c)\<rparr>) w)))"
    by (rule safe_conn [OF inv p], rule safe_result; rule safe_conn_set [OF inv]) (auto simp: same_face_def retrieve_ok)
  with ActRetrieve a show ?thesis by simp
next
  case (ActQueue f)
  with a safe_result [OF safe_queue [OF inv loop_tcp [OF laws], of f]] show ?thesis by auto
qed (use a safe_send [OF loop_tcp [OF laws] inv p] safe_shutdown [OF loop_tcp [OF laws] inv p] safe_sendFile [OF laws inv p] in auto)

lemma act_code_safe:
  assumes laws: "loop_laws S V" and A: "\<And>cl a. a \<in> set (A cl) \<Longrightarrow> own_action C (conn_of cl) a"
  shows "user_safe V C (act_code S A)"
  unfolding user_safe_def act_code_def
  by (intro allI impI safe_fold safe_conn_act [OF laws _ _ A]) (auto dest: face_evolves)


section \<open>The safety of the loop\<close>

lemma world_safe_cases: "world_safe V C w r \<Longrightarrow> (case r of Inl e \<Rightarrow> exhausted e | Inr w' \<Rightarrow> world_inv V C w')"
  by (auto simp: world_safe_def safe_in_def)


text \<open>Every other functor and callback is allowed, and nothing is asked of the rest of the state.\<close>

definition any_others :: "('x, 'u, 'z) contract" where
  "any_others = \<lparr>closure_ok = \<lambda>_. True, callback_ok = \<lambda>_. True, conn_ok = \<lambda>_ _. True, rest_ok = \<lambda>_. True\<rparr>"

lemma any_others_sel [simp]: "closure_ok any_others x" "callback_ok any_others y" "conn_ok any_others p m" "rest_ok any_others z"
  by (simp_all add: any_others_def)

lemma sample_loop_laws: "loop_laws sample_tcp_sys sample_view"
proof -
  have "quiet_call sample_view k (snd (sock_readv sample_tcp_sys k fd ls))"
    "quiet_call sample_view k (snd (sock_sendfile sample_tcp_sys k out' fd off n))"
    "quiet_call sample_view k (snd (sock_error sample_tcp_sys k fd))" for k fd ls out' off n
    by (simp_all add: quiet_call_def sample_tcp_sys_def split_beta)
  moreover have "readv_bounded (sock_readv sample_tcp_sys)" by (simp add: readv_bounded_def sample_tcp_sys_def)
  ultimately show ?thesis using sample_tcp_laws by (simp add: loop_laws_def)
qed

lemma sample_world_inv: "world_inv sample_view any_others sample_world"
proof -
  have "poller_inv (nv_interest sample_view) sample_world" using sample_sim_at by (simp add: sim_at_def)
  moreover have "buf_inv (input_buffer sample_conn)" "buf_inv (output_buffer sample_conn)"
    by (simp_all add: sample_conn_def buf_inv_def vec_max_size_def)
  moreover have w: "channel_heap sample_world = [3 \<mapsto> sample_channel]" "conns sample_world = [7 \<mapsto> sample_conn]"
    "conn_channel sample_conn = 3" "pendingFunctors sample_world = []"
    by (simp_all add: sample_world_def sample_conn_def)
  moreover have "ch_fd sample_channel \<in> nv_opened sample_view (kernel sample_world)"
    by (simp add: sample_channel_def Channel_new_def sample_view_def sample_opened_def sample_world_def)
  moreover have "conn_face sample_world 7 \<noteq> None" by (simp add: conn_face_def w)
  then have "slots_ok any_others (conn_face sample_world) sample_channel" by (auto simp: slots_ok_def sample_channel_def)
  ultimately show ?thesis by (simp add: world_inv_def)
qed

text \<open>A callback that answers a message and closes.\<close>

definition answer :: "nat user_call \<Rightarrow> nat action list" where
  "answer cl = (case cl of UserCall u p \<Rightarrow> [ActQueue (OtherFunctor u)]
     | UserMessage u p t \<Rightarrow> [ActSend p [1, 2, 3], ActRetrieve p 3, ActShutdown p])"


end
