(* ===== verification/Printing.thy ===== *)
theory Printing
  imports Prelude
begin

text \<open>
  The pieces of \<open>snprintf\<close> the library prints with: decimal numbers (\<open>%d\<close>, \<open>%u\<close>,
  \<open>std::to_string\<close>), padded fields (\<open>%4d\<close>, \<open>%02d\<close>) and the cut at the end of the buffer.  The
  lemmas say that decimal text is unique, how long it is, and that it can be found again in a
  longer text when a separator follows.
\<close>

section \<open>Decimal text\<close>

definition digit :: "nat \<Rightarrow> char" where
  "digit d = char_of (48 + d)"

fun dec :: "nat \<Rightarrow> string" where
  "dec n = (if n < 10 then [digit n] else dec (n div 10) @ [digit (n mod 10)])"

declare dec.simps [simp del]

definition dec_int :: "int \<Rightarrow> string" where
  "dec_int i = (if i < 0 then CHR ''-'' # dec (nat (- i)) else dec (nat i))"

definition undec :: "string \<Rightarrow> nat" where
  "undec s = foldl (\<lambda>a c. 10 * a + (of_char c - 48)) 0 s"

definition is_digit :: "char \<Rightarrow> bool" where
  "is_digit c \<longleftrightarrow> 48 \<le> (of_char c :: nat) \<and> (of_char c :: nat) \<le> 57"

lemma is_digit_digit [simp]: "d < 10 \<Longrightarrow> is_digit (digit d)"
  by (simp add: is_digit_def digit_def)

lemma of_char_digit [simp]: "d < 10 \<Longrightarrow> (of_char (digit d) :: nat) = 48 + d"
  by (simp add: digit_def)

lemma dec_nonempty [simp]: "dec n \<noteq> []"
  by (subst dec.simps) simp

lemma dec_digits: "list_all is_digit (dec n)"
  by (induction n rule: dec.induct) (subst dec.simps, simp)

lemma undec_snoc: "undec (s @ [digit d]) = 10 * undec s + d" if "d < 10"
  using that by (simp add: undec_def)

lemma undec_dec [simp]: "undec (dec n) = n"
proof (induction n rule: dec.induct)
  case (1 n)
  show ?case
  proof (cases "n < 10")
    case True
    then show ?thesis by (subst dec.simps) (simp add: undec_def)
  next
    case False
    then have "undec (dec n) = 10 * undec (dec (n div 10)) + n mod 10"
      by (subst dec.simps) (simp add: undec_snoc)
    with 1 [OF False] show ?thesis by simp
  qed
qed

lemma dec_inject [simp]: "dec m = dec n \<longleftrightarrow> m = n"
  by (metis undec_dec)

lemma length_dec: "n < 10 ^ k \<Longrightarrow> 0 < k \<Longrightarrow> length (dec n) \<le> k"
proof (induction k arbitrary: n)
  case (Suc k)
  show ?case
  proof (cases "n < 10")
    case True
    then show ?thesis by (subst dec.simps) simp
  next
    case False
    with Suc.prems have "n div 10 < 10 ^ k" "0 < k" by (auto simp: div_less_iff_less_mult mult.commute intro: gr0I)
    with Suc.IH have "length (dec (n div 10)) \<le> k" by blast
    with False show ?thesis by (subst dec.simps) simp
  qed
qed simp

section \<open>Fields and separators\<close>

definition pad :: "nat \<Rightarrow> char \<Rightarrow> string \<Rightarrow> string" where
  "pad k c s = replicate (k - length s) c @ s"

definition snprintf :: "nat \<Rightarrow> string \<Rightarrow> string" where
  "snprintf bound s = take (bound - 1) s"

lemma snprintf_fits [simp]: "length s < bound \<Longrightarrow> snprintf bound s = s"
  by (simp add: snprintf_def)

lemma length_snprintf: "0 < bound \<Longrightarrow> length (snprintf bound s) < bound"
  by (auto simp: snprintf_def)

text \<open>Text up to the first character of a kind determines both halves.\<close>

lemma split_at_separator:
  assumes "u @ c # x = v @ c # y" and "list_all P u" and "list_all P v" and "\<not> P c"
  shows "u = v \<and> x = y"
proof -
  have "takeWhile P (u @ c # x) = u" "takeWhile P (v @ c # y) = v"
    using assms(2-4) by (auto simp: takeWhile_append list_all_iff)
  with assms(1) show ?thesis by auto
qed

lemma dec_separated:
  assumes "dec m @ c # x = dec n @ c # y" and "\<not> is_digit c"
  shows "m = n \<and> x = y"
  using split_at_separator [OF assms(1) dec_digits dec_digits assms(2)] by simp

fun split_on :: "char \<Rightarrow> string \<Rightarrow> string list" where
  "split_on c [] = [[]]"
| "split_on c (x # xs) =
     (if x = c then [] # split_on c xs
      else case split_on c xs of [] \<Rightarrow> [[x]] | y # ys \<Rightarrow> (x # y) # ys)"

lemma split_on_no_separator: "c \<notin> set u \<Longrightarrow> split_on c u = [u]"
  by (induction u) auto

lemma split_on_separator: "c \<notin> set u \<Longrightarrow> split_on c (u @ c # v) = u # split_on c v"
  by (induction u) auto

lemma separator_notin_dec [simp]: "\<not> is_digit c \<Longrightarrow> c \<notin> set (dec n)"
  using dec_digits [of n] by (auto simp: list_all_iff)

end
