(* ===== verification/Inet_Address.thy ===== *)
theory Inet_Address
  imports Printing
begin

text \<open>
  \<open>InetAddress\<close> (include/InetAddress.h, src/InetAddress.cc): an IPv4 socket address and its text.
  A \<open>sockaddr_in\<close> keeps address and port in network byte order; \<open>htons\<close> and \<open>ntohs\<close> swap the
  two bytes of a port and the first octet of an address is its lowest byte, as on the
  little-endian hosts the library is built for.  \<open>inet_addr\<close>, whose full grammar also has octal,
  hexadecimal and shortened forms, is a parameter; \<open>inet_ntop\<close> prints the dotted form.
\<close>

unbundle bit_operations_syntax

section \<open>State and operations\<close>

record sockaddr_in =
  sin_family :: "16 word"
  sin_port :: "16 word"
  s_addr :: "32 word"

record InetAddress =
  addr :: sockaddr_in

definition AF_INET :: "16 word" where
  "AF_INET = 2"

definition htons :: "16 word \<Rightarrow> 16 word" where
  "htons x = push_bit 8 x OR drop_bit 8 x"

definition ntohs :: "16 word \<Rightarrow> 16 word" where
  "ntohs x = push_bit 8 x OR drop_bit 8 x"

definition octet :: "nat \<Rightarrow> 32 word \<Rightarrow> nat" where
  "octet i a = unat a div 256 ^ i mod 256"

definition dotted :: "32 word \<Rightarrow> string" where
  "dotted a = dec (octet 0 a) @ CHR ''.'' # dec (octet 1 a) @ CHR ''.'' # dec (octet 2 a) @ CHR ''.'' # dec (octet 3 a)"

text \<open>\<open>inet_ntop\<close> into a zeroed buffer of the given size, which it leaves alone when it is too small.\<close>

definition inet_ntop :: "nat \<Rightarrow> 32 word \<Rightarrow> string" where
  "inet_ntop bound a = (if length (dotted a) < bound then dotted a else '''')"

definition InetAddress_new :: "(string \<Rightarrow> 32 word) \<Rightarrow> 16 word \<Rightarrow> string \<Rightarrow> InetAddress" where
  "InetAddress_new inet_addr port ip =
     \<lparr>addr = \<lparr>sin_family = AF_INET, sin_port = htons port, s_addr = inet_addr ip\<rparr>\<rparr>"

definition InetAddress_of :: "sockaddr_in \<Rightarrow> InetAddress" where
  "InetAddress_of a = \<lparr>addr = a\<rparr>"

definition setSockAddr :: "sockaddr_in \<Rightarrow> InetAddress \<Rightarrow> InetAddress" where
  "setSockAddr a self = self\<lparr>addr := a\<rparr>"

definition toIp :: "InetAddress \<Rightarrow> string" where
  "toIp self = inet_ntop 64 (s_addr (addr self))"

definition toIpPort :: "InetAddress \<Rightarrow> string" where
  "toIpPort self =
     (let buf = inet_ntop 64 (s_addr (addr self));
          endp = length buf
      in buf @ snprintf (64 - endp) (CHR '':'' # dec (unat (ntohs (sin_port (addr self))))))"

definition toPort :: "InetAddress \<Rightarrow> 16 word" where
  "toPort self = ntohs (sin_port (addr self))"

definition getSockAddr :: "InetAddress \<Rightarrow> sockaddr_in" where
  "getSockAddr self = addr self"

section \<open>Byte order\<close>

lemma ntohs_htons [simp]: "ntohs (htons x) = x"
  unfolding ntohs_def htons_def by (rule bit_word_eqI) (auto simp: bit_simps)

lemma htons_ntohs [simp]: "htons (ntohs x) = x"
  unfolding ntohs_def htons_def by (rule bit_word_eqI) (auto simp: bit_simps)

lemma ntohs_inject [simp]: "ntohs x = ntohs y \<longleftrightarrow> x = y"
  by (metis htons_ntohs)

section \<open>Dotted text\<close>

lemma octet_less [simp]: "octet i a < 256"
  by (simp add: octet_def)

lemma octets: "unat a = octet 0 a + 256 * octet 1 a + 65536 * octet 2 a + 16777216 * octet 3 a"
proof -
  define u q1 q2 q3 where "u = unat a" and "q1 = u div 256" and "q2 = q1 div 256" and "q3 = q2 div 256"
  have "u < 4294967296" unfolding u_def using unsigned_less [where 'a = nat, of a] by simp
  then have "q3 < 256" by (simp add: q3_def q2_def q1_def)
  moreover have "octet 0 a = u mod 256" "octet 1 a = q1 mod 256" "octet 2 a = q2 mod 256" "octet 3 a = q3 mod 256"
    by (simp_all add: octet_def u_def q1_def q2_def q3_def flip: div_mult2_eq)
  moreover have "u = 256 * q1 + u mod 256" "q1 = 256 * q2 + q1 mod 256" "q2 = 256 * q3 + q2 mod 256"
    by (simp_all add: q1_def q2_def q3_def)
  ultimately have "u = octet 0 a + 256 * octet 1 a + 65536 * octet 2 a + 16777216 * octet 3 a" by simp
  then show ?thesis by (simp add: u_def)
qed

lemma octets_of: "of_nat (octet 0 a + 256 * octet 1 a + 65536 * octet 2 a + 16777216 * octet 3 a) = a"
  using octets [of a] by (metis of_nat_unat ucast_id)

lemma octets_inject:
  assumes "octet 0 a = octet 0 b" "octet 1 a = octet 1 b" "octet 2 a = octet 2 b" "octet 3 a = octet 3 b"
  shows "a = b"
  using octets [of a] octets [of b] assms by (simp add: word_unat_eq_iff)

lemma not_digit_separators [simp]: "\<not> is_digit CHR ''.''" "\<not> is_digit CHR '':''" "\<not> is_digit CHR ''#''"
  by (simp_all add: is_digit_def)

lemma length_dec_octet: "length (dec (octet i a)) \<le> 3"
  by (rule length_dec) (use order.strict_trans [OF octet_less, of 1000 i a] in simp_all)

lemma length_dotted: "length (dotted a) \<le> 15"
  using length_dec_octet [of 0 a] length_dec_octet [of 1 a] length_dec_octet [of 2 a] length_dec_octet [of 3 a]
  by (simp add: dotted_def)

lemma dotted_inject [simp]: "dotted a = dotted b \<longleftrightarrow> a = b"
proof
  assume eq: "dotted a = dotted b"
  then have "octet 0 a = octet 0 b \<and> octet 1 a = octet 1 b \<and> octet 2 a = octet 2 b \<and> octet 3 a = octet 3 b"
    unfolding dotted_def by (metis dec_separated dec_inject not_digit_separators(1))
  then show "a = b" using octets_inject by blast
qed simp

lemma inet_ntop_64 [simp]: "inet_ntop 64 a = dotted a"
  using length_dotted [of a] by (simp add: inet_ntop_def)

lemma length_port: "length (dec (unat (x :: 16 word))) \<le> 5"
  by (rule length_dec) (use unsigned_less [where 'a = nat, of x] in simp_all)

lemma toIpPort_text: "toIpPort x = dotted (s_addr (addr x)) @ CHR '':'' # dec (unat (toPort x))"
  using length_dotted [of "s_addr (addr x)"] length_port [of "toPort x"] by (simp add: toIpPort_def Let_def toPort_def)

lemma length_toIpPort: "length (toIpPort x) \<le> 21"
  using length_dotted [of "s_addr (addr x)"] length_port [of "toPort x"] by (simp add: toIpPort_text)

lemma dotted_chars: "list_all (\<lambda>c. c \<noteq> CHR '':'') (dotted a)"
  using separator_notin_dec [of "CHR '':''"] by (auto simp: dotted_def list_all_iff)

lemma toIpPort_inject:
  "toIpPort x = toIpPort y \<longleftrightarrow> s_addr (addr x) = s_addr (addr y) \<and> sin_port (addr x) = sin_port (addr y)"
proof
  assume "toIpPort x = toIpPort y"
  then have "dotted (s_addr (addr x)) @ CHR '':'' # dec (unat (toPort x)) =
      dotted (s_addr (addr y)) @ CHR '':'' # dec (unat (toPort y))" by (simp add: toIpPort_text)
  from split_at_separator [OF this dotted_chars dotted_chars]
  show "s_addr (addr x) = s_addr (addr y) \<and> sin_port (addr x) = sin_port (addr y)" by (simp add: toPort_def flip: word_unat_eq_iff)
qed (simp add: toIpPort_text toPort_def)

text \<open>What \<open>inet_addr\<close> documents of the dotted form.\<close>

definition inet_addr_law :: "(string \<Rightarrow> 32 word) \<Rightarrow> bool" where
  "inet_addr_law inet_addr \<longleftrightarrow> (\<forall>a. inet_addr (dotted a) = a)"

definition sample_inet_addr :: "string \<Rightarrow> 32 word" where
  "sample_inet_addr s =
     (case map undec (split_on CHR ''.'' s) of
        [o0, o1, o2, o3] \<Rightarrow> of_nat (o0 + 256 * o1 + 65536 * o2 + 16777216 * o3)
      | _ \<Rightarrow> 4294967295)"

lemma sample_inet_addr_law: "inet_addr_law sample_inet_addr"
proof -
  have "split_on CHR ''.'' (dotted a) = [dec (octet 0 a), dec (octet 1 a), dec (octet 2 a), dec (octet 3 a)]" for a
    by (simp add: dotted_def split_on_separator split_on_no_separator)
  then show ?thesis
    unfolding inet_addr_law_def sample_inet_addr_def by (simp only: list.simps list.case undec_dec octets_of simp_thms)
qed

section \<open>Properties\<close>

text \<open>
  C32: addresses survive the trip through text and byte order.  An address made from a port and a
  dotted text prints as that text, a colon and the port, untruncated in the 64-byte buffer of
  the code, and \<open>toPort\<close> gives the port back; two addresses print alike exactly when they agree
  in address and port.
\<close>

theorem inet_roundtrip:
  assumes "inet_addr_law inet_addr"
  shows "toIp (InetAddress_new inet_addr port (dotted a)) = dotted a \<and>
    toPort (InetAddress_new inet_addr port (dotted a)) = port \<and>
    toIpPort (InetAddress_new inet_addr port (dotted a)) = dotted a @ CHR '':'' # dec (unat port) \<and>
    length (toIpPort x) \<le> 21 \<and>
    (toIpPort x = toIpPort y \<longleftrightarrow> s_addr (getSockAddr x) = s_addr (getSockAddr y) \<and> toPort x = toPort y)"
proof (intro conjI)
  show "length (toIpPort x) \<le> 21" by (rule length_toIpPort)
  show "toIpPort x = toIpPort y \<longleftrightarrow> s_addr (getSockAddr x) = s_addr (getSockAddr y) \<and> toPort x = toPort y"
    using toIpPort_inject [of x y] by (simp add: getSockAddr_def toPort_def)
qed (use assms in \<open>simp_all add: inet_addr_law_def InetAddress_new_def toIp_def toPort_def toIpPort_text\<close>)

theorem inet_roundtrip_witness:
  "toPort (InetAddress_new sample_inet_addr 8080 ''127.0.0.1'') = 8080 \<and>
   toIpPort (InetAddress_new sample_inet_addr 8080 ''127.0.0.1'') = ''127.0.0.1:8080''"
proof -
  have "dotted 16777343 = ''127.0.0.1''" "dec (unat (8080 :: 16 word)) = ''8080''"
    by (simp_all add: dotted_def octet_def dec.simps digit_def char_of_def bit_simps)
  with inet_roundtrip [OF sample_inet_addr_law, of 8080 16777343] show ?thesis by simp
qed

end
