(* ===== verification/Acceptor.thy ===== *)
theory Acceptor
  imports Inet_Address Tcp_Stream
begin

text \<open>
  \<open>Socket\<close> (include/Socket.h, src/Socket.cc) and \<open>Acceptor\<close> (include/Acceptor.h, src/Acceptor.cc).
  A socket is its descriptor; its operations act on the kernel.  The acceptor owns the
  listening socket and a channel of the base loop; its operations work on any state that
  extends a poller.  The socket calls of the system are parameters.
\<close>

section \<open>Socket\<close>

datatype socket_option = TCP_NODELAY | SO_REUSEADDR | SO_REUSEPORT

record 'k server_sys = "'k tcp_sys" +
  sock_create :: "'k \<Rightarrow> int sysret \<times> 'k"
  sock_setopt :: "'k \<Rightarrow> int \<Rightarrow> socket_option \<Rightarrow> int \<Rightarrow> 'k"
  sock_bind :: "'k \<Rightarrow> int \<Rightarrow> sockaddr_in \<Rightarrow> unit sysret \<times> 'k"
  sock_listen :: "'k \<Rightarrow> int \<Rightarrow> int \<Rightarrow> unit sysret \<times> 'k"
  sock_accept :: "'k \<Rightarrow> int \<Rightarrow> (int \<times> sockaddr_in) sysret \<times> 'k"
  sock_name :: "'k \<Rightarrow> int \<Rightarrow> sockaddr_in sysret \<times> 'k"

definition Socket_destroy :: "('k, 'y) server_sys_scheme \<Rightarrow> int \<Rightarrow> 'k \<Rightarrow> 'k" where
  "Socket_destroy S fd k = close_fd S k fd"

definition Socket_listen :: "('k, 'y) server_sys_scheme \<Rightarrow> int \<Rightarrow> 'k \<Rightarrow> error + 'k" where
  "Socket_listen S fd k =
     (let (r, k1) = sock_listen S k fd (1024 * 16) in and_then (fatal_unless_ok r) (\<lambda>_. Inr k1))"

definition bindAddress :: "('k, 'y) server_sys_scheme \<Rightarrow> int \<Rightarrow> InetAddress \<Rightarrow> 'k \<Rightarrow> error + 'k" where
  "bindAddress S fd a k =
     (let (r, k1) = sock_bind S k fd (getSockAddr a) in and_then (fatal_unless_ok r) (\<lambda>_. Inr k1))"

text \<open>The new descriptor, or \<open>-1\<close>; \<open>peer\<close> is the reference parameter and its value afterwards.\<close>

definition Socket_accept :: "('k, 'y) server_sys_scheme \<Rightarrow> int \<Rightarrow> InetAddress \<Rightarrow> 'k \<Rightarrow> int \<times> InetAddress \<times> 'k" where
  "Socket_accept S fd peer k =
     (let (r, k1) = sock_accept S k fd
      in case r of
           SOk (connfd, a) \<Rightarrow> (connfd, if 0 \<le> connfd then setSockAddr a peer else peer, k1)
         | SErr _ \<Rightarrow> (-1, peer, k1))"

definition setTcpNoDelay :: "('k, 'y) server_sys_scheme \<Rightarrow> int \<Rightarrow> bool \<Rightarrow> 'k \<Rightarrow> 'k" where
  "setTcpNoDelay S fd on k = sock_setopt S k fd TCP_NODELAY (if on then 1 else 0)"

definition setReuseAddr :: "('k, 'y) server_sys_scheme \<Rightarrow> int \<Rightarrow> bool \<Rightarrow> 'k \<Rightarrow> 'k" where
  "setReuseAddr S fd on k = sock_setopt S k fd SO_REUSEADDR (if on then 1 else 0)"

definition setReusePort :: "('k, 'y) server_sys_scheme \<Rightarrow> int \<Rightarrow> bool \<Rightarrow> 'k \<Rightarrow> 'k" where
  "setReusePort S fd on k = sock_setopt S k fd SO_REUSEPORT (if on then 1 else 0)"

definition setKeepAlive :: "('k, 'y) tcp_sys_scheme \<Rightarrow> int \<Rightarrow> bool \<Rightarrow> 'k \<Rightarrow> 'k" where
  "setKeepAlive S fd on k = sock_keepalive S k fd on"

section \<open>Acceptor\<close>

record 'n acceptor =
  acc_loop :: ptr
  accept_socket :: int
  accept_channel :: ptr
  listening :: bool
  acc_callback :: "'n option"

definition createNonBlocking :: "('k, 'y) server_sys_scheme \<Rightarrow> 'k \<Rightarrow> error + (int \<times> 'k)" where
  "createNonBlocking S k =
     (let (r, k1) = sock_create S k in and_then (fatal_unless_ok r) (\<lambda>fd. Inr (fd, k1)))"

text \<open>\<open>ch\<close> is the address of the channel, \<open>read_cb\<close> the closure that calls \<open>handleRead\<close>.\<close>

definition Acceptor_new :: "('k, 'y) server_sys_scheme \<Rightarrow> ptr \<Rightarrow> ptr \<Rightarrow> InetAddress \<Rightarrow> bool \<Rightarrow> 'cb \<Rightarrow>
    ('cb, 'k, 'z) poller_scheme \<Rightarrow> error + ('n acceptor \<times> ('cb, 'k, 'z) poller_scheme)" where
  "Acceptor_new S loop ch a reuse read_cb s =
     and_then (createNonBlocking S (kernel s)) (\<lambda>(fd, k1).
     let channel = Channel_new loop fd;
         k2 = setReuseAddr S fd True k1;
         k3 = setReusePort S fd reuse k2
     in and_then (bindAddress S fd a k3) (\<lambda>k4.
        Inr (\<lparr>acc_loop = loop, accept_socket = fd, accept_channel = ch, listening = False, acc_callback = None\<rparr>,
             ch_set ch (channel\<lparr>read_callback := Some read_cb\<rparr>) (s\<lparr>kernel := k4\<rparr>))))"

text \<open>The members are destroyed after the body: the channel, and the socket with its descriptor.\<close>

definition Acceptor_destroy :: "('k, 'y) server_sys_scheme \<Rightarrow> 'n acceptor \<Rightarrow> ('cb, 'k, 'z) poller_scheme \<Rightarrow>
    error + ('cb, 'k, 'z) poller_scheme" where
  "Acceptor_destroy S a s =
     and_then (disableAll S (accept_channel a) s) (\<lambda>s1.
     and_then (removeChannel S (accept_channel a) s1) (\<lambda>s2.
     Inr (s2\<lparr>channel_heap := (channel_heap s2)(accept_channel a := None),
             kernel := Socket_destroy S (accept_socket a) (kernel s2)\<rparr>)))"

definition Acceptor_listen :: "('k, 'y) server_sys_scheme \<Rightarrow> 'n acceptor \<Rightarrow> ('cb, 'k, 'z) poller_scheme \<Rightarrow>
    error + ('n acceptor \<times> ('cb, 'k, 'z) poller_scheme)" where
  "Acceptor_listen S a s =
     (let a1 = a\<lparr>listening := True\<rparr>
      in and_then (Socket_listen S (accept_socket a1) (kernel s)) (\<lambda>k.
         and_then (enableReading S (accept_channel a1) (s\<lparr>kernel := k\<rparr>)) (\<lambda>s1. Inr (a1, s1))))"

definition setConnetionCallback :: "'n \<Rightarrow> 'n acceptor \<Rightarrow> 'n acceptor" where
  "setConnetionCallback cb a = a\<lparr>acc_callback := Some cb\<rparr>"

text \<open>
  The default argument of the local \<open>InetAddress\<close> is port 0 of \<open>127.0.0.1\<close>; \<open>inet_addr\<close> is the
  parameter of \<open>InetAddress_new\<close>, and \<open>invoke cb fd addr\<close> the effect of the callback.
\<close>

definition Acceptor_handleRead :: "('k, 'y) server_sys_scheme \<Rightarrow> (string \<Rightarrow> 32 word) \<Rightarrow>
    ('n \<Rightarrow> int \<Rightarrow> InetAddress \<Rightarrow> ('cb, 'k, 'z) poller_scheme \<Rightarrow> error + ('cb, 'k, 'z) poller_scheme) \<Rightarrow>
    'n acceptor \<Rightarrow> ('cb, 'k, 'z) poller_scheme \<Rightarrow> error + ('cb, 'k, 'z) poller_scheme" where
  "Acceptor_handleRead S inet_addr invoke a s =
     (let (connfd, peer, k) = Socket_accept S (accept_socket a) (InetAddress_new inet_addr 0 ''127.0.0.1'') (kernel s);
          s1 = s\<lparr>kernel := k\<rparr>
      in if 0 < connfd
         then case acc_callback a of
                Some cb \<Rightarrow> invoke cb connfd peer s1
              | None \<Rightarrow> Inr (s1\<lparr>kernel := close_fd S (kernel s1) connfd\<rparr>)
         else Inr s1)"

text \<open>
  On every answer of \<open>accept4\<close>: a connection is handed to the callback once with its descriptor
  and the peer's address, or its descriptor is closed when there is no callback; an error
  changes nothing but the kernel.  The descriptor 0, which \<open>accept4\<close> may return, is treated as
  an error, so that it is neither used nor closed.
\<close>

lemma acceptor_handleRead:
  assumes "sock_accept S (kernel s) (accept_socket a) = (r, k)"
  shows "Acceptor_handleRead S inet_addr invoke a s =
    (case r of
       SOk (fd, peer) \<Rightarrow>
         if 0 < fd
         then case acc_callback a of
                Some cb \<Rightarrow> invoke cb fd (InetAddress_of peer) (s\<lparr>kernel := k\<rparr>)
              | None \<Rightarrow> Inr (s\<lparr>kernel := close_fd S k fd\<rparr>)
         else Inr (s\<lparr>kernel := k\<rparr>)
     | SErr e \<Rightarrow> Inr (s\<lparr>kernel := k\<rparr>))"
  using assms
  by (simp add: Acceptor_handleRead_def Socket_accept_def setSockAddr_def InetAddress_of_def InetAddress_new_def
      Let_def split: sysret.split prod.split option.split)

section \<open>What is asked of listening sockets\<close>

text \<open>
  A new socket is a descriptor that was not open; binding and listening, when they succeed, are
  recorded by the kernel, and none of these calls touches the interest list; closing a
  descriptor that is not watched leaves the interest list alone.
\<close>

definition listen_laws :: "('k, 'y) server_sys_scheme \<Rightarrow> ('k \<Rightarrow> int \<rightharpoonup> epoll_event) \<Rightarrow> ('k \<Rightarrow> int set) \<Rightarrow>
    ('k \<Rightarrow> int \<rightharpoonup> sockaddr_in) \<Rightarrow> ('k \<Rightarrow> int set) \<Rightarrow> bool" where
  "listen_laws S interest opened bound listens \<longleftrightarrow>
     (\<forall>k fd k'. sock_create S k = (SOk fd, k') \<longrightarrow> fd \<notin> opened k \<and> opened k' = insert fd (opened k) \<and> interest k' = interest k) \<and>
     (\<forall>k fd opt v. interest (sock_setopt S k fd opt v) = interest k \<and> opened (sock_setopt S k fd opt v) = opened k) \<and>
     (\<forall>k fd a k'. sock_bind S k fd a = (SOk (), k') \<longrightarrow>
        bound k' = (bound k)(fd \<mapsto> a) \<and> interest k' = interest k \<and> opened k' = opened k) \<and>
     (\<forall>k fd n k'. sock_listen S k fd n = (SOk (), k') \<longrightarrow>
        listens k' = insert fd (listens k) \<and> bound k' = bound k \<and> interest k' = interest k \<and> opened k' = opened k) \<and>
     (\<forall>k operation fd ev. bound (snd (epoll_ctl S k operation fd ev)) = bound k \<and>
        listens (snd (epoll_ctl S k operation fd ev)) = listens k) \<and>
     (\<forall>k fd. interest k fd = None \<longrightarrow> interest (close_fd S k fd) = interest k)"

lemmas law_create = listen_laws_def [THEN iffD1, THEN conjunct1, rule_format]
lemmas law_setopt = listen_laws_def [THEN iffD1, THEN conjunct2, THEN conjunct1, rule_format]
lemmas law_bind = listen_laws_def [THEN iffD1, THEN conjunct2, THEN conjunct2, THEN conjunct1, rule_format]
lemmas law_listen = listen_laws_def [THEN iffD1, THEN conjunct2, THEN conjunct2, THEN conjunct2, THEN conjunct1, rule_format]
lemmas law_ctl = listen_laws_def [THEN iffD1, THEN conjunct2, THEN conjunct2, THEN conjunct2, THEN conjunct2, THEN conjunct1, rule_format]
lemmas law_close = listen_laws_def [THEN iffD1, THEN conjunct2, THEN conjunct2, THEN conjunct2, THEN conjunct2, THEN conjunct2, rule_format]

lemma fatal_unless_ok_Inr [simp]: "fatal_unless_ok r = Inr x \<longleftrightarrow> r = SOk x"
  by (simp add: fatal_unless_ok_def split: sysret.split)

lemma createNonBlocking_Inr [simp]: "createNonBlocking S k = Inr (fd, k') \<longleftrightarrow> sock_create S k = (SOk fd, k')"
  by (cases "sock_create S k") (auto simp: createNonBlocking_def and_then_Inr_iff)

lemma bindAddress_Inr [simp]: "bindAddress S fd a k = Inr k' \<longleftrightarrow> sock_bind S k fd (getSockAddr a) = (SOk (), k')"
  by (cases "sock_bind S k fd (getSockAddr a)") (auto simp: bindAddress_def and_then_Inr_iff)

lemma Socket_listen_Inr [simp]: "Socket_listen S fd k = Inr k' \<longleftrightarrow> sock_listen S k fd 16384 = (SOk (), k')"
  by (cases "sock_listen S k fd 16384") (auto simp: Socket_listen_def and_then_Inr_iff)

lemma Acceptor_new_ok:
  assumes "listen_laws S interest opened bound listens" and "poller_inv interest s" and "channel_heap s ch = None"
    and "Acceptor_new S loop ch a reuse cb s = Inr (acc, s1)"
  shows "\<exists>fd k. acc = \<lparr>acc_loop = loop, accept_socket = fd, accept_channel = ch, listening = False, acc_callback = None\<rparr> \<and>
    s1 = ch_set ch ((Channel_new loop fd)\<lparr>read_callback := Some cb\<rparr>) (s\<lparr>kernel := k\<rparr>) \<and>
    fd \<notin> opened (kernel s) \<and> opened k = insert fd (opened (kernel s)) \<and> interest k = interest (kernel s) \<and>
    bound k fd = Some (getSockAddr a) \<and> poller_inv interest s1"
proof -
  from assms(4) obtain fd k1 k4 where
    k1: "sock_create S (kernel s) = (SOk fd, k1)"
    and k4: "sock_bind S (setReusePort S fd reuse (setReuseAddr S fd True k1)) fd (getSockAddr a) = (SOk (), k4)"
    and res: "acc = \<lparr>acc_loop = loop, accept_socket = fd, accept_channel = ch, listening = False, acc_callback = None\<rparr>"
      "s1 = ch_set ch ((Channel_new loop fd)\<lparr>read_callback := Some cb\<rparr>) (s\<lparr>kernel := k4\<rparr>)"
    by (auto simp: Acceptor_new_def and_then_Inr_iff Let_def)
  note laws = law_create [OF assms(1) k1] law_bind [OF assms(1) k4] law_setopt [OF assms(1)]
  have k: "opened k4 = insert fd (opened (kernel s))" "interest k4 = interest (kernel s)" "bound k4 fd = Some (getSockAddr a)"
    using laws by (simp_all add: setReusePort_def setReuseAddr_def)
  have "poller_inv interest (s\<lparr>kernel := k4\<rparr>)"
    by (rule poller_inv_cong [OF assms(2)]) (simp_all add: k)
  then have "poller_inv interest (ch_set ch (Channel_new loop fd) (s\<lparr>kernel := k4\<rparr>))"
    using assms(3) by (intro poller_inv_new_channel) simp_all
  then have "poller_inv interest s1"
    by (rule poller_inv_cong) (simp_all add: res ch_set_def ch_core_def)
  with res k laws show ?thesis by blast
qed

text \<open>Listening on an acceptor whose channel is not registered yet.\<close>

lemma Acceptor_listen_ok:
  assumes laws: "epoll_laws S interest opened" "listen_laws S interest opened bound listens" and inv: "poller_inv interest s"
    and c: "channel_heap s (accept_channel acc) = Some c" "events c = 0" "index c = kNew" "ch_fd c = accept_socket acc"
    and fd: "accept_socket acc \<in> opened (kernel s)" "channels s (accept_socket acc) = None"
    and run: "Acceptor_listen S acc s = Inr (acc2, s2)"
  shows "acc2 = acc\<lparr>listening := True\<rparr> \<and> poller_inv interest s2 \<and> accept_socket acc \<in> listens (kernel s2) \<and>
    bound (kernel s2) = bound (kernel s) \<and> opened (kernel s2) = opened (kernel s) \<and>
    interest (kernel s2) = (interest (kernel s))(accept_socket acc \<mapsto> (kReadEvent, accept_channel acc)) \<and>
    channel_heap s2 (accept_channel acc) = Some (c\<lparr>events := kReadEvent, index := kAdd\<rparr>) \<and>
    channels s2 = (channels s)(accept_socket acc \<mapsto> accept_channel acc)"
proof -
  from run obtain k2 where k2: "sock_listen S (kernel s) (accept_socket acc) 16384 = (SOk (), k2)"
    and en: "enableReading S (accept_channel acc) (s\<lparr>kernel := k2\<rparr>) = Inr s2" and acc2: "acc2 = acc\<lparr>listening := True\<rparr>"
    by (auto simp: Acceptor_listen_def and_then_Inr_iff Let_def)
  note l = law_listen [OF laws(2) k2]
  let ?s = "s\<lparr>kernel := k2\<rparr>"
  have "poller_inv interest ?s" by (rule poller_inv_cong [OF inv]) (simp_all add: l)
  from enableReading_fresh [OF laws(1) this, of "accept_channel acc" c] c fd l obtain k3 where
    k3: "enableReading S (accept_channel acc) ?s = Inr (asked (accept_channel acc) c kReadEvent k3 ?s)"
      "poller_inv interest (asked (accept_channel acc) c kReadEvent k3 ?s)"
      "interest k3 = (interest k2)(accept_socket acc \<mapsto> (kReadEvent, accept_channel acc))" "opened k3 = opened k2" by auto
  have s2: "s2 = asked (accept_channel acc) c kReadEvent k3 ?s" using en k3(1) by simp
  with set_events_kernel [OF en [unfolded enableReading_def]] obtain operation f ev where
    "k3 = k2 \<or> k3 = snd (epoll_ctl S k2 operation f ev)" by (auto simp: asked_def)
  then have kern: "bound k3 = bound k2" "listens k3 = listens k2" using law_ctl [OF laws(2)] by (cases ev; auto)+
  show ?thesis
    using k3 l c kern acc2 kReadEvent_nonzero [of 0] by (simp add: s2 asked_def new_index_def index_consts)
qed

text \<open>The destructor of an acceptor that listens.\<close>

lemma Acceptor_destroy_ok:
  assumes laws: "epoll_laws S interest opened" "listen_laws S interest opened bound listens" and inv: "poller_inv interest s"
    and c: "channel_heap s (accept_channel acc) = Some c" "index c = kAdd" "ch_fd c = accept_socket acc"
    and fd: "accept_socket acc \<in> opened (kernel s)" "channels s (accept_socket acc) = Some (accept_channel acc)"
  shows "\<exists>s3. Acceptor_destroy S acc s = Inr s3 \<and> poller_inv interest s3 \<and>
    channels s3 = (channels s)(accept_socket acc := None) \<and> interest (kernel s3) = (interest (kernel s))(accept_socket acc := None)"
proof -
  let ?q = "accept_channel acc" and ?fd = "accept_socket acc"
  from set_events_ok [OF laws(1) inv c(1), of "\<lambda>e. kNoneEvent"] c fd obtain k4 where
    k4: "disableAll S ?q s = Inr (asked ?q c 0 k4 s)" "poller_inv interest (asked ?q c 0 k4 s)"
      "interest k4 = (interest (kernel s))(?fd := None)"
    by (auto simp: disableAll_def kNoneEvent_def)
  have h4: "channel_heap (asked ?q c 0 k4 s) ?q = Some (c\<lparr>events := 0, index := kDelete\<rparr>)"
    using c by (simp add: asked_def new_index_def index_consts)
  from removeChannel_ok [OF laws(1) k4(2) h4] c(3) k4(3) obtain s4 where
    s4: "removeChannel S ?q (asked ?q c 0 k4 s) = Inr s4" "poller_inv interest s4"
      "channel_heap s4 ?q = Some (c\<lparr>events := 0, index := kNew\<rparr>)" "channels s4 = (channels s)(?fd := None)"
      "interest (kernel s4) = (interest (kernel s))(?fd := None)"
    by (auto simp: asked_def index_consts)
  let ?s5 = "s4\<lparr>channel_heap := (channel_heap s4)(?q := None)\<rparr>"
  have cl: "interest (close_fd S (kernel s4) ?fd) = interest (kernel s4)" using s4(5) by (intro law_close [OF laws(2)]) simp
  have "poller_inv interest ?s5" by (rule poller_inv_drop_channel [OF s4(2,3)]) simp
  then have "poller_inv interest (?s5\<lparr>kernel := Socket_destroy S ?fd (kernel s4)\<rparr>)"
    by (rule poller_inv_cong) (simp_all add: Socket_destroy_def cl)
  with k4(1) s4 cl show ?thesis by (simp add: Acceptor_destroy_def Socket_destroy_def)
qed

text \<open>The sample network with sockets that can be created, bound and listened on.\<close>

type_synonym sample_host = "sample_net \<times> (int \<rightharpoonup> sockaddr_in) \<times> int set"

definition on_net :: "(sample_net \<Rightarrow> 'r \<times> sample_net) \<Rightarrow> sample_host \<Rightarrow> 'r \<times> sample_host" where
  "on_net f h = (case f (fst h) of (r, n) \<Rightarrow> (r, (n, snd h)))"

definition sample_address :: sockaddr_in where
  "sample_address = \<lparr>sin_family = AF_INET, sin_port = 36895, s_addr = 16777343\<rparr>"

definition sample_server_sys :: "sample_host server_sys" where
  "sample_server_sys = \<lparr>
     epoll_ctl = (\<lambda>h operation fd ev. on_net (\<lambda>n. epoll_ctl sample_tcp_sys n operation fd ev) h),
     epoll_wait = (\<lambda>h l t. on_net (\<lambda>n. epoll_wait sample_tcp_sys n l t) h),
     wall_clock = (\<lambda>h. (Timestamp 1, h)),
     eventfd_read = (\<lambda>h fd. on_net (\<lambda>n. eventfd_read sample_tcp_sys n fd) h),
     eventfd_write = (\<lambda>h fd. on_net (\<lambda>n. eventfd_write sample_tcp_sys n fd) h),
     epoll_create = on_net (epoll_create sample_tcp_sys),
     timerfd_create = on_net (timerfd_create sample_tcp_sys),
     eventfd_create = on_net (eventfd_create sample_tcp_sys),
     close_fd = (\<lambda>h fd. h),
     sock_write = (\<lambda>h fd bs. on_net (\<lambda>n. sock_write sample_tcp_sys n fd bs) h),
     sock_readv = (\<lambda>h fd ls. (SOk [], h)),
     sock_sendfile = (\<lambda>h out_fd in_fd off count. ((SOk 0, off), h)),
     sock_error = (\<lambda>h fd. (SOk 104, h)),
     sock_shutdown_wr = (\<lambda>h fd. on_net (\<lambda>n. sock_shutdown_wr sample_tcp_sys n fd) h),
     sock_keepalive = (\<lambda>h fd on. h),
     sock_create = on_net (timerfd_create sample_tcp_sys),
     sock_setopt = (\<lambda>h fd opt v. h),
     sock_bind = (\<lambda>(n, b, l) fd a. (SOk (), (n, b(fd \<mapsto> a), l))),
     sock_listen = (\<lambda>(n, b, l) fd backlog. (SOk (), (n, b, insert fd l))),
     sock_accept = (\<lambda>h fd. case on_net (timerfd_create sample_tcp_sys) h of
       (SOk n, h') \<Rightarrow> (SOk (n, sample_address), h') | (SErr e, h') \<Rightarrow> (SErr e, h')),
     sock_name = (\<lambda>h fd. (SOk sample_address, h))\<rparr>"

definition sample_host_view :: "sample_host net_view" where
  "sample_host_view = \<lparr>nv_interest = nv_interest sample_view \<circ> fst, nv_opened = nv_opened sample_view \<circ> fst,
     nv_out = nv_out sample_view \<circ> fst, nv_shut = nv_shut sample_view \<circ> fst\<rparr>"

lemma sample_host_epoll_laws: "epoll_laws sample_server_sys (nv_interest sample_host_view) (nv_opened sample_host_view)"
  using sample_reports
  by (simp add: epoll_laws_def sample_server_sys_def on_net_def sample_tcp_sys_def sample_loop_sys_def on_loop_def
      sample_epoll_def sample_host_view_def sample_view_def sample_interest_def sample_opened_def map_of_filter_ne)

lemma sample_listen_laws:
  "listen_laws sample_server_sys (nv_interest sample_host_view) (nv_opened sample_host_view)
     (\<lambda>h. fst (snd h)) (\<lambda>h. snd (snd h))"
  by (auto simp: listen_laws_def sample_server_sys_def on_net_def sample_tcp_sys_def sample_loop_sys_def on_loop_def
      sample_host_view_def sample_view_def sample_interest_def sample_opened_def split: prod.split)

definition sample_host_loop :: "(nat, sample_host) poller" where
  "sample_host_loop = \<lparr>channels = Map.empty, channel_heap = Map.empty,
     kernel = ((([], 0, 7), (\<lambda>_. []), {}), Map.empty, {})\<rparr>"

lemma sample_host_loop_inv: "poller_inv (nv_interest sample_host_view) sample_host_loop"
  by (simp add: poller_inv_def sample_host_loop_def watched_def sample_host_view_def sample_view_def sample_interest_def)

definition sample_acceptor :: "unit acceptor" where
  "sample_acceptor = \<lparr>acc_loop = 9, accept_socket = 7, accept_channel = 3, listening = False, acc_callback = None\<rparr>"

definition sample_bound :: "(nat, sample_host) poller" where
  "sample_bound = ch_set 3 ((Channel_new 9 7)\<lparr>read_callback := Some 1\<rparr>)
     (sample_host_loop\<lparr>kernel := ((([], 0, 8), (\<lambda>_. []), {}), [7 \<mapsto> sample_address], {})\<rparr>)"

lemma sample_bound_eq:
  "Acceptor_new sample_server_sys 9 3 (InetAddress_of sample_address) True 1 sample_host_loop = Inr (sample_acceptor, sample_bound)"
  by (simp add: Acceptor_new_def createNonBlocking_def bindAddress_def sample_server_sys_def on_net_def sample_tcp_sys_def
      sample_loop_sys_def on_loop_def fatal_unless_ok_def setReuseAddr_def setReusePort_def InetAddress_of_def getSockAddr_def
      sample_host_loop_def sample_bound_def sample_acceptor_def)

section \<open>Properties\<close>

text \<open>
  C25: the life of an acceptor.  A constructed acceptor has a new socket, bound to the given address
  and not watched; \<open>listen\<close> either ends the process or leaves the socket listening and watched
  for reading, on behalf of the acceptor's channel, with the poller's bookkeeping intact; and
  the destructor then takes socket and channel out of the poller again, so that the interest
  list is what it was before the acceptor existed.
\<close>

theorem acceptor_lifecycle:
  assumes "epoll_laws S interest opened" and "listen_laws S interest opened bound listens"
    and "poller_inv interest s" and "channel_heap s ch = None" and "dom (channels s) \<subseteq> opened (kernel s)"
    and "Acceptor_new S loop ch a reuse cb s = Inr (acc, s1)"
  shows "\<not> listening acc \<and> bound (kernel s1) (accept_socket acc) = Some (getSockAddr a) \<and>
    interest (kernel s1) = interest (kernel s) \<and>
    (\<forall>acc2 s2. Acceptor_listen S acc s1 = Inr (acc2, s2) \<longrightarrow>
       poller_inv interest s2 \<and> accept_socket acc2 \<in> listens (kernel s2) \<and>
       bound (kernel s2) (accept_socket acc2) = Some (getSockAddr a) \<and>
       interest (kernel s2) = (interest (kernel s))(accept_socket acc \<mapsto> (kReadEvent, ch)) \<and>
       (\<exists>s3. Acceptor_destroy S acc2 s2 = Inr s3 \<and> poller_inv interest s3 \<and>
          channels s3 = channels s \<and> interest (kernel s3) = interest (kernel s)))"
proof -
  from Acceptor_new_ok [OF assms(2,3,4,6)] obtain fd k where
    acc: "acc = \<lparr>acc_loop = loop, accept_socket = fd, accept_channel = ch, listening = False, acc_callback = None\<rparr>"
    and s1: "s1 = ch_set ch ((Channel_new loop fd)\<lparr>read_callback := Some cb\<rparr>) (s\<lparr>kernel := k\<rparr>)"
    and fd: "fd \<notin> opened (kernel s)" and k: "opened k = insert fd (opened (kernel s))" "interest k = interest (kernel s)"
      "bound k fd = Some (getSockAddr a)" and inv1: "poller_inv interest s1" by blast
  let ?c = "(Channel_new loop fd)\<lparr>read_callback := Some cb\<rparr>"
  have h1: "channel_heap s1 (accept_channel acc) = Some ?c" "events ?c = 0" "index ?c = kNew" "ch_fd ?c = accept_socket acc"
    "accept_socket acc \<in> opened (kernel s1)" "channels s1 (accept_socket acc) = None" "channels s1 = channels s" "kernel s1 = k"
    using assms(5) fd k by (auto simp: s1 acc ch_set_def Channel_new_def index_consts)
  have "interest (kernel s) fd = None"
    using poller_invD(3) [OF assms(3), of fd] assms(5) fd by (auto simp: watched_def split: option.splits)
  then have idem: "(interest (kernel s))(fd := None) = interest (kernel s)" "(channels s)(fd := None) = channels s"
    using h1(6,7) by (simp_all add: fun_upd_idem acc)
  have "poller_inv interest s2 \<and> accept_socket acc2 \<in> listens (kernel s2) \<and>
       bound (kernel s2) (accept_socket acc2) = Some (getSockAddr a) \<and>
       interest (kernel s2) = (interest (kernel s))(fd \<mapsto> (kReadEvent, ch)) \<and>
       (\<exists>s3. Acceptor_destroy S acc2 s2 = Inr s3 \<and> poller_inv interest s3 \<and>
          channels s3 = channels s \<and> interest (kernel s3) = interest (kernel s))"
    if run: "Acceptor_listen S acc s1 = Inr (acc2, s2)" for acc2 s2
  proof -
    note l = Acceptor_listen_ok [OF assms(1,2) inv1 h1(1-6) run]
    then have "\<exists>s3. Acceptor_destroy S acc2 s2 = Inr s3 \<and> poller_inv interest s3 \<and>
        channels s3 = (channels s2)(accept_socket acc2 := None) \<and> interest (kernel s3) = (interest (kernel s2))(accept_socket acc2 := None)"
      using h1(4,5) by (intro Acceptor_destroy_ok [OF assms(1,2), where c = "?c\<lparr>events := kReadEvent, index := kAdd\<rparr>"]) auto
    with l h1(7,8) k acc idem show ?thesis by simp
  qed
  with acc k s1 show ?thesis by (simp add: ch_set_def)
qed

theorem acceptor_lifecycle_witness:
  "\<exists>acc2 s2. Acceptor_listen sample_server_sys sample_acceptor sample_bound = Inr (acc2, s2) \<and>
    nv_interest sample_host_view (kernel s2) 7 = Some (kReadEvent, 3) \<and>
    (\<exists>s3. Acceptor_destroy sample_server_sys acc2 s2 = Inr s3 \<and> channels s3 = Map.empty)"
proof -
  have "\<not> isl (Acceptor_listen sample_server_sys sample_acceptor sample_bound)" by code_simp
  then obtain acc2 s2 where ex: "Acceptor_listen sample_server_sys sample_acceptor sample_bound = Inr (acc2, s2)"
    by (cases "Acceptor_listen sample_server_sys sample_acceptor sample_bound") auto
  have "dom (channels sample_host_loop) \<subseteq> nv_opened sample_host_view (kernel sample_host_loop)"
    and "channel_heap sample_host_loop 3 = None" by (simp_all add: sample_host_loop_def)
  from acceptor_lifecycle [OF sample_host_epoll_laws sample_listen_laws sample_host_loop_inv this(2,1) sample_bound_eq] ex
  show ?thesis by (fastforce simp: sample_acceptor_def sample_host_loop_def)
qed

end
