(* ===== verification/Thread_Pool.thy ===== *)
theory Thread_Pool
  imports Printing
begin

text \<open>
  \<open>EventLoopThreadPool\<close> (include/EventLoopThreadPool.h, src/EventLoopThreadPool.cc): the pool of
  I/O loops and the choice of the loop that gets the next connection.  Creating an
  \<open>EventLoopThread\<close> and calling its \<open>startLoop\<close>, whose interleavings are the subject of theory
  \<open>Threads\<close>, is the argument \<open>start_loop\<close>: it takes the name of the thread and gives the address
  of the new loop.  What a client may rely on is the locale \<open>loop_supplier\<close>.
\<close>

section \<open>Choosing loops\<close>

text \<open>Repeated calls of an operation that hands out one item.\<close>

fun draw :: "('p \<Rightarrow> error + ('l \<times> 'p)) \<Rightarrow> nat \<Rightarrow> 'p \<Rightarrow> error + ('l list \<times> 'p)" where
  "draw next 0 p = Inr ([], p)"
| "draw next (Suc k) p =
     and_then (next p) (\<lambda>(l, p1). and_then (draw next k p1) (\<lambda>(ls, p2). Inr (l # ls, p2)))"

locale loop_supplier =
  fixes next_one :: "'p \<Rightarrow> error + ('l \<times> 'p)" and all_of :: "'p \<Rightarrow> 'l list" and ok :: "'p \<Rightarrow> bool"
  assumes next_ok: "ok p \<Longrightarrow> \<exists>l p'. next_one p = Inr (l, p') \<and> l \<in> set (all_of p) \<and> ok p' \<and> all_of p' = all_of p"
begin

lemma next_cases:
  assumes "ok p"
  obtains l p' where "next_one p = Inr (l, p')" "l \<in> set (all_of p)" "ok p'" "all_of p' = all_of p"
  using next_ok [OF assms] by blast

lemma draw_ok:
  "ok p \<Longrightarrow> \<exists>ls p'. draw next_one k p = Inr (ls, p') \<and> length ls = k \<and> set ls \<subseteq> set (all_of p) \<and> ok p' \<and>
     all_of p' = all_of p"
proof (induction k arbitrary: p)
  case (Suc k)
  from Suc.prems obtain l p1 where p1: "next_one p = Inr (l, p1)" "l \<in> set (all_of p)" "ok p1" "all_of p1 = all_of p"
    by (rule next_cases)
  from Suc.IH [OF p1(3)] p1 show ?case by auto
qed simp

end

section \<open>State and operations\<close>

record thread_pool =
  base_loop :: ptr
  pool_name :: string
  pool_started :: bool
  next_index :: int
  num_threads :: int
  pool_threads :: "string list"
  pool_loops :: "ptr list"

definition EventLoopThreadPool_new :: "ptr \<Rightarrow> string \<Rightarrow> thread_pool" where
  "EventLoopThreadPool_new base name =
     \<lparr>base_loop = base, pool_name = name, pool_started = False, next_index = 0, num_threads = 0,
      pool_threads = [], pool_loops = []\<rparr>"

definition setNumThreads :: "int \<Rightarrow> thread_pool \<Rightarrow> error + thread_pool" where
  "setNumThreads n P =
     and_then (guard_r AssertionFailed (\<not> pool_started P) P) (\<lambda>P1. Inr (P1\<lparr>num_threads := n\<rparr>))"

text \<open>The body of the loop in \<open>start\<close>; \<open>'w\<close> is the rest of the program's state.\<close>

definition start_one :: "(string \<Rightarrow> 'w \<Rightarrow> error + (ptr \<times> 'w)) \<Rightarrow> nat \<Rightarrow> thread_pool \<times> 'w \<Rightarrow>
    error + (thread_pool \<times> 'w)" where
  "start_one start_loop i Pw =
     (case Pw of (P, w) \<Rightarrow>
        let buf = pool_name P @ dec i
        in and_then (start_loop buf w) (\<lambda>(l, w1).
           Inr (P\<lparr>pool_threads := pool_threads P @ [buf], pool_loops := pool_loops P @ [l]\<rparr>, w1)))"

text \<open>\<open>cb\<close> is the thread-init callback, if one is set, and \<open>init\<close> what it does with a loop.\<close>

definition pool_start :: "(string \<Rightarrow> 'w \<Rightarrow> error + (ptr \<times> 'w)) \<Rightarrow> ('i \<Rightarrow> ptr \<Rightarrow> 'w \<Rightarrow> error + 'w) \<Rightarrow> 'i option \<Rightarrow>
    thread_pool \<Rightarrow> 'w \<Rightarrow> error + (thread_pool \<times> 'w)" where
  "pool_start start_loop init cb P w =
     and_then (fold_r (start_one start_loop) [0..<nat (num_threads P)] (P\<lparr>pool_started := True\<rparr>, w)) (\<lambda>(P1, w1).
     case cb of
       Some f \<Rightarrow> if num_threads P1 = 0 then and_then (init f (base_loop P1) w1) (\<lambda>w2. Inr (P1, w2)) else Inr (P1, w1)
     | None \<Rightarrow> Inr (P1, w1))"

text \<open>The remainder of C++, whose sign is that of the dividend.\<close>

definition c_rem :: "int \<Rightarrow> int \<Rightarrow> int" where
  "c_rem a b = (if 0 \<le> a then a mod \<bar>b\<bar> else - (- a mod \<bar>b\<bar>))"

definition getNextLoop :: "thread_pool \<Rightarrow> error + (ptr \<times> thread_pool)" where
  "getNextLoop P =
     (if pool_loops P = [] then Inr (base_loop P, P)
      else if next_index P < 0 \<or> int (length (pool_loops P)) \<le> next_index P then Inl OutOfBounds
      else if num_threads P = 0 then Inl DivByZero
      else Inr (pool_loops P ! nat (next_index P),
                P\<lparr>next_index := c_rem (next_index P + 1) (num_threads P)\<rparr>))"

definition getAllLoops :: "thread_pool \<Rightarrow> ptr list" where
  "getAllLoops P = (if pool_loops P \<noteq> [] then pool_loops P else [base_loop P])"

section \<open>Well-formed pools\<close>

definition pool_ok :: "thread_pool \<Rightarrow> bool" where
  "pool_ok P \<longleftrightarrow>
     (if pool_loops P = [] then next_index P = 0
      else pool_started P \<and> 0 \<le> next_index P \<and> next_index P < num_threads P \<and>
           num_threads P \<le> int (length (pool_loops P)))"

lemma c_rem_nonneg: "0 \<le> a \<Longrightarrow> 0 < b \<Longrightarrow> c_rem a b = a mod b"
  by (simp add: c_rem_def)

lemma getNextLoop_ok:
  "pool_ok P \<Longrightarrow> \<exists>l P'. getNextLoop P = Inr (l, P') \<and> l \<in> set (getAllLoops P) \<and> pool_ok P' \<and> getAllLoops P' = getAllLoops P"
  by (cases "pool_loops P = []") (auto simp: getNextLoop_def pool_ok_def getAllLoops_def c_rem_nonneg)

interpretation pool: loop_supplier getNextLoop getAllLoops pool_ok
  by unfold_locales (rule getNextLoop_ok)

lemma start_one_pair:
  "start_one start_loop i (P, w) = and_then (start_loop (pool_name P @ dec i) w) (\<lambda>(l, w1).
     Inr (P\<lparr>pool_threads := pool_threads P @ [pool_name P @ dec i], pool_loops := pool_loops P @ [l]\<rparr>, w1))"
  by (simp add: start_one_def Let_def)

lemma start_many:
  "fold_r (start_one start_loop) is (P, w) = Inr (P', w') \<Longrightarrow>
     \<exists>ls. length ls = length is \<and> P' = P\<lparr>pool_threads := pool_threads P @ map (\<lambda>i. pool_name P @ dec i) is,
       pool_loops := pool_loops P @ ls\<rparr>"
proof (induction "is" arbitrary: P w)
  case Nil
  then show ?case by simp
next
  case (Cons i "is")
  from Cons.prems obtain l w1 where l: "start_loop (pool_name P @ dec i) w = Inr (l, w1)"
    "fold_r (start_one start_loop) is (P\<lparr>pool_threads := pool_threads P @ [pool_name P @ dec i], pool_loops := pool_loops P @ [l]\<rparr>, w1) =
      Inr (P', w')"
    by (auto simp: and_then_Inr_iff start_one_pair)
  from Cons.IH [OF l(2)] obtain ls where "length ls = length is"
    "P' = P\<lparr>pool_threads := pool_threads P @ map (\<lambda>i. pool_name P @ dec i) (i # is), pool_loops := pool_loops P @ l # ls\<rparr>"
    by auto
  then show ?case by (intro exI [of _ "l # ls"]) simp
qed

lemma pool_start_loops:
  assumes "pool_start start_loop init cb P w = Inr (P', w')"
  shows "\<exists>ls. length ls = nat (num_threads P) \<and> P' = P\<lparr>pool_started := True,
    pool_threads := pool_threads P @ map (\<lambda>i. pool_name P @ dec i) [0..<nat (num_threads P)],
    pool_loops := pool_loops P @ ls\<rparr>"
proof -
  from assms obtain w1 where "fold_r (start_one start_loop) [0..<nat (num_threads P)] (P\<lparr>pool_started := True\<rparr>, w) = Inr (P', w1)"
    by (auto simp: pool_start_def and_then_Inr_iff split: option.splits if_splits)
  from start_many [OF this] show ?thesis by simp
qed

text \<open>The states a pool can be in.\<close>

inductive pool_reach :: "(string \<Rightarrow> 'w \<Rightarrow> error + (ptr \<times> 'w)) \<Rightarrow> ('i \<Rightarrow> ptr \<Rightarrow> 'w \<Rightarrow> error + 'w) \<Rightarrow> ptr \<Rightarrow> string \<Rightarrow>
    thread_pool \<Rightarrow> bool" for start_loop init base name where
  new: "pool_reach start_loop init base name (EventLoopThreadPool_new base name)"
| set_num: "pool_reach start_loop init base name P \<Longrightarrow> setNumThreads n P = Inr P' \<Longrightarrow> pool_reach start_loop init base name P'"
| start: "pool_reach start_loop init base name P \<Longrightarrow> pool_start start_loop init cb P w = Inr (P', w') \<Longrightarrow> pool_reach start_loop init base name P'"
| next_loop: "pool_reach start_loop init base name P \<Longrightarrow> getNextLoop P = Inr (l, P') \<Longrightarrow> pool_reach start_loop init base name P'"

lemma pool_reach_ok: "pool_reach start_loop init base name P \<Longrightarrow> pool_ok P"
proof (induction rule: pool_reach.induct)
  case new
  show ?case by (simp add: pool_ok_def EventLoopThreadPool_new_def)
next
  case (set_num P n P')
  then show ?case by (auto simp: setNumThreads_def guard_r_def pool_ok_def split: if_splits)
next
  case (start P cb w P' w')
  from pool_start_loops [OF start.hyps(2)] start.IH show ?case
    by (cases "num_threads P \<le> 0") (auto simp: pool_ok_def split: if_splits)
next
  case (next_loop P l P')
  from pool.next_ok [OF next_loop.IH] next_loop.hyps show ?case by auto
qed

section \<open>Round robin\<close>

lemma draw_round_robin:
  assumes "pool_loops P \<noteq> []" and "num_threads P = int n" and "next_index P = int (s mod n)" and "n \<le> length (pool_loops P)" and "0 < n"
  shows "\<exists>P'. draw getNextLoop k P = Inr (map (\<lambda>i. pool_loops P ! (i mod n)) [s..<s + k], P')"
  using assms
proof (induction k arbitrary: P s)
  case (Suc k)
  have lt: "s mod n < length (pool_loops P)" using Suc.prems by (meson mod_less_divisor order_less_le_trans)
  define P1 where "P1 = P\<lparr>next_index := int (Suc s mod n)\<rparr>"
  have "c_rem (int (s mod n) + 1) (int n) = int (Suc s mod n)"
    using Suc.prems by (simp add: c_rem_nonneg mod_simps zmod_int add.commute)
  then have nx: "getNextLoop P = Inr (pool_loops P ! (s mod n), P1)"
    using Suc.prems lt by (simp add: getNextLoop_def P1_def)
  from Suc.IH [of P1 "Suc s"] Suc.prems obtain P' where
    "draw getNextLoop k P1 = Inr (map (\<lambda>i. pool_loops P ! (i mod n)) [Suc s..<Suc s + k], P')"
    by (auto simp: P1_def simp del: upt_Suc)
  moreover have "[s..<s + Suc k] = s # [Suc s..<Suc s + k]" by (simp add: upt_conv_Cons del: upt_Suc)
  ultimately show ?case using nx by (simp del: upt_Suc)
qed simp

lemma residue_count:
  "j < n \<Longrightarrow> card {i. i < k \<and> i mod n = j} = k div n + (if j < k mod n then 1 else 0)"
proof (induction k)
  case (Suc k)
  have "{i. i < Suc k \<and> i mod n = j} = {i. i < k \<and> i mod n = j} \<union> (if k mod n = j then {k} else {})"
    by (auto simp: less_Suc_eq)
  then have "card {i. i < Suc k \<and> i mod n = j} = card {i. i < k \<and> i mod n = j} + (if k mod n = j then 1 else 0)"
    by (simp add: card_insert_if)
  then have c: "card {i. i < Suc k \<and> i mod n = j} =
      k div n + (if j < k mod n then 1 else 0) + (if k mod n = j then 1 else 0)" using Suc by simp
  show ?case
  proof (cases "Suc (k mod n) = n")
    case True
    then have "Suc k mod n = 0" "Suc k div n = Suc (k div n)" by (simp_all add: mod_Suc div_Suc)
    with c True Suc.prems show ?thesis by auto
  next
    case False
    then have "Suc k mod n = Suc (k mod n)" "Suc k div n = k div n" by (simp_all add: mod_Suc div_Suc)
    with c show ?thesis by auto
  qed
qed simp

lemma count_map: "count_list (map f xs) y = length (filter (\<lambda>x. f x = y) xs)"
  by (induction xs) auto

lemma count_round_robin:
  assumes "distinct (take n ls)" and "j < n" and "n \<le> length ls"
  shows "count_list (map (\<lambda>i. ls ! (i mod n)) [0..<k]) (ls ! j) = k div n + (if j < k mod n then 1 else 0)"
proof -
  have "ls ! (i mod n) = ls ! j \<longleftrightarrow> i mod n = j" for i
  proof -
    have "i mod n < n" using assms(2) by simp
    with nth_eq_iff_index_eq [OF assms(1), of "i mod n" j] assms(2,3) show ?thesis by simp
  qed
  then have "count_list (map (\<lambda>i. ls ! (i mod n)) [0..<k]) (ls ! j) = length (filter (\<lambda>i. i mod n = j) [0..<k])"
    by (simp add: count_map)
  also have "\<dots> = card {i. i < k \<and> i mod n = j}"
    by (subst distinct_card [symmetric]) (auto intro: arg_cong [of _ _ card])
  finally show ?thesis using residue_count [OF assms(2)] by simp
qed

section \<open>Properties\<close>

text \<open>
  C31: a pool is always well-formed.  Whatever sequence of \<open>setNumThreads\<close>, \<open>start\<close> and
  \<open>getNextLoop\<close> was called, the index of the next loop lies in the vector of loops, so that
  any number of further calls of \<open>getNextLoop\<close> neither reads outside the vector nor divides by
  zero, and each gives one of the pool's loops (the base loop when there are none).
\<close>

theorem pool_well_formed:
  assumes "pool_reach start_loop init base name P"
  shows "pool_ok P \<and> (\<exists>ls P'. draw getNextLoop k P = Inr (ls, P') \<and> length ls = k \<and>
    set ls \<subseteq> set (getAllLoops P) \<and> getAllLoops P' = getAllLoops P)"
  using pool_reach_ok [OF assms] pool.draw_ok by blast

theorem pool_well_formed_witness:
  "pool_ok (EventLoopThreadPool_new 9 ''io'') \<and> (\<exists>ls P'. draw getNextLoop 5 (EventLoopThreadPool_new 9 ''io'') = Inr (ls, P') \<and>
    length ls = 5 \<and> set ls \<subseteq> set (getAllLoops (EventLoopThreadPool_new 9 ''io'')) \<and>
    getAllLoops P' = getAllLoops (EventLoopThreadPool_new 9 ''io''))"
  by (rule pool_well_formed [OF pool_reach.new [of "\<lambda>_ w. Inr (w, w)" "\<lambda>_ _. Inr"]])

text \<open>
  C19: connections are spread evenly.  After a pool of \<open>n\<close> threads was started, \<open>k\<close> calls of
  \<open>getNextLoop\<close> give exactly the loops \<open>0, 1, ..., n-1, 0, 1, ...\<close>, and each loop is given
  \<open>k div n\<close> times, the first \<open>k mod n\<close> of them once more.
\<close>

theorem round_robin:
  assumes "setNumThreads (int n) (EventLoopThreadPool_new base name) = Inr P0" and "0 < n"
    and "pool_start start_loop init cb P0 w = Inr (P, w')"
  shows "\<exists>P'. draw getNextLoop k P = Inr (map (\<lambda>i. pool_loops P ! (i mod n)) [0..<k], P') \<and>
    length (pool_loops P) = n \<and>
    (distinct (pool_loops P) \<longrightarrow> (\<forall>j<n. count_list (map (\<lambda>i. pool_loops P ! (i mod n)) [0..<k]) (pool_loops P ! j) =
       k div n + (if j < k mod n then 1 else 0)))"
proof -
  from assms(1) have P0: "P0 = (EventLoopThreadPool_new base name)\<lparr>num_threads := int n\<rparr>"
    by (simp add: setNumThreads_def guard_r_def EventLoopThreadPool_new_def)
  with pool_start_loops [OF assms(3)] have P: "length (pool_loops P) = n" "num_threads P = int n" "next_index P = 0"
    by (auto simp: EventLoopThreadPool_new_def)
  with draw_round_robin [of P n 0 k] assms(2) count_round_robin [of n "pool_loops P" _ k] show ?thesis by force
qed

theorem round_robin_witness:
  "\<exists>P P'. draw getNextLoop 5 P = Inr (map (\<lambda>i. pool_loops P ! (i mod 3)) [0..<5], P') \<and> length (pool_loops P) = 3"
proof -
  let ?start = "\<lambda>name w. Inr (w, Suc w) :: error + (ptr \<times> nat)"
  obtain P0 where P0: "setNumThreads (int 3) (EventLoopThreadPool_new 9 ''io'') = Inr P0"
    and n: "nat (num_threads P0) = 3"
    by (simp add: setNumThreads_def guard_r_def EventLoopThreadPool_new_def)
  obtain P w where "pool_start ?start (\<lambda>_ _. Inr) (None :: unit option) P0 20 = Inr (P, w)"
    by (simp add: pool_start_def n start_one_def upt_rec)
  from round_robin [OF P0 _ this, of 5] show ?thesis by auto
qed

end
