(* ===== verification/Tcp_Server.thy ===== *)
theory Tcp_Server
  imports Acceptor Thread_Pool
begin

text \<open>
  \<open>TcpServer\<close> (include/TcpServer.h, src/TcpServer.cc) on top of the acceptor, the thread pool, the
  event loops and the connections.  The state is a process: the loop whose thread runs the
  current step, in the fields of an event loop, the other loops aside, one kernel and one heap
  of connections for all of them, and the server.  \<open>Sys l\<close> are the system calls as the loop at
  address \<open>l\<close> makes them, on its own epoll instance.
\<close>

section \<open>State\<close>

text \<open>The closures the server creates, as functors and as the callback of the acceptor's channel.\<close>

datatype 'v server_closure =
    AcceptorRead
  | AcceptorListen
  | RemoveConnectionInLoop ptr
  | UserClosure 'v

text \<open>The callbacks of a connection: the server's close callback, or one of the user's.\<close>

datatype 'v server_cb = RemoveConnection | UserCb 'v

datatype Option = kNoReusePort | kReusePort

text \<open>The closure the server gives to its acceptor.\<close>

datatype accept_cb = NewConnection

record 'v tcp_server =
  srv_loop :: ptr
  ip_port :: string
  srv_name :: string
  srv_acceptor :: "accept_cb acceptor"
  pool :: thread_pool
  connection_map :: "string \<rightharpoonup> ptr"
  srv_connection_callback :: "'v option"
  srv_write_complete_callback :: "'v option"
  srv_message_callback :: "'v option"
  thread_init_callback :: "'v option"
  srv_num_threads :: int
  srv_started :: "32 word"
  next_conn_id :: int

type_synonym ('v, 'k) io_loop = "('v server_closure channel_cb, 'k, 'v server_closure loop_functor) event_loop"

record ('v, 'k) process = "('v server_closure, 'k, 'v server_cb, InetAddress) world" +
  this_loop :: ptr
  other_loops :: "ptr \<rightharpoonup> ('v, 'k) io_loop"
  server :: "'v tcp_server"

type_synonym ('v, 'k) process_result = "error + ('v, 'k) process"

section \<open>Several loops\<close>

text \<open>The fields of a loop other than the kernel, which all loops share, put into the process.\<close>

definition put_loop :: "('v, 'k) io_loop \<Rightarrow> ('v, 'k) process \<Rightarrow> ('v, 'k) process" where
  "put_loop e w = w\<lparr>channels := channels e, channel_heap := channel_heap e, looping := looping e,
     quit_flag := quit_flag e, thread_id := thread_id e, pollReturnTime := pollReturnTime e,
     wakeup_fd := wakeup_fd e, wakeup_channel := wakeup_channel e, active_channels := active_channels e,
     pendingFunctors := pendingFunctors e, calling_pending_functors := calling_pending_functors e\<rparr>"

text \<open>The loop at \<open>l\<close> becomes the one whose thread runs.\<close>

definition switch_to :: "ptr \<Rightarrow> ('v, 'k) process \<Rightarrow> ('v, 'k) process_result" where
  "switch_to l w =
     (if l = this_loop w then Inr w
      else case other_loops w l of
             None \<Rightarrow> Inl NullPointer
           | Some e \<Rightarrow> Inr ((put_loop e w)\<lparr>this_loop := l,
                other_loops := (other_loops w)(this_loop w \<mapsto> event_loop.truncate w, l := None)\<rparr>))"

text \<open>Work on the objects of the loop at \<open>l\<close> by the running thread.\<close>

definition with_loop :: "ptr \<Rightarrow> (('v, 'k) process \<Rightarrow> ('v, 'k) process_result) \<Rightarrow> ('v, 'k) process \<Rightarrow>
    ('v, 'k) process_result" where
  "with_loop l f w = and_then (switch_to l w) (\<lambda>w1. and_then (f w1) (switch_to (this_loop w)))"

text \<open>\<open>queueInLoop\<close> and \<open>runInLoop\<close> of the loop at \<open>l\<close>, called by the running thread.\<close>

definition queue_at :: "(ptr \<Rightarrow> ('k, 'y) server_sys_scheme) \<Rightarrow> ptr \<Rightarrow> 'v server_closure loop_functor \<Rightarrow>
    ('v, 'k) process \<Rightarrow> ('v, 'k) process_result" where
  "queue_at Sys l f w =
     (if l = this_loop w then Inr (queueInLoop (Sys l) (thread_id w) f w)
      else case other_loops w l of
             None \<Rightarrow> Inl NullPointer
           | Some e \<Rightarrow>
               let e1 = queueInLoop (Sys l) (thread_id w) f (e\<lparr>kernel := kernel w\<rparr>)
               in Inr (w\<lparr>other_loops := (other_loops w)(l \<mapsto> e1), kernel := kernel e1\<rparr>))"

definition run_at :: "(ptr \<Rightarrow> ('k, 'y) server_sys_scheme) \<Rightarrow>
    (('v, 'k) process \<Rightarrow> ('v, 'k) process_result) \<Rightarrow> ptr \<Rightarrow> 'v server_closure loop_functor \<Rightarrow>
    ('v, 'k) process \<Rightarrow> ('v, 'k) process_result" where
  "run_at Sys exec l f w =
     (if l = this_loop w then exec w
      else case other_loops w l of
             None \<Rightarrow> Inl NullPointer
           | Some e \<Rightarrow> if isInLoopThread (thread_id w) e then exec w else queue_at Sys l f w)"

section \<open>Callbacks of a connection\<close>

definition setConnecitonCallback :: "'u option \<Rightarrow> ('u, 'a) connection \<Rightarrow> ('u, 'a) connection" where
  "setConnecitonCallback cb c = c\<lparr>connection_callback := cb\<rparr>"

definition setCloseCallback :: "'u option \<Rightarrow> ('u, 'a) connection \<Rightarrow> ('u, 'a) connection" where
  "setCloseCallback cb c = c\<lparr>conn_close_callback := cb\<rparr>"

definition setWriteCompleteCallback :: "'u option \<Rightarrow> ('u, 'a) connection \<Rightarrow> ('u, 'a) connection" where
  "setWriteCompleteCallback cb c = c\<lparr>write_complete_callback := cb\<rparr>"

definition setHighWaterMarkCallback :: "'u option \<Rightarrow> ('u, 'a) connection \<Rightarrow> ('u, 'a) connection" where
  "setHighWaterMarkCallback cb c = c\<lparr>high_water_mark_callback := cb\<rparr>"

definition setMessageCallback :: "'u option \<Rightarrow> ('u, 'a) connection \<Rightarrow> ('u, 'a) connection" where
  "setMessageCallback cb c = c\<lparr>message_callback := cb\<rparr>"

section \<open>TcpServer\<close>

text \<open>The constructor; \<open>ch\<close> is the address of the acceptor's channel, \<open>s\<close> the base loop.\<close>

definition TcpServer_new :: "('k, 'y) server_sys_scheme \<Rightarrow> ptr \<Rightarrow> ptr \<Rightarrow> InetAddress \<Rightarrow> string \<Rightarrow> Option \<Rightarrow>
    ('v server_closure channel_cb, 'k, 'z) poller_scheme \<Rightarrow>
    error + ('v tcp_server \<times> ('v server_closure channel_cb, 'k, 'z) poller_scheme)" where
  "TcpServer_new S base ch bind_addr name reuse_option s =
     and_then (Acceptor_new S base ch bind_addr (reuse_option = kReusePort) (OtherCallback AcceptorRead) s) (\<lambda>(acc, s1).
     Inr (\<lparr>srv_loop = base, ip_port = toIpPort bind_addr, srv_name = name,
           srv_acceptor = setConnetionCallback NewConnection acc, pool = EventLoopThreadPool_new base name,
           connection_map = Map.empty, srv_connection_callback = None, srv_write_complete_callback = None,
           srv_message_callback = None, thread_init_callback = None, srv_num_threads = 0, srv_started = 0,
           next_conn_id = 1\<rparr>, s1))"

definition upd_server :: "('v tcp_server \<Rightarrow> 'v tcp_server) \<Rightarrow> ('v, 'k) process \<Rightarrow> ('v, 'k) process" where
  "upd_server f w = w\<lparr>server := f (server w)\<rparr>"

text \<open>The setters of the user's callbacks.\<close>

definition srv_setConnecitonCallback :: "'v option \<Rightarrow> 'v tcp_server \<Rightarrow> 'v tcp_server" where
  "srv_setConnecitonCallback cb s = s\<lparr>srv_connection_callback := cb\<rparr>"

definition srv_setWriteCompleteCallback :: "'v option \<Rightarrow> 'v tcp_server \<Rightarrow> 'v tcp_server" where
  "srv_setWriteCompleteCallback cb s = s\<lparr>srv_write_complete_callback := cb\<rparr>"

definition srv_setMessageCallback :: "'v option \<Rightarrow> 'v tcp_server \<Rightarrow> 'v tcp_server" where
  "srv_setMessageCallback cb s = s\<lparr>srv_message_callback := cb\<rparr>"

definition setThreadInitCallback :: "'v option \<Rightarrow> 'v tcp_server \<Rightarrow> 'v tcp_server" where
  "setThreadInitCallback cb s = s\<lparr>thread_init_callback := cb\<rparr>"

text \<open>
  The destructor's loop over the connection table, in the order \<open>entries\<close> in which the hash
  table enumerates it.
\<close>

definition TcpServer_destroy :: "(ptr \<Rightarrow> ('k, 'y) server_sys_scheme) \<Rightarrow> (string \<times> ptr) list \<Rightarrow>
    ('v, 'k) process \<Rightarrow> ('v, 'k) process_result" where
  "TcpServer_destroy Sys entries w =
     fold_r (\<lambda>(n, p) w. and_then (conn_deref p w) (\<lambda>c.
       queue_at Sys (conn_loop c) (ConnectionDestroyed p)
         (upd_server (\<lambda>s. s\<lparr>connection_map := (connection_map s)(n := None)\<rparr>) w))) entries w"

definition acceptor_listen :: "(ptr \<Rightarrow> ('k, 'y) server_sys_scheme) \<Rightarrow> ('v, 'k) process \<Rightarrow> ('v, 'k) process_result" where
  "acceptor_listen Sys w =
     and_then (Acceptor_listen (Sys (this_loop w)) (srv_acceptor (server w)) w) (\<lambda>(acc, w1).
     Inr (upd_server (\<lambda>s. s\<lparr>srv_acceptor := acc\<rparr>) w1))"

text \<open>
  \<open>start_loop\<close> creates and starts an event-loop thread of the given name, \<open>init\<close> is the effect of
  the thread-init callback.
\<close>

definition TcpServer_start :: "(ptr \<Rightarrow> ('k, 'y) server_sys_scheme) \<Rightarrow>
    (string \<Rightarrow> ('v, 'k) process \<Rightarrow> error + (ptr \<times> ('v, 'k) process)) \<Rightarrow>
    ('v \<Rightarrow> ptr \<Rightarrow> ('v, 'k) process \<Rightarrow> ('v, 'k) process_result) \<Rightarrow> ('v, 'k) process \<Rightarrow> ('v, 'k) process_result" where
  "TcpServer_start Sys start_loop init w =
     (let w1 = upd_server (\<lambda>s. s\<lparr>srv_started := srv_started s + 1\<rparr>) w
      in if srv_started (server w) = 0
         then and_then (pool_start start_loop init (thread_init_callback (server w1)) (pool (server w1)) w1) (\<lambda>(P, w2).
              let w3 = upd_server (\<lambda>s. s\<lparr>pool := P\<rparr>) w2
              in run_at Sys (acceptor_listen Sys) (srv_loop (server w3)) (OtherFunctor AcceptorListen) w3)
         else Inr w1)"

definition setThreadNum :: "int \<Rightarrow> ('v, 'k) process \<Rightarrow> ('v, 'k) process_result" where
  "setThreadNum n w =
     and_then (guard_r AssertionFailed (srv_started (server w) = 0) w) (\<lambda>w1.
     and_then (setNumThreads n (pool (server w1))) (\<lambda>P.
     Inr (upd_server (\<lambda>s. s\<lparr>srv_num_threads := n, pool := P\<rparr>) w1)))"

text \<open>The name of a connection: the server's name and a buffer of 64 bytes with address and number.\<close>

definition connection_name :: "'v tcp_server \<Rightarrow> int \<Rightarrow> string" where
  "connection_name s i = srv_name s @ snprintf 64 (CHR ''-'' # ip_port s @ CHR ''#'' # dec_int i)"

text \<open>\<open>p\<close> and \<open>ch\<close> are the addresses the new connection and its channel get.\<close>

definition newConnection :: "(ptr \<Rightarrow> ('k, 'y) server_sys_scheme) \<Rightarrow> ptr \<Rightarrow> ptr \<Rightarrow> int \<Rightarrow> InetAddress \<Rightarrow>
    ('v, 'k) process \<Rightarrow> ('v, 'k) process_result" where
  "newConnection Sys p ch sock_fd peer w =
     and_then (getNextLoop (pool (server w))) (\<lambda>(ioloop, P).
     let i = next_conn_id (server w);
         conn_name = connection_name (server w) i
     in and_then (guard_r SignedOverflow (i < 2147483647) w) (\<lambda>_.
        let (r, k) = sock_name (Sys (this_loop w)) (kernel w) sock_fd;
            local_a = InetAddress_of (case r of SOk a \<Rightarrow> a | SErr _ \<Rightarrow> \<lparr>sin_family = 0, sin_port = 0, s_addr = 0\<rparr>);
            w1 = upd_server (\<lambda>s. s\<lparr>pool := P, next_conn_id := i + 1\<rparr>) (w\<lparr>kernel := k\<rparr>)
        in and_then (with_loop ioloop
             (TcpConnection_new (Sys ioloop) ioloop p ch conn_name sock_fd local_a peer DefaultWaterMark) w1) (\<lambda>w2.
           and_then (conn_deref p w2) (\<lambda>c.
           let c1 = setCloseCallback (Some RemoveConnection) c;
               c2 = setConnecitonCallback (map_option UserCb (srv_connection_callback (server w2))) c1;
               c3 = setMessageCallback (map_option UserCb (srv_message_callback (server w2))) c2;
               c4 = setWriteCompleteCallback (map_option UserCb (srv_write_complete_callback (server w2))) c3;
               w3 = upd_server (\<lambda>s. s\<lparr>connection_map := (connection_map s)(conn_name \<mapsto> p)\<rparr>) (conn_set p c4 w2)
           in queue_at Sys ioloop (ConnectionEstablished p) w3))))"

definition removeConnectionInLoop :: "(ptr \<Rightarrow> ('k, 'y) server_sys_scheme) \<Rightarrow> ptr \<Rightarrow> ('v, 'k) process \<Rightarrow>
    ('v, 'k) process_result" where
  "removeConnectionInLoop Sys p w =
     and_then (conn_deref p w) (\<lambda>c.
     queue_at Sys (conn_loop c) (ConnectionDestroyed p)
       (upd_server (\<lambda>s. s\<lparr>connection_map := (connection_map s)(conn_name c := None)\<rparr>) w))"

definition removeConnection :: "(ptr \<Rightarrow> ('k, 'y) server_sys_scheme) \<Rightarrow> ptr \<Rightarrow> ('v, 'k) process \<Rightarrow>
    ('v, 'k) process_result" where
  "removeConnection Sys p w =
     run_at Sys (removeConnectionInLoop Sys p) (srv_loop (server w)) (OtherFunctor (RemoveConnectionInLoop p)) w"

section \<open>The whole process\<close>

text \<open>
  What the callbacks of connections do: the close callback is the server's, the others are the
  user's, given by \<open>user\<close>.
\<close>

fun server_user :: "(ptr \<Rightarrow> ('k, 'y) server_sys_scheme) \<Rightarrow>
    ('v user_call \<Rightarrow> ('v, 'k) process \<Rightarrow> ('v, 'k) process_result) \<Rightarrow>
    'v server_cb user_call \<Rightarrow> ('v, 'k) process \<Rightarrow> ('v, 'k) process_result" where
  "server_user Sys user (UserCall RemoveConnection p) w = removeConnection Sys p w"
| "server_user Sys user (UserCall (UserCb v) p) w = user (UserCall v p) w"
| "server_user Sys user (UserMessage (UserCb v) p t) w = user (UserMessage v p t) w"
| "server_user Sys user (UserMessage RemoveConnection p t) w = Inl BadFunctionCall"

text \<open>The functors of a loop: those of connections and those of the server.\<close>

fun run_closure :: "(ptr \<Rightarrow> ('k, 'y) server_sys_scheme) \<Rightarrow>
    ('v \<Rightarrow> ('v, 'k) process \<Rightarrow> ('v, 'k) process_result) \<Rightarrow>
    'v server_closure \<Rightarrow> ('v, 'k) process \<Rightarrow> ('v, 'k) process_result" where
  "run_closure Sys code (RemoveConnectionInLoop p) w = removeConnectionInLoop Sys p w"
| "run_closure Sys code AcceptorListen w = acceptor_listen Sys w"
| "run_closure Sys code AcceptorRead w = Inl BadFunctionCall"
| "run_closure Sys code (UserClosure v) w = code v w"

definition server_functor :: "(ptr \<Rightarrow> ('k, 'y) server_sys_scheme) \<Rightarrow>
    ('v user_call \<Rightarrow> ('v, 'k) process \<Rightarrow> ('v, 'k) process_result) \<Rightarrow>
    ('v \<Rightarrow> ('v, 'k) process \<Rightarrow> ('v, 'k) process_result) \<Rightarrow>
    'v server_closure loop_functor \<Rightarrow> ('v, 'k) process \<Rightarrow> ('v, 'k) process_result" where
  "server_functor Sys user code f w =
     run_functor (Sys (this_loop w)) (server_user Sys user) (run_closure Sys code) f w"

text \<open>
  The read callback of the acceptor's channel, with \<open>alloc\<close> the addresses the allocator gives to
  the next connection and its channel.
\<close>

definition acceptor_read :: "(ptr \<Rightarrow> ('k, 'y) server_sys_scheme) \<Rightarrow> (string \<Rightarrow> 32 word) \<Rightarrow>
    (('v, 'k) process \<Rightarrow> ptr \<times> ptr) \<Rightarrow> ('v, 'k) process \<Rightarrow> ('v, 'k) process_result" where
  "acceptor_read Sys inet_addr alloc w =
     Acceptor_handleRead (Sys (this_loop w)) inet_addr
       (\<lambda>NewConnection fd peer w. case alloc w of (p, ch) \<Rightarrow> newConnection Sys p ch fd peer w)
       (srv_acceptor (server w)) w"

end
