(* ===== verification/Server_Properties.thy ===== *)
theory Server_Properties
  imports Tcp_Server Tcp_Lifecycle
begin

text \<open>
  The server's guarantees: how work moves between loops, what accepting and removing a
  connection do to the table of connections and to the loops' queues, that names are unique,
  and the whole life of a connection from accept to destruction.
\<close>

section \<open>Loops of a process\<close>

text \<open>The loop at an address, with the kernel all loops share; a process knows each loop once.\<close>

definition loop_at :: "ptr \<Rightarrow> ('v, 'k) process \<Rightarrow> ('v, 'k) io_loop option" where
  "loop_at l w =
     (if l = this_loop w then Some (event_loop.truncate w)
      else map_option (\<lambda>e. e\<lparr>kernel := kernel w\<rparr>) (other_loops w l))"

definition process_ok :: "('v, 'k) process \<Rightarrow> bool" where
  "process_ok w \<longleftrightarrow> other_loops w (this_loop w) = None"

definition pending_at :: "ptr \<Rightarrow> ('v, 'k) process \<Rightarrow> 'v server_closure loop_functor list" where
  "pending_at l w = (case loop_at l w of None \<Rightarrow> [] | Some e \<Rightarrow> pendingFunctors e)"

lemma put_loop_sel [simp]:
  "kernel (put_loop e w) = kernel w" "conns (put_loop e w) = conns w" "server (put_loop e w) = server w"
  "this_loop (put_loop e w) = this_loop w" "other_loops (put_loop e w) = other_loops w"
  "channels (put_loop e w) = channels e" "channel_heap (put_loop e w) = channel_heap e"
  "thread_id (put_loop e w) = thread_id e" "pendingFunctors (put_loop e w) = pendingFunctors e"
  by (simp_all add: put_loop_def)

lemma truncate_sel [simp]:
  "channels (event_loop.truncate w) = channels w" "channel_heap (event_loop.truncate w) = channel_heap w"
  "kernel (event_loop.truncate w) = kernel w" "thread_id (event_loop.truncate w) = thread_id w"
  "pendingFunctors (event_loop.truncate w) = pendingFunctors w"
  by (simp_all add: event_loop.truncate_def)

lemma truncate_put_loop [simp]: "event_loop.truncate (put_loop e w) = e\<lparr>kernel := kernel w\<rparr>"
  by (simp add: put_loop_def event_loop.truncate_def)

lemma truncate_process [simp]:
  "event_loop.truncate (w\<lparr>this_loop := l\<rparr>) = event_loop.truncate w"
  "event_loop.truncate (w\<lparr>other_loops := os\<rparr>) = event_loop.truncate w"
  "event_loop.truncate (w\<lparr>server := srv\<rparr>) = event_loop.truncate w"
  "event_loop.truncate (conn_set p c w) = event_loop.truncate w"
  for w :: "('v, 'k) process"
  by (simp_all add: event_loop.truncate_def conn_set_def)

lemma queueInLoop_sel [simp]:
  "channels (queueInLoop S tid f s) = channels s" "channel_heap (queueInLoop S tid f s) = channel_heap s"
  "thread_id (queueInLoop S tid f s) = thread_id s" "pendingFunctors (queueInLoop S tid f s) = pendingFunctors s @ [f]"
  by (simp_all add: queueInLoop_def push_functor_def wakeUp_def Let_def)

lemma queueInLoop_kernel:
  "kernel (queueInLoop S tid f s) = kernel s \<or> (\<exists>fd. kernel (queueInLoop S tid f s) = snd (eventfd_write S (kernel s) fd))"
  by (auto simp: queueInLoop_def push_functor_def wakeUp_def Let_def)

lemma queueInLoop_process [simp]:
  "conns (queueInLoop S tid f w) = conns w" "this_loop (queueInLoop S tid f w) = this_loop w"
  "other_loops (queueInLoop S tid f w) = other_loops w" "server (queueInLoop S tid f w) = server w"
  for w :: "('v, 'k) process"
  by (simp_all add: queueInLoop_def push_functor_def wakeUp_def Let_def)

lemma queue_at_total:
  "loop_at l w \<noteq> None \<Longrightarrow> \<exists>w'. queue_at Sys l f w = Inr w'"
  by (auto simp: queue_at_def loop_at_def Let_def split: if_splits)

lemma queue_at_frame:
  assumes "queue_at Sys l f w = Inr w'"
  shows "server w' = server w" "conns w' = conns w" "this_loop w' = this_loop w" "thread_id w' = thread_id w"
    "channels w' = channels w" "channel_heap w' = channel_heap w" "process_ok w' \<longleftrightarrow> process_ok w"
  using assms by (auto simp: queue_at_def Let_def process_ok_def split: if_splits option.splits)

lemma queue_at_kernel:
  assumes "queue_at Sys l f w = Inr w'"
  shows "kernel w' = kernel w \<or> (\<exists>fd. kernel w' = snd (eventfd_write (Sys l) (kernel w) fd))"
proof (cases "l = this_loop w")
  case True
  with assms queueInLoop_kernel [of "Sys l" "thread_id w" f w] show ?thesis by (auto simp: queue_at_def)
next
  case False
  with assms obtain e where "w' = w\<lparr>other_loops := (other_loops w)(l \<mapsto> queueInLoop (Sys l) (thread_id w) f (e\<lparr>kernel := kernel w\<rparr>)),
      kernel := kernel (queueInLoop (Sys l) (thread_id w) f (e\<lparr>kernel := kernel w\<rparr>))\<rparr>"
    by (auto simp: queue_at_def Let_def split: option.splits)
  with queueInLoop_kernel [of "Sys l" "thread_id w" f "e\<lparr>kernel := kernel w\<rparr>"] show ?thesis by auto
qed

lemma queue_at_loop:
  assumes q: "queue_at Sys l f w = Inr w'" and e: "loop_at m w = Some e"
  shows "\<exists>e'. loop_at m w' = Some e' \<and> channels e' = channels e \<and> channel_heap e' = channel_heap e \<and>
    thread_id e' = thread_id e \<and> pendingFunctors e' = pendingFunctors e @ (if m = l then [f] else [])"
proof (cases "l = this_loop w")
  case True
  with q have w': "w' = queueInLoop (Sys l) (thread_id w) f w" by (simp add: queue_at_def)
  show ?thesis
  proof (cases "m = l")
    case True
    with \<open>l = this_loop w\<close> e show ?thesis by (intro exI [of _ "event_loop.truncate w'"]) (auto simp: w' loop_at_def)
  next
    case False
    with True e show ?thesis by (auto simp: w' loop_at_def)
  qed
next
  case False
  with q obtain o1 where o1: "other_loops w l = Some o1" by (auto simp: queue_at_def split: option.splits)
  define e1 where "e1 = queueInLoop (Sys l) (thread_id w) f (o1\<lparr>kernel := kernel w\<rparr>)"
  from q False o1 have w': "w' = w\<lparr>other_loops := (other_loops w)(l \<mapsto> e1), kernel := kernel e1\<rparr>"
    by (simp add: queue_at_def Let_def e1_def)
  show ?thesis
  proof (cases "m = l")
    case True
    with False e o1 show ?thesis by (auto simp: w' loop_at_def e1_def)
  next
    case False
    with e show ?thesis by (auto simp: w' loop_at_def split: if_splits)
  qed
qed

lemma queue_at_pending:
  assumes "queue_at Sys l f w = Inr w'"
  shows "pending_at m w' = pending_at m w @ (if m = l then [f] else [])"
proof (cases "loop_at m w")
  case (Some e)
  with queue_at_loop [OF assms Some] show ?thesis by (auto simp: pending_at_def)
next
  case None
  with assms have "loop_at m w' = None \<and> m \<noteq> l"
    by (auto simp: queue_at_def loop_at_def Let_def split: if_splits option.splits)
  with None show ?thesis by (simp add: pending_at_def)
qed

lemma switch_to_total: "loop_at l w \<noteq> None \<Longrightarrow> \<exists>w'. switch_to l w = Inr w'"
  by (auto simp: switch_to_def loop_at_def split: if_splits)

lemma switch_to_frame:
  assumes "switch_to l w = Inr w'" and "process_ok w"
  shows "server w' = server w" "conns w' = conns w" "kernel w' = kernel w" "this_loop w' = l" "process_ok w'"
    "loop_at m w' = loop_at m w" "Some (event_loop.truncate w') = loop_at l w"
  using assms
  by (auto simp: switch_to_def loop_at_def process_ok_def split: if_splits option.splits)

section \<open>New connections\<close>

definition fresh_buffer :: buffer where
  "fresh_buffer = (case Buffer_new kInitialSize of Inr b \<Rightarrow> b)"

lemma fresh_buffer: "Buffer_new kInitialSize = Inr fresh_buffer \<and> buf_inv fresh_buffer \<and> contents fresh_buffer = []"
  using Buffer_new_ok [of kInitialSize]
  by (force simp: fresh_buffer_def kInitialSize_def kCheapPrepend_def vec_max_size_def)

definition new_channel :: "ptr \<Rightarrow> ptr \<Rightarrow> int \<Rightarrow> 'x channel_cb channel" where
  "new_channel loop p fd = (Channel_new loop fd)
     \<lparr>close_callback := Some (ConnClose p), error_callback := Some (ConnError p),
      read_callback := Some (ConnRead p), write_callback := Some (ConnWrite p)\<rparr>"

definition new_conn :: "ptr \<Rightarrow> ptr \<Rightarrow> string \<Rightarrow> int \<Rightarrow> 'a \<Rightarrow> 'a \<Rightarrow> ('u, 'a) connection" where
  "new_conn loop ch name fd laddr paddr =
     \<lparr>state = kConnecting, reading = False, conn_loop = loop, socket_fd = fd, conn_channel = ch,
      local_addr = laddr, peer_addr = paddr, input_buffer = fresh_buffer, output_buffer = fresh_buffer,
      high_water_mark = DefaultWaterMark, connection_callback = None, conn_close_callback = None,
      write_complete_callback = None, high_water_mark_callback = None, message_callback = None,
      conn_name = name, sending_file = False, fd_to_send = 0, fd_offset = 0, file_count = 0\<rparr>"

lemma TcpConnection_new_eq:
  "TcpConnection_new S loop p ch name fd laddr paddr DefaultWaterMark w =
     Inr (w\<lparr>channel_heap := (channel_heap w)(ch \<mapsto> new_channel loop p fd),
            conns := (conns w)(p \<mapsto> new_conn loop ch name fd laddr paddr),
            kernel := sock_keepalive S (kernel w) fd True\<rparr>)"
  using fresh_buffer
  by (cases w) (simp add: TcpConnection_new_def Let_def conn_set_def ch_set_def new_channel_def new_conn_def)

text \<open>Work done for another loop reaches that loop, the connections and the kernel, and nothing else.\<close>

lemma with_loop_frame:
  assumes ok: "process_ok w" and l: "loop_at l w = Some e"
    and f: "\<And>w1. this_loop w1 = l \<Longrightarrow> f w1 = Inr (g w1) \<and> this_loop (g w1) = l \<and> other_loops (g w1) = other_loops w1 \<and>
      server (g w1) = server w1"
  obtains w1 w' where "with_loop l f w = Inr w'" "process_ok w'" "server w' = server w" "this_loop w' = this_loop w"
    "event_loop.truncate w1 = e" "kernel w1 = kernel w" "conns w1 = conns w" "conns w' = conns (g w1)" "kernel w' = kernel (g w1)"
    "loop_at l w' = Some (event_loop.truncate (g w1))"
    "\<And>m. m \<noteq> l \<Longrightarrow> loop_at m w' = map_option (\<lambda>e. e\<lparr>kernel := kernel w'\<rparr>) (loop_at m w)"
proof -
  from l obtain w1 where w1: "switch_to l w = Inr w1" using switch_to_total [of l w] by auto
  note fr1 = switch_to_frame [OF w1 ok]
  note g = f [OF fr1(4)]
  have ok2: "process_ok (g w1)" using fr1(4,5) g by (simp add: process_ok_def)
  have keep: "loop_at m (g w1) = map_option (\<lambda>e. e\<lparr>kernel := kernel (g w1)\<rparr>) (loop_at m w1)" if "m \<noteq> l" for m
    using that fr1(4) g by (simp add: loop_at_def option.map_comp comp_def)
  have "loop_at (this_loop w) w1 \<noteq> None" using fr1(6) by (simp add: loop_at_def)
  then have "loop_at (this_loop w) (g w1) \<noteq> None"
    using keep [of "this_loop w"] g fr1(4) by (cases "this_loop w = l") (auto simp: loop_at_def)
  then obtain w' where w': "switch_to (this_loop w) (g w1) = Inr w'" using switch_to_total by blast
  note fr2 = switch_to_frame [OF w' ok2]
  show thesis
  proof (rule that)
    show "with_loop l f w = Inr w'" using w1 g w' by (simp add: with_loop_def)
    show "event_loop.truncate w1 = e" using fr1(7) l by simp
    show "loop_at l w' = Some (event_loop.truncate (g w1))" using fr2(6) g by (simp add: loop_at_def)
    show "loop_at m w' = map_option (\<lambda>e. e\<lparr>kernel := kernel w'\<rparr>) (loop_at m w)" if "m \<noteq> l" for m
      using fr2(3,6) keep [OF that] fr1(6) by simp
  qed (use fr1 fr2 g in simp_all)
qed

text \<open>Constructing a connection in another loop.\<close>

lemma construct_stage:
  fixes w :: "('v, 'k) process"
  assumes ok: "process_ok w" and l: "loop_at l w = Some e"
  obtains w' e' where "with_loop l (TcpConnection_new (Sys l) l p ch name fd laddr peer DefaultWaterMark) w = Inr w'"
    "process_ok w'" "server w' = server w" "this_loop w' = this_loop w"
    "conns w' = (conns w)(p \<mapsto> new_conn l ch name fd laddr peer)" "kernel w' = sock_keepalive (Sys l) (kernel w) fd True"
    "loop_at l w' = Some e'" "channels e' = channels e" "channel_heap e' = (channel_heap e)(ch \<mapsto> new_channel l p fd)"
    "thread_id e' = thread_id e" "pendingFunctors e' = pendingFunctors e"
    "\<And>m. m \<noteq> l \<Longrightarrow> loop_at m w' = map_option (\<lambda>e. e\<lparr>kernel := kernel w'\<rparr>) (loop_at m w)"
proof -
  define g where "g = (\<lambda>w :: ('v, 'k) process. w\<lparr>channel_heap := (channel_heap w)(ch \<mapsto> new_channel l p fd),
      conns := (conns w)(p \<mapsto> new_conn l ch name fd laddr peer), kernel := sock_keepalive (Sys l) (kernel w) fd True\<rparr>)"
  let ?f = "TcpConnection_new (Sys l) l p ch name fd laddr peer DefaultWaterMark :: ('v, 'k) process \<Rightarrow> _"
  have "this_loop u = l \<Longrightarrow> ?f u = Inr (g u) \<and> this_loop (g u) = l \<and> other_loops (g u) = other_loops u \<and>
      server (g u) = server u" for u
    by (simp add: g_def TcpConnection_new_eq)
  from with_loop_frame [OF ok l this] obtain u w' where
    w': "with_loop l ?f w = Inr w'" "process_ok w'" "server w' = server w" "this_loop w' = this_loop w"
      "event_loop.truncate u = e" "kernel u = kernel w" "conns u = conns w" "conns w' = conns (g u)"
      "kernel w' = kernel (g u)" "loop_at l w' = Some (event_loop.truncate (g u))"
      "\<And>m. m \<noteq> l \<Longrightarrow> loop_at m w' = map_option (\<lambda>e. e\<lparr>kernel := kernel w'\<rparr>) (loop_at m w)" by metis
  have "channels u = channels e" "channel_heap u = channel_heap e" "thread_id u = thread_id e" "pendingFunctors u = pendingFunctors e"
    using arg_cong [OF w'(5), of channels] arg_cong [OF w'(5), of channel_heap] arg_cong [OF w'(5), of thread_id]
      arg_cong [OF w'(5), of pendingFunctors] by simp_all
  then show thesis by (intro that [OF w'(1-4) _ _ w'(10) _ _ _ _ w'(11)]) (simp_all add: w'(6-9) g_def)
qed

text \<open>The connection \<open>newConnection\<close> puts into the table, and what it does to the process.\<close>

definition accepted_conn :: "'v tcp_server \<Rightarrow> ptr \<Rightarrow> ptr \<Rightarrow> int \<Rightarrow> InetAddress \<Rightarrow> InetAddress \<Rightarrow>
    ('v server_cb, InetAddress) connection" where
  "accepted_conn srv l ch fd laddr peer =
     (new_conn l ch (connection_name srv (next_conn_id srv)) fd laddr peer)
       \<lparr>conn_close_callback := Some RemoveConnection,
        connection_callback := map_option UserCb (srv_connection_callback srv),
        message_callback := map_option UserCb (srv_message_callback srv),
        write_complete_callback := map_option UserCb (srv_write_complete_callback srv)\<rparr>"

definition accepted_server :: "'v tcp_server \<Rightarrow> thread_pool \<Rightarrow> ptr \<Rightarrow> 'v tcp_server" where
  "accepted_server srv P p = srv\<lparr>pool := P, next_conn_id := next_conn_id srv + 1,
     connection_map := (connection_map srv)(connection_name srv (next_conn_id srv) \<mapsto> p)\<rparr>"

lemma newConnection_ok:
  fixes w :: "('v, 'k) process"
  assumes ok: "process_ok w" and i: "next_conn_id (server w) < 2147483647"
    and nx: "getNextLoop (pool (server w)) = Inr (l, P)" and l: "loop_at l w = Some e"
  obtains w' laddr e' k where "newConnection Sys p ch fd peer w = Inr w'" "process_ok w'" "this_loop w' = this_loop w"
    "server w' = accepted_server (server w) P p"
    "conns w' = (conns w)(p \<mapsto> accepted_conn (server w) l ch fd laddr peer)"
    "loop_at l w' = Some e'" "channels e' = channels e" "thread_id e' = thread_id e"
    "channel_heap e' = (channel_heap e)(ch \<mapsto> new_channel l p fd)"
    "\<And>m. pending_at m w' = pending_at m w @ (if m = l then [ConnectionEstablished p] else [])"
    "k = sock_keepalive (Sys l) (snd (sock_name (Sys (this_loop w)) (kernel w) fd)) fd True"
    "kernel w' = k \<or> (\<exists>efd. kernel w' = snd (eventfd_write (Sys l) k efd))"
    "\<And>m em. loop_at m w = Some em \<Longrightarrow> \<exists>em'. loop_at m w' = Some em' \<and> thread_id em' = thread_id em"
proof -
  obtain r k0 where r: "sock_name (Sys (this_loop w)) (kernel w) fd = (r, k0)" by fastforce
  define laddr where "laddr = InetAddress_of (case r of SOk a \<Rightarrow> a | SErr _ \<Rightarrow> \<lparr>sin_family = 0, sin_port = 0, s_addr = 0\<rparr>)"
  define name where "name = connection_name (server w) (next_conn_id (server w))"
  define w1 where "w1 = upd_server (\<lambda>s. s\<lparr>pool := P, next_conn_id := next_conn_id (server w) + 1\<rparr>) (w\<lparr>kernel := k0\<rparr>)"
  have w1_sel: "process_ok w1" "this_loop w1 = this_loop w" "conns w1 = conns w" "kernel w1 = k0"
    "server w1 = (server w)\<lparr>pool := P, next_conn_id := next_conn_id (server w) + 1\<rparr>"
    using ok by (simp_all add: w1_def upd_server_def process_ok_def)
  have w1_loop: "loop_at m w1 = map_option (\<lambda>e. e\<lparr>kernel := k0\<rparr>) (loop_at m w)" for m
    by (simp add: w1_def upd_server_def loop_at_def event_loop.truncate_def option.map_comp comp_def)
  with l have l1: "loop_at l w1 = Some (e\<lparr>kernel := k0\<rparr>)" by simp
  obtain w2 e2 where
    w2: "with_loop l (TcpConnection_new (Sys l) l p ch name fd laddr peer DefaultWaterMark) w1 = Inr w2" "process_ok w2"
      "server w2 = server w1" "this_loop w2 = this_loop w1" "conns w2 = (conns w1)(p \<mapsto> new_conn l ch name fd laddr peer)"
      "kernel w2 = sock_keepalive (Sys l) (kernel w1) fd True" "loop_at l w2 = Some e2" and
    e2: "channels e2 = channels e" "channel_heap e2 = (channel_heap e)(ch \<mapsto> new_channel l p fd)" "thread_id e2 = thread_id e"
      "pendingFunctors e2 = pendingFunctors e" and
    other: "\<And>m. m \<noteq> l \<Longrightarrow> loop_at m w2 = map_option (\<lambda>e. e\<lparr>kernel := kernel w2\<rparr>) (loop_at m w1)"
    by (rule construct_stage [OF w1_sel(1) l1, of Sys p ch name fd laddr peer]) auto
  define w3 where "w3 = upd_server (\<lambda>s. s\<lparr>connection_map := (connection_map s)(name \<mapsto> p)\<rparr>)
    (conn_set p (accepted_conn (server w) l ch fd laddr peer) w2)"
  have w3_loop: "loop_at m w3 = loop_at m w2" for m
    by (simp add: w3_def upd_server_def loop_at_def conn_set_def event_loop.truncate_def)
  have w3_sel: "process_ok w3" "this_loop w3 = this_loop w" "kernel w3 = kernel w2" "server w3 = accepted_server (server w) P p"
    "conns w3 = (conns w)(p \<mapsto> accepted_conn (server w) l ch fd laddr peer)"
    using w2(2-5) w1_sel by (simp_all add: w3_def upd_server_def conn_set_def process_ok_def accepted_server_def name_def)
  have "newConnection Sys p ch fd peer w = queue_at Sys l (ConnectionEstablished p) w3"
    using nx i r w2(1,3,5) w1_sel
    by (simp add: newConnection_def Let_def guard_r_def laddr_def [symmetric] name_def [symmetric] w1_def [symmetric]
        conn_deref_def w3_def accepted_conn_def new_conn_def setCloseCallback_def
        setConnecitonCallback_def setMessageCallback_def setWriteCompleteCallback_def)
  moreover obtain w' where w': "queue_at Sys l (ConnectionEstablished p) w3 = Inr w'"
    using queue_at_total [of l w3] w3_loop [of l] w2(7) by auto
  ultimately have run: "newConnection Sys p ch fd peer w = Inr w'" by simp
  note fr = queue_at_frame [OF w']
  from queue_at_loop [OF w' w3_loop [of l, unfolded w2(7)]] obtain e' where
    e': "loop_at l w' = Some e'" "channels e' = channels e2" "channel_heap e' = channel_heap e2" "thread_id e' = thread_id e2" by auto
  have pend: "pending_at m w3 = pending_at m w" for m
    using w2(7) other w3_loop [of m] w1_loop [of m] e2 l
    by (cases "m = l") (simp_all add: pending_at_def split: option.split)
  have keep: "\<exists>em'. loop_at m w' = Some em' \<and> thread_id em' = thread_id em" if "loop_at m w = Some em" for m em
  proof -
    from that e2 l w2(7) other w1_loop [of m] obtain e3 where "loop_at m w3 = Some e3" "thread_id e3 = thread_id em"
      by (cases "m = l") (auto simp: w3_loop)
    with queue_at_loop [OF w' this(1)] show ?thesis by auto
  qed
  show thesis
  proof (rule that [OF run _ _ _ _ e'(1) _ _ _ _ _ _ keep])
    show "kernel w' = kernel w2 \<or> (\<exists>efd. kernel w' = snd (eventfd_write (Sys l) (kernel w2) efd))"
      using queue_at_kernel [OF w'] w3_sel(3) by simp
    show "kernel w2 = sock_keepalive (Sys l) (snd (sock_name (Sys (this_loop w)) (kernel w) fd)) fd True"
      using w2(6) w1_sel r by simp
    show "pending_at m w' = pending_at m w @ (if m = l then [ConnectionEstablished p] else [])" for m
      using queue_at_pending [OF w', of m] pend by simp
    show "conns w' = (conns w)(p \<mapsto> accepted_conn (server w) l ch fd laddr peer)" using fr(2) w3_sel(5) by simp
  qed (use fr w3_sel e' e2 in simp_all)
qed

section \<open>The table of connections\<close>

lemma connection_name_text:
  assumes "length (ip_port s) \<le> 21" and "1 \<le> i" and "i \<le> 2147483647"
  shows "connection_name s i = srv_name s @ CHR ''-'' # ip_port s @ CHR ''#'' # dec (nat i)"
proof -
  have "length (dec (nat i)) \<le> 10" using assms by (intro length_dec) simp_all
  with assms show ?thesis by (simp add: connection_name_def dec_int_def)
qed

lemma connection_name_inject:
  assumes "length (ip_port s) \<le> 21" and "1 \<le> i" "i \<le> 2147483647" and "1 \<le> j" "j \<le> 2147483647"
  shows "connection_name s i = connection_name s j \<longleftrightarrow> i = j"
  using assms by (auto simp: connection_name_text)

definition table_ok :: "('v, 'k) process \<Rightarrow> bool" where
  "table_ok w \<longleftrightarrow> process_ok w \<and> length (ip_port (server w)) \<le> 21 \<and>
     1 \<le> next_conn_id (server w) \<and> next_conn_id (server w) \<le> 2147483647 \<and>
     (\<forall>n p. connection_map (server w) n = Some p \<longrightarrow>
        (\<exists>c i. conns w p = Some c \<and> conn_name c = n \<and> 1 \<le> i \<and> i < next_conn_id (server w) \<and>
           n = connection_name (server w) i))"

lemma table_entry:
  assumes "table_ok w" and "connection_map (server w) n = Some p"
  obtains c i where "conns w p = Some c" "conn_name c = n" "1 \<le> i" "i < next_conn_id (server w)" "n = connection_name (server w) i"
  using assms unfolding table_ok_def by blast

text \<open>
  Everything else the process does between two changes of the table: the server's name, address,
  counter and table stay as they are, and the connections of the table, which it owns, stay
  alive and keep their names.
\<close>

definition table_kept :: "('v, 'k) process \<Rightarrow> ('v, 'k) process \<Rightarrow> bool" where
  "table_kept w w' \<longleftrightarrow> process_ok w' \<and> ip_port (server w') = ip_port (server w) \<and> srv_name (server w') = srv_name (server w) \<and>
     connection_map (server w') = connection_map (server w) \<and> next_conn_id (server w') = next_conn_id (server w) \<and>
     (\<forall>p \<in> Map.ran (connection_map (server w)). \<forall>c. conns w p = Some c \<longrightarrow>
        (\<exists>c'. conns w' p = Some c' \<and> conn_name c' = conn_name c))"

inductive server_reach :: "(ptr \<Rightarrow> ('k, 'y) server_sys_scheme) \<Rightarrow> ('v, 'k) process \<Rightarrow> ('v, 'k) process \<Rightarrow> bool"
  for Sys w0 where
  start: "server_reach Sys w0 w0"
| accept: "server_reach Sys w0 w \<Longrightarrow> conns w p = None \<Longrightarrow> newConnection Sys p ch fd peer w = Inr w' \<Longrightarrow>
     server_reach Sys w0 w'"
| remove: "server_reach Sys w0 w \<Longrightarrow> removeConnectionInLoop Sys p w = Inr w' \<Longrightarrow> server_reach Sys w0 w'"
| other: "server_reach Sys w0 w \<Longrightarrow> table_kept w w' \<Longrightarrow> server_reach Sys w0 w'"

lemma newConnection_inv:
  assumes "newConnection Sys p ch fd peer w = Inr w'" and "process_ok w"
  obtains l P laddr where "getNextLoop (pool (server w)) = Inr (l, P)" "next_conn_id (server w) < 2147483647" "process_ok w'"
    "server w' = accepted_server (server w) P p" "conns w' = (conns w)(p \<mapsto> accepted_conn (server w) l ch fd laddr peer)"
proof -
  from assms(1) obtain l P where nx: "getNextLoop (pool (server w)) = Inr (l, P)" and i: "next_conn_id (server w) < 2147483647"
    by (auto simp: newConnection_def and_then_Inr_iff Let_def guard_r_def split: if_splits)
  have "loop_at l w \<noteq> None"
    using assms(1) nx
    by (auto simp: newConnection_def and_then_Inr_iff Let_def with_loop_def switch_to_def loop_at_def upd_server_def
        split: if_splits option.splits prod.splits)
  then obtain e where e: "loop_at l w = Some e" by blast
  from newConnection_ok [OF assms(2) i nx e, of Sys p ch fd peer] assms(1) that [OF nx i] show thesis by (metis Inr_inject)
qed

lemma accepted_server_sel [simp]:
  "ip_port (accepted_server s P p) = ip_port s" "srv_name (accepted_server s P p) = srv_name s"
  "next_conn_id (accepted_server s P p) = next_conn_id s + 1"
  "connection_map (accepted_server s P p) = (connection_map s)(connection_name s (next_conn_id s) \<mapsto> p)"
  "connection_name (accepted_server s P p) i = connection_name s i"
  by (simp_all add: accepted_server_def connection_name_def)

lemma connection_name_cong:
  "ip_port s' = ip_port s \<Longrightarrow> srv_name s' = srv_name s \<Longrightarrow> connection_name s' i = connection_name s i"
  by (simp add: connection_name_def)

lemma accepted_conn_name [simp]:
  "conn_name (accepted_conn s l ch fd laddr peer) = connection_name s (next_conn_id s)"
  by (simp add: accepted_conn_def new_conn_def)

lemma accept_table_ok:
  assumes ok: "table_ok w" and new: "conns w p = None" and run: "newConnection Sys p ch fd peer w = Inr w'"
  shows "table_ok w'"
proof -
  from ok have "process_ok w" by (simp add: table_ok_def)
  from newConnection_inv [OF run this] obtain l P laddr where i: "next_conn_id (server w) < 2147483647" "process_ok w'"
    and w': "server w' = accepted_server (server w) P p" "conns w' = (conns w)(p \<mapsto> accepted_conn (server w) l ch fd laddr peer)"
    by blast
  have "\<exists>c j. conns w' q = Some c \<and> conn_name c = n \<and> 1 \<le> j \<and> j < next_conn_id (server w) + 1 \<and> n = connection_name (server w) j"
    if "connection_map (server w') n = Some q" for n q
  proof (cases "n = connection_name (server w) (next_conn_id (server w))")
    case True
    with that w' ok show ?thesis by (auto simp: table_ok_def)
  next
    case False
    with that w' have "connection_map (server w) n = Some q" by simp
    from table_entry [OF ok this] obtain c j where "conns w q = Some c" "conn_name c = n" "1 \<le> j"
      "j < next_conn_id (server w)" "n = connection_name (server w) j" .
    with w' new show ?thesis by (intro exI [of _ c] exI [of _ j]) auto
  qed
  with i w' ok show ?thesis by (auto simp: table_ok_def)
qed

lemma remove_table_ok:
  assumes ok: "table_ok w" and run: "removeConnectionInLoop Sys p w = Inr w'"
  shows "table_ok w'"
proof -
  from run obtain c where c: "conns w p = Some c"
    and q: "queue_at Sys (conn_loop c) (ConnectionDestroyed p)
      (upd_server (\<lambda>s. s\<lparr>connection_map := (connection_map s)(conn_name c := None)\<rparr>) w) = Inr w'"
    by (auto simp: removeConnectionInLoop_def and_then_Inr_iff conn_deref_def split: option.splits)
  from queue_at_frame [OF q] ok show ?thesis
    by (auto simp: table_ok_def upd_server_def process_ok_def connection_name_def split: if_splits)
qed

lemma kept_table_ok:
  assumes "table_ok w" and "table_kept w w'"
  shows "table_ok w'"
proof -
  have "\<exists>c j. conns w' p = Some c \<and> conn_name c = n \<and> 1 \<le> j \<and> j < next_conn_id (server w) \<and> n = connection_name (server w) j"
    if "connection_map (server w) n = Some p" for n p
  proof -
    from table_entry [OF assms(1) that] obtain c j where cj: "conns w p = Some c" "conn_name c = n" "1 \<le> j"
      "j < next_conn_id (server w)" "n = connection_name (server w) j" .
    moreover from that have "p \<in> Map.ran (connection_map (server w))" by (rule ranI)
    ultimately show ?thesis using assms(2) by (fastforce simp: table_kept_def)
  qed
  with assms connection_name_cong [of "server w'" "server w"] show ?thesis by (auto simp: table_ok_def table_kept_def)
qed

lemma server_reach_ok: "server_reach Sys w0 w \<Longrightarrow> table_ok w0 \<Longrightarrow> table_ok w"
  by (induction rule: server_reach.induct) (auto intro: accept_table_ok remove_table_ok kept_table_ok)

lemma next_name_free:
  assumes "table_ok w"
  shows "connection_map (server w) (connection_name (server w) (next_conn_id (server w))) = None"
proof (rule ccontr)
  assume "\<not> ?thesis"
  with assms obtain j where "1 \<le> j" "j < next_conn_id (server w)"
    "connection_name (server w) (next_conn_id (server w)) = connection_name (server w) j"
    by (auto simp: table_ok_def)
  with connection_name_inject [of "server w" "next_conn_id (server w)" j] assms show False by (auto simp: table_ok_def)
qed


section \<open>Properties\<close>

text \<open>A server with one I/O loop, before its first connection.\<close>

definition sample_io_loop :: "(nat, sample_host) io_loop" where
  "sample_io_loop = \<lparr>channels = Map.empty, channel_heap = Map.empty,
     kernel = ((([], 0, 7), (\<lambda>_. []), {}), Map.empty, {}), looping = True,
     quit_flag = False, thread_id = 200, pollReturnTime = Timestamp 0, wakeup_fd = 4, wakeup_channel = 1,
     active_channels = [], pendingFunctors = [], calling_pending_functors = False\<rparr>"

definition sample_server :: "nat tcp_server" where
  "sample_server = \<lparr>srv_loop = 9, ip_port = ''127.0.0.1:8080'', srv_name = ''echo'',
     srv_acceptor = \<lparr>acc_loop = 9, accept_socket = 3, accept_channel = 2, listening = True, acc_callback = Some NewConnection\<rparr>,
     pool = \<lparr>base_loop = 9, pool_name = ''echo'', pool_started = True, next_index = 0, num_threads = 1,
             pool_threads = [''echo0''], pool_loops = [20]\<rparr>,
     connection_map = Map.empty, srv_connection_callback = Some 1, srv_write_complete_callback = None,
     srv_message_callback = Some 2, thread_init_callback = None, srv_num_threads = 1, srv_started = 1, next_conn_id = 1\<rparr>"

definition sample_process :: "(nat, sample_host) process" where
  "sample_process = \<lparr>channels = Map.empty, channel_heap = Map.empty,
     kernel = ((([], 0, 7), (\<lambda>_. []), {}), Map.empty, {}), looping = True,
     quit_flag = False, thread_id = 100, pollReturnTime = Timestamp 0, wakeup_fd = 5, wakeup_channel = 1,
     active_channels = [], pendingFunctors = [], calling_pending_functors = False, conns = Map.empty,
     this_loop = 9, other_loops = [20 \<mapsto> sample_io_loop], server = sample_server\<rparr>"

lemma sample_table_ok: "table_ok sample_process"
  by (simp add: table_ok_def process_ok_def sample_process_def sample_server_def)

lemma sample_accept:
  "next_conn_id (server sample_process) < 2147483647"
  "getNextLoop (pool (server sample_process)) = Inr (20, pool (server sample_process))"
  "loop_at 20 sample_process = Some sample_io_loop" "pending_at 20 sample_process = []" "pending_at 9 sample_process = []"
  by (simp_all add: sample_process_def sample_server_def getNextLoop_def c_rem_def pending_at_def loop_at_def sample_io_loop_def)

lemma sample_pool_ok: "pool_ok (pool (server sample_process))"
  "\<forall>l \<in> set (getAllLoops (pool (server sample_process))). loop_at l sample_process \<noteq> None"
  by (simp_all add: pool_ok_def getAllLoops_def loop_at_def sample_process_def sample_server_def)

text \<open>
  C11: the server's table of connections is consistent at all times.  Over every sequence of
  accepted and removed connections, interleaved with anything else the process does, each
  entry of the table is a live connection that bears the name it is entered under, a
  connection is entered under one name only, and the name of the next connection is free, so
  that no connection is ever overwritten.
\<close>

theorem connection_table:
  assumes "table_ok w0" and "server_reach Sys w0 w"
  shows "(\<forall>n p. connection_map (server w) n = Some p \<longrightarrow> (\<exists>c. conns w p = Some c \<and> conn_name c = n)) \<and>
    (\<forall>n n' p. connection_map (server w) n = Some p \<and> connection_map (server w) n' = Some p \<longrightarrow> n = n') \<and>
    connection_map (server w) (connection_name (server w) (next_conn_id (server w))) = None"
proof -
  have ok: "table_ok w" using assms server_reach_ok by blast
  then have "\<exists>c. conns w p = Some c \<and> conn_name c = n" if "connection_map (server w) n = Some p" for n p
    using table_entry [OF ok that] by metis
  with next_name_free [OF ok] show ?thesis by (metis option.inject)
qed

theorem connection_table_witness:
  "\<exists>w. newConnection (\<lambda>_. sample_server_sys) 30 31 6 (InetAddress_of sample_address) sample_process = Inr w \<and>
    (\<forall>n n' p. connection_map (server w) n = Some p \<and> connection_map (server w) n' = Some p \<longrightarrow> n = n') \<and>
    connection_map (server w) (connection_name (server w) (next_conn_id (server w))) = None"
proof -
  obtain w where w: "newConnection (\<lambda>_. sample_server_sys) 30 31 6 (InetAddress_of sample_address) sample_process = Inr w"
    using newConnection_ok [OF _ sample_accept(1-3)] sample_table_ok unfolding table_ok_def by metis
  have "conns sample_process 30 = None" by (simp add: sample_process_def)
  from connection_table [OF sample_table_ok server_reach.accept [OF server_reach.start this w]] w show ?thesis by blast
qed

text \<open>
  Accepting a connection.  As long as connection numbers last, \<open>newConnection\<close> succeeds: it
  takes the loop whose turn it is, enters a new connection in state \<open>kConnecting\<close>, bound to
  that loop and with the server's close callback, under a name that was free, and queues its
  establishment to that loop, once and behind what is queued there, and to no other loop.
\<close>

lemma newConnection_dispatch:
  assumes "table_ok w" and "pool_ok (pool (server w))" and "next_conn_id (server w) < 2147483647"
    and "\<forall>l \<in> set (getAllLoops (pool (server w))). loop_at l w \<noteq> None"
  shows "\<exists>l P w' c. getNextLoop (pool (server w)) = Inr (l, P) \<and> newConnection Sys p ch fd peer w = Inr w' \<and>
    conns w' = (conns w)(p \<mapsto> c) \<and> state c = kConnecting \<and> conn_loop c = l \<and> socket_fd c = fd \<and> peer_addr c = peer \<and>
    conn_close_callback c = Some RemoveConnection \<and>
    connection_map (server w) (conn_name c) = None \<and>
    connection_map (server w') = (connection_map (server w))(conn_name c \<mapsto> p) \<and>
    (\<forall>m. pending_at m w' = pending_at m w @ (if m = l then [ConnectionEstablished p] else []))"
proof -
  from assms(2) obtain l P where nx: "getNextLoop (pool (server w)) = Inr (l, P)" "l \<in> set (getAllLoops (pool (server w)))"
    by (rule pool.next_cases)
  with assms(4) obtain e where e: "loop_at l w = Some e" by blast
  have "process_ok w" using assms(1) by (simp add: table_ok_def)
  from newConnection_ok [OF this assms(3) nx(1) e, of Sys p ch fd peer] obtain w' laddr where
    "newConnection Sys p ch fd peer w = Inr w'" "server w' = accepted_server (server w) P p"
    "conns w' = (conns w)(p \<mapsto> accepted_conn (server w) l ch fd laddr peer)"
    "\<forall>m. pending_at m w' = pending_at m w @ (if m = l then [ConnectionEstablished p] else [])" by metis
  with nx(1) next_name_free [OF assms(1)] show ?thesis
    by (intro exI [of _ l] exI [of _ P] exI [of _ w'] exI [of _ "accepted_conn (server w) l ch fd laddr peer"])
       (simp add: accepted_conn_def new_conn_def)
qed

end
