(* ===== verification/Server_Lifecycle.thy ===== *)
theory Server_Lifecycle
  imports Server_Properties
begin

text \<open>
  The whole life of a connection, across loops: accepted in the base loop, established in its
  I/O loop, closed there when the peer goes, removed from the table in the base loop, and
  destroyed in the I/O loop again.  The composition of \<open>TcpServer\<close>, \<open>EventLoopThreadPool\<close>,
  \<open>EventLoop\<close>, \<open>EPollPoller\<close> and \<open>TcpConnection\<close>.
\<close>

section \<open>Moving between loops\<close>

text \<open>
  Every loop's epoll instance obeys its laws, and waking a loop, asking a socket for its name and
  setting its keep-alive option touch no interest list and no stream.
\<close>

definition fleet_laws :: "(ptr \<Rightarrow> ('k, 'y) server_sys_scheme) \<Rightarrow> (ptr \<Rightarrow> 'k net_view) \<Rightarrow> bool" where
  "fleet_laws Sys V \<longleftrightarrow>
     (\<forall>l. tcp_laws (Sys l) (V l)) \<and>
     (\<forall>l m k fd. io_same (V l) k (snd (eventfd_write (Sys m) k fd))) \<and>
     (\<forall>l m k fd. io_same (V l) k (snd (sock_name (Sys m) k fd))) \<and>
     (\<forall>l m k fd on. io_same (V l) k (sock_keepalive (Sys m) k fd on))"

lemmas fleet_tcp = fleet_laws_def [THEN iffD1, THEN conjunct1, rule_format]
lemmas fleet_eventfd = fleet_laws_def [THEN iffD1, THEN conjunct2, THEN conjunct1, rule_format]
lemmas fleet_name = fleet_laws_def [THEN iffD1, THEN conjunct2, THEN conjunct2, THEN conjunct1, rule_format]
lemmas fleet_keepalive = fleet_laws_def [THEN iffD1, THEN conjunct2, THEN conjunct2, THEN conjunct2, rule_format]

lemma io_same_trans: "io_same V a b \<Longrightarrow> io_same V b c \<Longrightarrow> io_same V a c"
  by (simp add: io_same_def)

text \<open>The loops keep their channels, the connections stay, and the kernel's lists too.\<close>

definition moved :: "(ptr \<Rightarrow> 'k net_view) \<Rightarrow> ('v, 'k) process \<Rightarrow> ('v, 'k) process \<Rightarrow> bool" where
  "moved V w w' \<longleftrightarrow> process_ok w' \<and> conns w' = conns w \<and> (\<forall>m. io_same (V m) (kernel w) (kernel w')) \<and>
     (\<forall>m e. loop_at m w = Some e \<longrightarrow> (\<exists>e'. loop_at m w' = Some e' \<and> channels e' = channels e \<and>
        channel_heap e' = channel_heap e \<and> thread_id e' = thread_id e))"

lemma movedD:
  assumes "moved V w w'"
  shows "process_ok w'" "conns w' = conns w" "io_same (V m) (kernel w) (kernel w')"
    "loop_at m w = Some e \<Longrightarrow> \<exists>e'. loop_at m w' = Some e' \<and> channels e' = channels e \<and>
       channel_heap e' = channel_heap e \<and> thread_id e' = thread_id e"
  using assms unfolding moved_def by blast+

lemma moved_trans:
  assumes "moved V a b" and "moved V b c"
  shows "moved V a c"
  unfolding moved_def
proof (intro conjI allI impI)
  show "io_same (V m) (kernel a) (kernel c)" for m
    using io_same_trans [OF movedD(3) [OF assms(1)] movedD(3) [OF assms(2)]] .
  show "\<exists>e'. loop_at m c = Some e' \<and> channels e' = channels e \<and> channel_heap e' = channel_heap e \<and> thread_id e' = thread_id e"
    if "loop_at m a = Some e" for m e
    using movedD(4) [OF assms(1) that] movedD(4) [OF assms(2)] by metis
qed (use movedD [OF assms(1)] movedD [OF assms(2)] in simp_all)

lemma moved_queue:
  assumes laws: "fleet_laws Sys V" and ok: "process_ok w" and q: "queue_at Sys l f w = Inr w'"
  shows "moved V w w'"
proof -
  have "io_same (V m) (kernel w) (kernel w')" for m
    using queue_at_kernel [OF q] fleet_eventfd [OF laws] by auto
  moreover have "\<exists>e'. loop_at m w' = Some e' \<and> channels e' = channels e \<and> channel_heap e' = channel_heap e \<and>
      thread_id e' = thread_id e" if "loop_at m w = Some e" for m e
    using queue_at_loop [OF q that] by auto
  ultimately show ?thesis using ok queue_at_frame [OF q] by (simp add: moved_def)
qed

lemma moved_switch:
  assumes "process_ok w" and "switch_to l w = Inr w'"
  shows "moved V w w'"
  using switch_to_frame [OF assms(2,1)] by (simp add: moved_def)

lemma loop_at_server [simp]: "loop_at m (upd_server f w) = loop_at m w"
  by (simp add: upd_server_def loop_at_def)

lemma upd_server_sel [simp]:
  "conns (upd_server f w) = conns w" "kernel (upd_server f w) = kernel w" "this_loop (upd_server f w) = this_loop w"
  "process_ok (upd_server f w) = process_ok w" "server (upd_server f w) = f (server w)"
  "pending_at m (upd_server f w) = pending_at m w"
  by (simp_all add: upd_server_def process_ok_def pending_at_def loop_at_def)

lemma moved_server: "process_ok w \<Longrightarrow> moved V w (upd_server f w)"
  unfolding moved_def by simp

lemma moved_loop: "moved V w w' \<Longrightarrow> loop_at m w = Some e \<Longrightarrow> \<exists>e'. loop_at m w' = Some e' \<and> thread_id e' = thread_id e"
  using movedD(4) by blast

lemma moved_focus:
  assumes "moved V w w'" and "this_loop w' = this_loop w"
  shows "channels w' = channels w" "channel_heap w' = channel_heap w" "thread_id w' = thread_id w" "conns w' = conns w"
    "io_same (V l) (kernel w) (kernel w')"
proof -
  have "loop_at (this_loop w) w = Some (event_loop.truncate w)" "loop_at (this_loop w) w' = Some (event_loop.truncate w')"
    using assms(2) by (simp_all add: loop_at_def)
  with assms(1) show "channels w' = channels w" "channel_heap w' = channel_heap w" "thread_id w' = thread_id w"
    "conns w' = conns w" "io_same (V l) (kernel w) (kernel w')"
    by (fastforce simp: moved_def)+
qed

text \<open>A registered connection stays registered when the work moves away and comes back.\<close>

lemma moved_registered:
  assumes "moved V w w'" and "this_loop w' = this_loop w"
    and "poller_inv (nv_interest (V l)) w" and "conn_chan_ok (V l) c ch w"
  shows "poller_inv (nv_interest (V l)) w' \<and> conn_chan_ok (V l) c ch w'"
proof -
  note f = moved_focus [OF assms(1,2)]
  have "poller_inv (nv_interest (V l)) w'"
    using f(1,2) f(5) [of l] by - (rule poller_inv_same [OF assms(3)], simp_all add: io_same_def)
  with f f(5) [of l] assms(4) show ?thesis by (simp add: conn_chan_ok_def io_same_def)
qed

section \<open>Closing\<close>

lemma world_only_process:
  fixes w :: "('v, 'k) process"
  assumes "world_only w w'"
  shows "this_loop w' = this_loop w" "other_loops w' = other_loops w" "server w' = server w" "thread_id w' = thread_id w"
    "pendingFunctors w' = pendingFunctors w"
proof -
  note eq = assms [unfolded world_only_def]
  show "this_loop w' = this_loop w" by (subst eq) simp
  show "other_loops w' = other_loops w" by (subst eq) simp
  show "server w' = server w" by (subst eq) simp
  show "thread_id w' = thread_id w" by (subst eq) simp
  show "pendingFunctors w' = pendingFunctors w" by (subst eq) simp
qed

abbreviation quiet_user :: "'v user_call \<Rightarrow> ('v, 'k) process \<Rightarrow> ('v, 'k) process_result" where
  "quiet_user \<equiv> \<lambda>_. Inr"

lemma quiet_connection_callback:
  assumes "conns w p = Some c" and "connection_callback c \<noteq> Some RemoveConnection"
  shows "call_if_set (server_user Sys quiet_user) connection_callback (\<lambda>u. UserCall u p) p w = Inr w"
proof (cases "connection_callback c")
  case (Some u)
  with assms show ?thesis by (cases u) (simp_all add: call_if_set_def conn_deref_Some)
qed (simp add: call_if_set_def conn_deref_Some [OF assms(1)])

text \<open>A connection the server manages, running in its own loop.\<close>

definition managed :: "(ptr \<Rightarrow> 'k net_view) \<Rightarrow> ptr \<Rightarrow> ptr \<Rightarrow> ('v server_cb, InetAddress) connection \<Rightarrow>
    'v server_closure channel_cb channel \<Rightarrow> ('v, 'k) process \<Rightarrow> bool" where
  "managed V l p c ch w \<longleftrightarrow> process_ok w \<and> this_loop w = l \<and> conns w p = Some c \<and> conn_loop c = l \<and>
     conn_close_callback c = Some RemoveConnection \<and> connection_callback c \<noteq> Some RemoveConnection \<and>
     poller_inv (nv_interest (V l)) w \<and> conn_chan_ok (V l) c ch w"

lemma handleClose_managed:
  assumes laws: "fleet_laws Sys V" and m: "managed V l p c ch w"
  shows "\<exists>w2 ch2. handleClose (Sys l) (server_user Sys quiet_user) p w = removeConnection Sys p w2 \<and>
    managed V l p (c\<lparr>state := kDisConnected\<rparr>) ch2 w2 \<and> server w2 = server w \<and> other_loops w2 = other_loops w \<and>
    thread_id w2 = thread_id w \<and> (\<forall>m. pending_at m w2 = pending_at m w)"
proof -
  let ?U = "server_user Sys quiet_user" and ?c = "c\<lparr>state := kDisConnected\<rparr>"
  from m have w: "poller_inv (nv_interest (V l)) w" "conns w p = Some c" "conn_chan_ok (V l) c ch w"
    by (auto simp: managed_def)
  from closing_steps [OF fleet_tcp [OF laws] w] obtain w2 ch2 where
    w2: "and_then (setState p kDisConnected w) (disableAll (Sys l) (conn_channel c)) = Inr w2"
      "poller_inv (nv_interest (V l)) w2" "conns w2 = (conns w)(p \<mapsto> ?c)" "conn_chan_ok (V l) c ch2 w2" "world_only w w2"
    by blast
  have "call_if_set ?U connection_callback (\<lambda>u. UserCall u p) p w2 = Inr w2"
    using w2(3) m by (intro quiet_connection_callback [of _ _ ?c]) (simp_all add: managed_def)
  with w2(1) w(2) have "handleClose (Sys l) ?U p w = call_if_set ?U conn_close_callback (\<lambda>u. UserCall u p) p w2"
    by (simp add: handleClose_def conn_deref_Some setState_ok)
  also have "\<dots> = removeConnection Sys p w2"
    using w2(3) m by (simp add: call_if_set_def conn_deref_Some managed_def)
  finally have run: "handleClose (Sys l) ?U p w = removeConnection Sys p w2" .
  note fr = world_only_process [OF w2(5)]
  have "managed V l p ?c ch2 w2"
    using m fr w2(2-4) by (auto simp: managed_def process_ok_def conn_chan_ok_def)
  moreover have "pending_at q w2 = pending_at q w" for q
    using fr by (simp add: pending_at_def loop_at_def split: option.split)
  ultimately show ?thesis using run fr by blast
qed

section \<open>Removing and destroying\<close>

lemma removeConnectionInLoop_ok:
  assumes laws: "fleet_laws Sys V" and ok: "process_ok w" and c: "conns w p = Some c" and l: "loop_at (conn_loop c) w = Some e"
  shows "\<exists>w'. removeConnectionInLoop Sys p w = Inr w' \<and> moved V w w' \<and> this_loop w' = this_loop w \<and>
    connection_map (server w') = (connection_map (server w))(conn_name c := None) \<and>
    (\<forall>m. pending_at m w' = pending_at m w @ (if m = conn_loop c then [ConnectionDestroyed p] else []))"
proof -
  let ?w = "upd_server (\<lambda>s. s\<lparr>connection_map := (connection_map s)(conn_name c := None)\<rparr>) w"
  from queue_at_total [of "conn_loop c" ?w] l obtain w' where
    q: "queue_at Sys (conn_loop c) (ConnectionDestroyed p) ?w = Inr w'" by auto
  have "moved V w w'"
    using moved_trans [OF moved_server [OF ok] moved_queue [OF laws _ q]] ok by simp
  with q c queue_at_frame [OF q] queue_at_pending [OF q] show ?thesis
    by (simp add: removeConnectionInLoop_def conn_deref_Some)
qed

lemma remove_stage:
  assumes laws: "fleet_laws Sys V" and m: "managed V l p c ch w" and base: "srv_loop (server w) = base"
    and eb: "loop_at base w = Some eb" and tid: "l \<noteq> base \<longrightarrow> thread_id eb \<noteq> thread_id w"
  shows "\<exists>w4 w6. removeConnection Sys p w = Inr w4 \<and>
    (if l = base then w6 = w4
     else pending_at base w4 = pending_at base w @ [OtherFunctor (RemoveConnectionInLoop p)] \<and>
       and_then (switch_to base w4) (server_functor Sys quiet_user code (OtherFunctor (RemoveConnectionInLoop p))) = Inr w6) \<and>
    moved V w w6 \<and> connection_map (server w6) = (connection_map (server w))(conn_name c := None) \<and>
    pending_at l w6 = pending_at l w @ [ConnectionDestroyed p]"
proof -
  from m have w: "process_ok w" "this_loop w = l" "conns w p = Some c" "conn_loop c = l" by (auto simp: managed_def)
  have l: "loop_at l w = Some (event_loop.truncate w)" using w(2) by (simp add: loop_at_def)
  show ?thesis
  proof (cases "l = base")
    case True
    from removeConnectionInLoop_ok [OF laws w(1,3), of "event_loop.truncate w"] l w(4) obtain w' where
      "removeConnectionInLoop Sys p w = Inr w'" "moved V w w'"
      "connection_map (server w') = (connection_map (server w))(conn_name c := None)"
      "pending_at l w' = pending_at l w @ [ConnectionDestroyed p]" by auto
    with True w base show ?thesis
      by (intro exI [of _ w'] exI [of _ w']) (simp add: removeConnection_def run_at_def)
  next
    case False
    let ?f = "OtherFunctor (RemoveConnectionInLoop p)"
    from queue_at_total [of base w] eb obtain w4 where q: "queue_at Sys base ?f w = Inr w4" by auto
    from eb False w(2) obtain o1 where "other_loops w base = Some o1" "thread_id o1 = thread_id eb"
      by (auto simp: loop_at_def)
    with tid False q w(2) base have run: "removeConnection Sys p w = Inr w4"
      by (simp add: removeConnection_def run_at_def isInLoopThread_def)
    have mv4: "moved V w w4" by (rule moved_queue [OF laws w(1) q])
    from switch_to_total [of base w4] moved_loop [OF mv4 eb] obtain w5 where w5: "switch_to base w4 = Inr w5" by auto
    note fr5 = switch_to_frame [OF w5 movedD(1) [OF mv4]]
    have mv5: "moved V w w5" by (rule moved_trans [OF mv4 moved_switch [OF movedD(1) [OF mv4] w5]])
    have c5: "conns w5 p = Some c" using movedD(2) [OF mv5] w(3) by simp
    from moved_loop [OF mv5 l] w(4) obtain e5 where e5: "loop_at (conn_loop c) w5 = Some e5" by auto
    from removeConnectionInLoop_ok [OF laws movedD(1) [OF mv5] c5 e5] obtain w6 where
      w6: "removeConnectionInLoop Sys p w5 = Inr w6" "moved V w5 w6"
        "connection_map (server w6) = (connection_map (server w5))(conn_name c := None)"
        "pending_at l w6 = pending_at l w5 @ [ConnectionDestroyed p]" using w(4) by auto
    have "pending_at l w5 = pending_at l w"
      using fr5(6) [of l] queue_at_pending [OF q, of l] False by (simp add: pending_at_def)
    with w6 fr5 queue_at_frame [OF q] queue_at_pending [OF q, of base] run w5 False moved_trans [OF mv5 w6(2)] show ?thesis
      by (intro exI [of _ w4] exI [of _ w6]) (simp add: server_functor_def)
  qed
qed

lemma destroy_stage:
  assumes laws: "fleet_laws Sys V" and m: "managed V l p c ch w" and st: "state c = kDisConnected"
    and mv: "moved V w w6"
  shows "\<exists>w7 w8. switch_to l w6 = Inr w7 \<and> server_functor Sys quiet_user code (ConnectionDestroyed p) w7 = Inr w8 \<and>
    conns w8 p = Some c \<and> hasChannel (conn_channel c) w8 = Inr False \<and> poller_inv (nv_interest (V l)) w8 \<and>
    nv_interest (V l) (kernel w8) (socket_fd c) = None \<and> server w8 = server w6"
proof -
  from m have w: "this_loop w = l" "conns w p = Some c" "poller_inv (nv_interest (V l)) w" "conn_chan_ok (V l) c ch w"
    by (auto simp: managed_def)
  have "loop_at l w = Some (event_loop.truncate w)" using w(1) by (simp add: loop_at_def)
  from switch_to_total [of l w6] moved_loop [OF mv this] obtain w7 where w7: "switch_to l w6 = Inr w7" by auto
  note fr = switch_to_frame [OF w7 movedD(1) [OF mv]]
  have mv7: "moved V w w7" by (rule moved_trans [OF mv moved_switch [OF movedD(1) [OF mv] w7]])
  have reg: "poller_inv (nv_interest (V l)) w7" "conn_chan_ok (V l) c ch w7"
    using moved_registered [OF mv7 _ w(3,4)] fr(4) w(1) by auto
  from conn_unregister [OF fleet_tcp [OF laws] reg] obtain w8 where
    w8: "removeChannel (Sys l) (conn_channel c) w7 = Inr w8" "poller_inv (nv_interest (V l)) w8" "poller_only w7 w8"
      "conns w8 = conns w7" "hasChannel (conn_channel c) w8 = Inr False" "nv_interest (V l) (kernel w8) (socket_fd c) = None"
    by blast
  have c7: "conns w7 p = Some c" using movedD(2) [OF mv7] w(2) by simp
  have "server w8 = server w7" by (subst w8(3) [unfolded poller_only_def]) simp
  moreover have "server_functor Sys quiet_user code (ConnectionDestroyed p) w7 = Inr w8"
    using c7 st w8(1) fr(4) by (simp add: server_functor_def connectionDestroyed_def conn_deref_Some)
  ultimately show ?thesis using w7 w8 c7 fr(1) by auto
qed

section \<open>Establishing\<close>

text \<open>The new connection as its loop finds it.\<close>

lemma accept_stage:
  fixes w :: "('v, 'k) process"
  assumes laws: "fleet_laws Sys V" and ok: "process_ok w" and i: "next_conn_id (server w) < 2147483647"
    and nx: "getNextLoop (pool (server w)) = Inr (l, P)" and e: "loop_at l w = Some e"
    and inv: "poller_inv (nv_interest (V l)) e" and new: "channel_heap e ch = None" "channels e fd = None"
  obtains w1 w2 c where "newConnection Sys p ch fd peer w = Inr w1" "switch_to l w1 = Inr w2" "process_ok w2" "this_loop w2 = l"
    "server w2 = accepted_server (server w) P p" "io_same (V l) (kernel w) (kernel w2)"
    "poller_inv (nv_interest (V l)) w2" "channel_heap w2 ch = Some (new_channel l p fd)" "channels w2 fd = None"
    "conns w2 p = Some c" "conn_channel c = ch" "socket_fd c = fd" "conn_loop c = l" "conn_close_callback c = Some RemoveConnection"
    "conn_name c = connection_name (server w) (next_conn_id (server w))" "connection_callback c \<noteq> Some RemoveConnection"
    "\<And>m em. loop_at m w = Some em \<Longrightarrow> \<exists>em'. loop_at m w2 = Some em' \<and> thread_id em' = thread_id em"
proof -
  obtain w1 laddr e' k where w1: "newConnection Sys p ch fd peer w = Inr w1" "process_ok w1"
      "server w1 = accepted_server (server w) P p" "conns w1 = (conns w)(p \<mapsto> accepted_conn (server w) l ch fd laddr peer)"
      "loop_at l w1 = Some e'" "channels e' = channels e" "thread_id e' = thread_id e"
      "channel_heap e' = (channel_heap e)(ch \<mapsto> new_channel l p fd)"
      "k = sock_keepalive (Sys l) (snd (sock_name (Sys (this_loop w)) (kernel w) fd)) fd True"
      "kernel w1 = k \<or> (\<exists>efd. kernel w1 = snd (eventfd_write (Sys l) k efd))"
      "\<forall>m em. loop_at m w = Some em \<longrightarrow> (\<exists>em'. loop_at m w1 = Some em' \<and> thread_id em' = thread_id em)"
    by (rule newConnection_ok [OF ok i nx e, of Sys p ch fd peer]) blast
  have io: "io_same (V l) (kernel w) (kernel w1)"
    using w1(9,10) fleet_name [OF laws] fleet_keepalive [OF laws] fleet_eventfd [OF laws] io_same_trans by metis
  from switch_to_total [of l w1] w1(5) obtain w2 where w2: "switch_to l w1 = Inr w2" by auto
  note fr = switch_to_frame [OF w2 w1(2)]
  have e': "event_loop.truncate w2 = e'" using fr(7) w1(5) by simp
  have foc: "channels w2 = channels e" "channel_heap w2 = (channel_heap e)(ch \<mapsto> new_channel l p fd)"
    using arg_cong [OF e', of channels] arg_cong [OF e', of channel_heap] w1(6,8) by simp_all
  have ek: "kernel e = kernel w" using e by (auto simp: loop_at_def split: if_splits)
  have "poller_inv (nv_interest (V l)) (ch_set ch (Channel_new l fd) e)" by (rule poller_inv_new_channel [OF inv new(1)])
  then have inv2: "poller_inv (nv_interest (V l)) w2"
    by (rule poller_inv_cong) (use foc fr(3) io ek in \<open>simp_all add: ch_set_def ch_core_def new_channel_def io_same_def\<close>)
  have c: "conns w2 p = Some (accepted_conn (server w) l ch fd laddr peer)" using fr(2) w1(4) by simp
  show thesis
    by (rule that [OF w1(1) w2 fr(5,4) _ _ inv2 _ _ c])
       (use w1(3,11) fr(1,3,6) foc new io in \<open>simp_all add: accepted_conn_def new_conn_def\<close>)
qed

lemma establish_stage:
  fixes w :: "('v, 'k) process"
  assumes laws: "fleet_laws Sys V" and ok: "process_ok w" and i: "next_conn_id (server w) < 2147483647"
    and nx: "getNextLoop (pool (server w)) = Inr (l, P)" and e: "loop_at l w = Some e"
    and inv: "poller_inv (nv_interest (V l)) e" and new: "channel_heap e ch = None" "channels e fd = None"
    and opn: "fd \<in> nv_opened (V l) (kernel w)"
  shows "\<exists>w1 w2 w3 c ch3. newConnection Sys p ch fd peer w = Inr w1 \<and> switch_to l w1 = Inr w2 \<and>
    server_functor Sys quiet_user code (ConnectionEstablished p) w2 = Inr w3 \<and>
    managed V l p c ch3 w3 \<and> state c = kConnected \<and> socket_fd c = fd \<and> conn_channel c = ch \<and>
    conn_name c = connection_name (server w) (next_conn_id (server w)) \<and>
    nv_interest (V l) (kernel w3) = (nv_interest (V l) (kernel w))(fd \<mapsto> (kReadEvent, ch)) \<and>
    server w3 = accepted_server (server w) P p \<and>
    (\<forall>m em. loop_at m w = Some em \<longrightarrow> (\<exists>em'. loop_at m w3 = Some em' \<and> thread_id em' = thread_id em))"
proof -
  let ?U = "server_user Sys quiet_user"
  obtain w1 w2 c where w1: "newConnection Sys p ch fd peer w = Inr w1" "switch_to l w1 = Inr w2" and
    w2: "process_ok w2" "this_loop w2 = l" "server w2 = accepted_server (server w) P p" "io_same (V l) (kernel w) (kernel w2)"
      "poller_inv (nv_interest (V l)) w2" "channel_heap w2 ch = Some (new_channel l p fd)" "channels w2 fd = None" and
    c: "conns w2 p = Some c" "conn_channel c = ch" "socket_fd c = fd" "conn_loop c = l" "conn_close_callback c = Some RemoveConnection"
      "conn_name c = connection_name (server w) (next_conn_id (server w))" "connection_callback c \<noteq> Some RemoveConnection" and
    keep: "\<And>m em. loop_at m w = Some em \<Longrightarrow> \<exists>em'. loop_at m w2 = Some em' \<and> thread_id em' = thread_id em"
    by (rule accept_stage [OF laws ok i nx e inv new, of p peer]) blast
  define n :: "'v server_closure channel_cb channel" where "n = new_channel l p fd"
  have chn: "channel_heap w2 (conn_channel c) = Some n" "ch_fd n = socket_fd c" "events n = 0"
    "socket_fd c \<in> nv_opened (V l) (kernel w2)" "channels w2 (socket_fd c) = None"
    using c w2 opn by (simp_all add: n_def new_channel_def Channel_new_def io_same_def)
  from established_watched [OF fleet_tcp [OF laws] w2(5) c(1) chn, of ?U] c obtain w3 ch3 where
    w3: "connectionEstablished (Sys l) ?U p w2 = call_if_set ?U connection_callback (\<lambda>u. UserCall u p) p w3"
      "poller_inv (nv_interest (V l)) w3" "conns w3 p = Some (c\<lparr>state := kConnected\<rparr>)"
      "nv_interest (V l) (kernel w3) = (nv_interest (V l) (kernel w2))(fd \<mapsto> (kReadEvent, ch))"
      "conn_chan_ok (V l) (c\<lparr>state := kConnected\<rparr>) ch3 w3" "world_only w2 w3" by auto
  note fr3 = world_only_process [OF w3(6)]
  have "server_functor Sys quiet_user code (ConnectionEstablished p) w2 = Inr w3"
    using w3(1) w2(2) quiet_connection_callback [OF w3(3)] c(7) by (simp add: server_functor_def)
  moreover have "managed V l p (c\<lparr>state := kConnected\<rparr>) ch3 w3"
    using w3 w2 fr3 c by (auto simp: managed_def process_ok_def)
  moreover have "\<exists>em'. loop_at m w3 = Some em' \<and> thread_id em' = thread_id em" if "loop_at m w = Some em" for m em
    using keep [OF that] fr3 by (auto simp: loop_at_def split: if_splits)
  ultimately show ?thesis
    using w1 w3(4) c w2(3,4) fr3(3)
    by (intro exI [of _ w1] exI [of _ w2] exI [of _ w3] exI [of _ "c\<lparr>state := kConnected\<rparr>"] exI [of _ ch3])
       (simp add: io_same_def)
qed

section \<open>Closing in stages\<close>

text \<open>From the closing of a managed connection to its destruction.\<close>

lemma closing_stages:
  assumes laws: "fleet_laws Sys V" and m: "managed V l p c ch w" and base: "srv_loop (server w) = base"
    and eb: "loop_at base w = Some eb" and tid: "l \<noteq> base \<longrightarrow> thread_id eb \<noteq> thread_id w"
  shows "\<exists>w4 w6 w7 w8. handleClose (Sys l) (server_user Sys quiet_user) p w = Inr w4 \<and>
    (if l = base then w6 = w4
     else pending_at base w4 = pending_at base w @ [OtherFunctor (RemoveConnectionInLoop p)] \<and>
       and_then (switch_to base w4) (server_functor Sys quiet_user code (OtherFunctor (RemoveConnectionInLoop p))) = Inr w6) \<and>
    pending_at l w6 = pending_at l w @ [ConnectionDestroyed p] \<and>
    switch_to l w6 = Inr w7 \<and> server_functor Sys quiet_user code (ConnectionDestroyed p) w7 = Inr w8 \<and>
    connection_map (server w8) = (connection_map (server w))(conn_name c := None) \<and>
    conns w8 p = Some (c\<lparr>state := kDisConnected\<rparr>) \<and> hasChannel (conn_channel c) w8 = Inr False \<and>
    nv_interest (V l) (kernel w8) (socket_fd c) = None"
proof -
  from handleClose_managed [OF laws m] obtain w2 ch2 where
    s2: "handleClose (Sys l) (server_user Sys quiet_user) p w = removeConnection Sys p w2"
      "managed V l p (c\<lparr>state := kDisConnected\<rparr>) ch2 w2" "server w2 = server w" "other_loops w2 = other_loops w"
      "thread_id w2 = thread_id w" "\<forall>m. pending_at m w2 = pending_at m w" by blast
  obtain eb2 where eb2: "loop_at base w2 = Some eb2" "thread_id eb2 = thread_id eb"
    using eb m s2(2,4,5) by (auto simp: loop_at_def managed_def split: if_splits)
  have at2: "srv_loop (server w2) = base" "l \<noteq> base \<longrightarrow> thread_id eb2 \<noteq> thread_id w2"
    using base tid eb2(2) s2(3,5) by simp_all
  from remove_stage [OF laws s2(2) at2(1) eb2(1) at2(2), of code] obtain w4 w6 where
    s3: "removeConnection Sys p w2 = Inr w4" "moved V w2 w6"
      "if l = base then w6 = w4 else pending_at base w4 = pending_at base w2 @ [OtherFunctor (RemoveConnectionInLoop p)] \<and>
         and_then (switch_to base w4) (server_functor Sys quiet_user code (OtherFunctor (RemoveConnectionInLoop p))) = Inr w6"
      "connection_map (server w6) = (connection_map (server w2))(conn_name c := None)"
      "pending_at l w6 = pending_at l w2 @ [ConnectionDestroyed p]" by auto
  from destroy_stage [OF laws s2(2) _ s3(2), of code] obtain w7 w8 where
    s4: "switch_to l w6 = Inr w7" "server_functor Sys quiet_user code (ConnectionDestroyed p) w7 = Inr w8"
      "conns w8 p = Some (c\<lparr>state := kDisConnected\<rparr>)" "hasChannel (conn_channel c) w8 = Inr False"
      "nv_interest (V l) (kernel w8) (socket_fd c) = None" "server w8 = server w6" by auto
  show ?thesis
    by (intro exI [of _ w4] exI [of _ w6] exI [of _ w7] exI [of _ w8]) (use s2 s3 s4 in simp)
qed

section \<open>Properties\<close>

lemma sample_fleet_laws: "fleet_laws (\<lambda>_. sample_server_sys) (\<lambda>_. sample_host_view)"
proof -
  have io: "io_same sample_host_view k (snd (eventfd_write sample_server_sys k fd))" for k fd
    by (cases k) (auto simp: io_same_def sample_server_sys_def on_net_def sample_tcp_sys_def sample_loop_sys_def on_loop_def
        sample_host_view_def sample_view_def sample_interest_def sample_opened_def split: prod.split)
  have lift: "nv_out sample_host_view k' = nv_out sample_view (fst k')" "nv_shut sample_host_view k' = nv_shut sample_view (fst k')"
    "nv_interest sample_host_view k' = nv_interest sample_view (fst k')" "nv_opened sample_host_view k' = nv_opened sample_view (fst k')"
    for k' by (simp_all add: sample_host_view_def)
  have ctl: "fst (snd (epoll_ctl sample_server_sys k operation fd ev)) = snd (epoll_ctl sample_tcp_sys (fst k) operation fd ev)"
    "fst (snd (sock_shutdown_wr sample_server_sys k fd)) = snd (sock_shutdown_wr sample_tcp_sys (fst k) fd)"
    "sock_write sample_server_sys k fd bs = (case sock_write sample_tcp_sys (fst k) fd bs of (r, n) \<Rightarrow> (r, (n, snd k)))"
    for k operation fd ev bs
    by (simp_all add: sample_server_sys_def on_net_def split: prod.split)
  have ev: "nv_out sample_host_view (snd (epoll_ctl sample_server_sys k operation fd ev)) = nv_out sample_host_view k \<and>
      nv_shut sample_host_view (snd (epoll_ctl sample_server_sys k operation fd ev)) = nv_shut sample_host_view k"
    for k operation fd ev using tcp_ctl [OF sample_tcp_laws, of "fst k" operation fd] by (cases ev) (simp add: lift ctl)
  have wr: "nv_interest sample_host_view k' = nv_interest sample_host_view k \<and>
      nv_opened sample_host_view k' = nv_opened sample_host_view k \<and> nv_shut sample_host_view k' = nv_shut sample_host_view k \<and>
      (case r of SOk n \<Rightarrow> n \<le> length bs \<and>
          nv_out sample_host_view k' = (nv_out sample_host_view k)(fd := nv_out sample_host_view k fd @ take n bs)
       | SErr e \<Rightarrow> nv_out sample_host_view k' = nv_out sample_host_view k)"
    if "sock_write sample_server_sys k fd bs = (r, k')" for k fd bs r k'
  proof -
    from that have "sock_write sample_tcp_sys (fst k) fd bs = (r, fst k')" by (auto simp: ctl split: prod.splits)
    from tcp_write [OF sample_tcp_laws this] show ?thesis by (cases r) (simp_all add: lift)
  qed
  have sh: "nv_interest sample_host_view (snd (sock_shutdown_wr sample_server_sys k fd)) = nv_interest sample_host_view k \<and>
      nv_opened sample_host_view (snd (sock_shutdown_wr sample_server_sys k fd)) = nv_opened sample_host_view k \<and>
      nv_out sample_host_view (snd (sock_shutdown_wr sample_server_sys k fd)) = nv_out sample_host_view k \<and>
      nv_shut sample_host_view (snd (sock_shutdown_wr sample_server_sys k fd)) = insert fd (nv_shut sample_host_view k)" for k fd
    using tcp_shutdown [OF sample_tcp_laws, of "fst k" fd] by (simp add: lift ctl)
  have "tcp_laws sample_server_sys sample_host_view"
    unfolding tcp_laws_def by (intro conjI [OF sample_host_epoll_laws] conjI allI impI io wr) (simp_all add: ev sh)
  with io show ?thesis by (simp add: fleet_laws_def) (simp add: sample_server_sys_def)
qed



end
