(* ===== verification/Server_Safety.thy ===== *)
theory Server_Safety
  imports Loop_Safety Server_Lifecycle
begin

text \<open>
  Safety of a whole server that runs in one loop (\<open>setThreadNum(0)\<close>, the default): the composition
  of \<open>TcpServer\<close>, \<open>Acceptor\<close>, \<open>EventLoopThreadPool\<close>, \<open>EventLoop\<close>, \<open>EPollPoller\<close>, \<open>Channel\<close>,
  \<open>TcpConnection\<close> and \<open>Buffer\<close>.  The callbacks and functors of the server meet the contract under
  which theory \<open>Loop_Safety\<close> shows a loop safe.
\<close>

section \<open>A server in one loop\<close>

definition single_process :: "ptr \<Rightarrow> ('v, 'k) process \<Rightarrow> bool" where
  "single_process L w \<longleftrightarrow> this_loop w = L \<and> other_loops w L = None \<and> srv_loop (server w) = L \<and>
     base_loop (pool (server w)) = L \<and> pool_loops (pool (server w)) = [] \<and>
     acc_callback (srv_acceptor (server w)) = Some NewConnection"

text \<open>
  The functors of the server that can be queued are the user's: with one loop the others are run at
  once.  The callbacks are the acceptor's and the user's.
\<close>

fun server_closure_ok :: "'v server_closure \<Rightarrow> bool" where
  "server_closure_ok (UserClosure v) \<longleftrightarrow> True"
| "server_closure_ok _ \<longleftrightarrow> False"

fun server_callback_ok :: "'v server_closure call \<Rightarrow> bool" where
  "server_callback_ok (CallRead AcceptorRead t) \<longleftrightarrow> True"
| "server_callback_ok (CallRead (UserClosure v) t) \<longleftrightarrow> True"
| "server_callback_ok (Call (UserClosure v)) \<longleftrightarrow> True"
| "server_callback_ok _ \<longleftrightarrow> False"

definition server_contract :: "ptr \<Rightarrow> ('v server_closure, 'v server_cb, ('v, 'k, unit) process_ext) contract" where
  "server_contract L = \<lparr>closure_ok = server_closure_ok, callback_ok = server_callback_ok,
     conn_ok = (\<lambda>l m. l = L \<and> m \<noteq> Some RemoveConnection), rest_ok = (\<lambda>m. \<exists>w. world.more w = m \<and> single_process L w)\<rparr>"

lemma single_process_more:
  assumes "world.more w = world.more w'"
  shows "single_process L w \<longleftrightarrow> single_process L w'"
  using assms by (cases w; cases w') (simp add: single_process_def)

lemma server_contract_sel [simp]:
  "closure_ok (server_contract L) = server_closure_ok" "callback_ok (server_contract L) = server_callback_ok"
  "conn_ok (server_contract L) l m \<longleftrightarrow> l = L \<and> m \<noteq> Some RemoveConnection" "rest_ok (server_contract L) (world.more w) \<longleftrightarrow> single_process L w"
  using single_process_more by (auto simp: server_contract_def)

text \<open>The callbacks of channels that are not of connections: the acceptor's, and the user's given by \<open>code\<close>.\<close>

fun server_callback :: "(ptr \<Rightarrow> ('k, 'y) server_sys_scheme) \<Rightarrow> (string \<Rightarrow> 32 word) \<Rightarrow>
    (('v, 'k) process \<Rightarrow> ptr \<times> ptr) \<Rightarrow> ('v \<Rightarrow> ('v, 'k) process \<Rightarrow> ('v, 'k) process_result) \<Rightarrow>
    'v server_closure call \<Rightarrow> ('v, 'k) process \<Rightarrow> ('v, 'k) process_result" where
  "server_callback Sys inet_addr alloc code (CallRead AcceptorRead t) w = acceptor_read Sys inet_addr alloc w"
| "server_callback Sys inet_addr alloc code (CallRead (UserClosure v) t) w = code v w"
| "server_callback Sys inet_addr alloc code (Call (UserClosure v)) w = code v w"
| "server_callback Sys inet_addr alloc code _ w = Inl BadFunctionCall"

text \<open>
  Accepting gives a descriptor that was not open; asking a socket for its name and setting an option
  change neither the interest list nor the open descriptors.
\<close>

definition accept_laws :: "('k, 'y) server_sys_scheme \<Rightarrow> 'k net_view \<Rightarrow> bool" where
  "accept_laws S V \<longleftrightarrow>
     (\<forall>k fd n a k'. sock_accept S k fd = (SOk (n, a), k') \<longrightarrow>
        n \<notin> nv_opened V k \<and> nv_opened V k' = insert n (nv_opened V k) \<and> nv_interest V k' = nv_interest V k) \<and>
     (\<forall>k fd e k'. sock_accept S k fd = (SErr e, k') \<longrightarrow> quiet_call V k k') \<and>
     (\<forall>k fd. quiet_call V k (snd (sock_name S k fd))) \<and>
     (\<forall>k fd on. quiet_call V k (sock_keepalive S k fd on))"

lemmas accept_new = accept_laws_def [THEN iffD1, THEN conjunct1, rule_format]
lemmas accept_failed = accept_laws_def [THEN iffD1, THEN conjunct2, THEN conjunct1, rule_format]
lemmas accept_name = accept_laws_def [THEN iffD1, THEN conjunct2, THEN conjunct2, THEN conjunct1, rule_format]
lemmas accept_keepalive = accept_laws_def [THEN iffD1, THEN conjunct2, THEN conjunct2, THEN conjunct2, rule_format]

text \<open>The allocator gives addresses where nothing is.\<close>

definition alloc_laws :: "(('v, 'k) process \<Rightarrow> ptr \<times> ptr) \<Rightarrow> bool" where
  "alloc_laws alloc \<longleftrightarrow> (\<forall>w p ch. finite (dom (conns w)) \<longrightarrow> finite (dom (channel_heap w)) \<longrightarrow> alloc w = (p, ch) \<longrightarrow>
     conns w p = None \<and> channel_heap w ch = None)"

text \<open>A change of the server, and of descriptors that are not of channels.\<close>

lemma safe_server:
  fixes w w' :: "('v, 'k) process"
  assumes inv: "world_inv V C w" and rest: "rest_ok C (world.more w')"
    and same: "channels w' = channels w" "channel_heap w' = channel_heap w" "conns w' = conns w" "pendingFunctors w' = pendingFunctors w"
    and io: "nv_interest V (kernel w') = nv_interest V (kernel w)" "nv_opened V (kernel w) \<subseteq> nv_opened V (kernel w')"
  shows "world_inv V C w'" and "world_evolves w w'"
proof -
  have "poller_inv (nv_interest V) w'" using world_invD(1) [OF inv] by (rule poller_inv_same) (simp_all add: same io)
  note fr = world_inv_frame [OF inv this]
  have "conn_face w' = conn_face w" by (simp add: conn_face_def fun_eq_iff same)
  with world_invD(4,5) [OF inv] rest io show "world_inv V C w'" "world_evolves w w'" by (auto intro!: fr simp: same)
qed

section \<open>Closing\<close>

lemma safe_removeConnection:
  fixes w :: "('v, 'k) process"
  assumes laws: "tcp_laws (Sys L) V" and inv: "world_inv V (server_contract L) w" and p: "conn_at w p"
  shows "world_safe V (server_contract L) w (removeConnection Sys p w)"
proof -
  have here: "this_loop w = L" "srv_loop (server w) = L"
    using world_invD(6) [OF inv] by (simp_all add: single_process_def)
  from face_Some [OF p] world_invD(4) [OF inv] obtain c where c: "conns w p = Some c" "conn_loop c = L" by fastforce
  let ?w = "upd_server (\<lambda>s. s\<lparr>connection_map := (connection_map s)(conn_name c := None)\<rparr>) w"
  have w': "world_inv V (server_contract L) ?w" "world_evolves w ?w"
    using world_invD(6) [OF inv] by (intro safe_server [OF inv]; simp add: upd_server_def single_process_def)+
  have "removeConnection Sys p w = Inr (queueInLoop (Sys L) (thread_id w) (ConnectionDestroyed p) ?w)"
    using here c by (simp add: removeConnection_def run_at_def removeConnectionInLoop_def conn_deref_Some queue_at_def upd_server_def)
  moreover have "functor_ok (server_contract L) (conn_face ?w) (ConnectionDestroyed p)"
    using face_evolves [OF w'(2) p] by (simp add: conn_at_def)
  ultimately show ?thesis
    using safe_later [OF w'(2) safe_queueInLoop [OF w'(1) laws]] by simp
qed


section \<open>New connections\<close>

lemma slots_ok_evolves:
  assumes "slots_ok C (conn_face w) ch" and "world_evolves w w'"
  shows "slots_ok C (conn_face w') ch"
proof -
  have "call_ok C (conn_face w') cl" if "call_ok C (conn_face w) cl" for cl
    using that assms(2) by (cases "(C, conn_face w, cl)" rule: call_ok.cases) (fastforce simp: world_evolves_def)+
  with assms(1) show ?thesis unfolding slots_ok_def by blast
qed

lemma new_channel_sel [simp]: "ch_fd (new_channel l p fd) = fd"
  by (simp add: new_channel_def Channel_new_def)

text \<open>A connection with its channel, put where nothing is, on a descriptor no channel has.\<close>

lemma safe_new_conn:
  assumes inv: "world_inv V C w" and free: "conns w p = None" "channel_heap w q = None"
    and fd: "\<And>q' ch'. channel_heap w q' = Some ch' \<Longrightarrow> ch_fd ch' \<noteq> fd" "fd \<in> nv_opened V (kernel w')"
    and w': "channels w' = channels w" "channel_heap w' = (channel_heap w)(q \<mapsto> new_channel l p fd)" "conns w' = (conns w)(p \<mapsto> c)"
      "pendingFunctors w' = pendingFunctors w @ [ConnectionEstablished p]"
    and c: "conn_channel c = q" "buf_inv (input_buffer c)" "buf_inv (output_buffer c)" "conn_ok C (conn_loop c) (message_callback c)"
    and io: "nv_interest V (kernel w') = nv_interest V (kernel w)" "nv_opened V (kernel w) \<subseteq> nv_opened V (kernel w')"
    and rest: "rest_ok C (world.more w')"
  shows "world_safe V C w (Inr w')"
proof -
  have ev: "world_evolves w w'"
    using free by (auto simp: world_evolves_def w' conn_face_def)
  have "poller_inv (nv_interest V) (ch_set q (Channel_new l fd) w)" by (rule poller_inv_new_channel [OF world_invD(1) [OF inv] free(2)])
  then have pinv: "poller_inv (nv_interest V) w'"
    by (rule poller_inv_cong) (simp_all add: w' io ch_set_def ch_core_def new_channel_def)
  have face: "conn_face w' p \<noteq> None" by (simp add: conn_face_def w')
  have "world_inv V C w'" unfolding world_inv_def
  proof (intro conjI allI impI ballI pinv rest)
    fix q1 q2 d1 d2 assume d: "channel_heap w' q1 = Some d1" "channel_heap w' q2 = Some d2" "ch_fd d1 = ch_fd d2"
    then show "q1 = q2"
      using world_invD(2) [OF inv, of q1 d1 q2 d2] fd(1) [of q1 d1] fd(1) [of q2 d2] by (auto simp: w' split: if_splits)
  next
    fix q1 d assume d: "channel_heap w' q1 = Some d"
    show "ch_fd d \<in> nv_opened V (kernel w')" using d fd(2) io(2) world_invD(3) [OF inv] by (auto simp: w' split: if_splits)
    have "slots_ok C (conn_face w') (new_channel l p fd)" using face by (auto simp: slots_ok_def new_channel_def)
    then show "slots_ok C (conn_face w') d"
      using d slots_ok_evolves [OF _ ev] world_invD(3) [OF inv] by (auto simp: w' split: if_splits)
  next
    fix f assume "f \<in> set (pendingFunctors w')"
    then consider "f \<in> set (pendingFunctors w)" | "f = ConnectionEstablished p" by (auto simp: w')
    then show "functor_ok C (conn_face w') f"
      by cases (use functor_ok_evolves [OF world_invD(5) [OF inv] ev] face in auto)
  qed (use world_invD(4) [OF inv] world_invD(7,8) [OF inv] c in \<open>auto simp: w' split: if_splits\<close>)
  then show ?thesis by (rule safe_result [OF _ ev])
qed

lemma safe_newConnection:
  fixes w :: "('v, 'k) process"
  assumes laws: "tcp_laws (Sys L) V" "accept_laws (Sys L) V" and inv: "world_inv V (server_contract L) w"
    and free: "conns w p = None" "channel_heap w ch = None"
    and fd: "\<And>q' ch'. channel_heap w q' = Some ch' \<Longrightarrow> ch_fd ch' \<noteq> fd" "fd \<in> nv_opened V (kernel w)"
  shows "world_safe V (server_contract L) w (newConnection Sys p ch fd peer w)"
proof -
  have one: "single_process L w" using world_invD(6) [OF inv] by simp
  then have nx: "getNextLoop (pool (server w)) = Inr (L, pool (server w))"
    by (simp add: single_process_def getNextLoop_def)
  show ?thesis
  proof (cases "next_conn_id (server w) < 2147483647")
    case False
    with nx have "newConnection Sys p ch fd peer w = Inl SignedOverflow"
      by (simp add: newConnection_def guard_r_def)
    then show ?thesis by (simp add: world_safe_def safe_in_def exhausted_def)
  next
    case True
    have ok: "process_ok w" "loop_at L w = Some (event_loop.truncate w)"
      using one by (simp_all add: single_process_def process_ok_def loop_at_def)
    obtain w' laddr e' k where
      w': "newConnection Sys p ch fd peer w = Inr w'" "process_ok w'" "this_loop w' = this_loop w"
        "server w' = accepted_server (server w) (pool (server w)) p"
        "conns w' = (conns w)(p \<mapsto> accepted_conn (server w) L ch fd laddr peer)"
        "loop_at L w' = Some e'" "channels e' = channels (event_loop.truncate w)"
        "channel_heap e' = (channel_heap (event_loop.truncate w))(ch \<mapsto> new_channel L p fd)"
        "\<And>m. pending_at m w' = pending_at m w @ (if m = L then [ConnectionEstablished p] else [])"
      and k: "k = sock_keepalive (Sys L) (snd (sock_name (Sys (this_loop w)) (kernel w) fd)) fd True"
        "kernel w' = k \<or> (\<exists>efd. kernel w' = snd (eventfd_write (Sys L) k efd))"
      by (rule newConnection_ok [OF ok(1) True nx ok(2), of Sys p ch fd peer]) blast
    have here: "this_loop w = L" "this_loop w' = L" using one w'(3) by (simp_all add: single_process_def)
    then have sel: "channels w' = channels w" "channel_heap w' = (channel_heap w)(ch \<mapsto> new_channel L p fd)"
      "pendingFunctors w' = pendingFunctors w @ [ConnectionEstablished p]"
      using w'(6-8) w'(9) [of L] by (auto simp: loop_at_def pending_at_def)
    have "quiet_call V (kernel w) k"
      using accept_name [OF laws(2)] accept_keepalive [OF laws(2)] here by (simp add: k(1) quiet_call_def)
    then have io: "quiet_call V (kernel w) (kernel w')"
      using k(2) tcp_eventfd [OF laws(1)] by (auto simp: quiet_call_def io_same_def)
    show ?thesis unfolding w'(1)
    proof (rule safe_new_conn [OF inv free fd(1) _ sel(1,2) w'(5) sel(3)])
      show "rest_ok (server_contract L) (world.more w')"
        using one w'(2) here by (simp add: single_process_def process_ok_def w'(4) accepted_server_def)
    qed (use io fd(2) fresh_buffer in \<open>auto simp: quiet_call_def accepted_conn_def new_conn_def\<close>)
  qed
qed


lemma safe_acceptor_read:
  fixes w :: "('v, 'k) process"
  assumes laws: "tcp_laws (Sys L) V" "accept_laws (Sys L) V" and alloc: "alloc_laws alloc"
    and inv: "world_inv V (server_contract L) w"
  shows "world_safe V (server_contract L) w (acceptor_read Sys inet_addr alloc w)"
proof -
  have one: "single_process L w" using world_invD(6) [OF inv] by simp
  then have here: "this_loop w = L" "acc_callback (srv_acceptor (server w)) = Some NewConnection" by (simp_all add: single_process_def)
  obtain r k where acc: "sock_accept (Sys L) (kernel w) (accept_socket (srv_acceptor (server w))) = (r, k)" by fastforce
  let ?w = "w\<lparr>kernel := k\<rparr>"
  have io: "nv_interest V k = nv_interest V (kernel w)" "nv_opened V (kernel w) \<subseteq> nv_opened V k"
    using accept_new [OF laws(2)] accept_failed [OF laws(2)] acc by (cases r; force simp: quiet_call_def)+
  have w1: "world_inv V (server_contract L) ?w" "world_evolves w ?w"
    by (rule safe_server [OF inv]; use io one in \<open>simp add: single_process_def\<close>)+
  obtain p ch where pc: "alloc ?w = (p, ch)" by fastforce
  have free: "conns w p = None" "channel_heap w ch = None"
    using alloc [unfolded alloc_laws_def, rule_format, OF _ _ pc] world_invD(7,8) [OF w1(1)] by simp_all
  have "world_safe V (server_contract L) w (newConnection Sys p ch fd peer ?w)" if "r = SOk (fd, a)" for fd a peer
  proof (rule safe_later [OF w1(2) safe_newConnection [where Sys = Sys and L = L, OF laws w1(1)]])
    note new = accept_new [OF laws(2) acc [unfolded that]]
    show "ch_fd ch' \<noteq> fd" if "channel_heap ?w q' = Some ch'" for q' ch' using that world_invD(3) [OF inv, of q' ch'] new by auto
    show "fd \<in> nv_opened V (kernel ?w)" using new by simp
  qed (use free in simp_all)
  then show ?thesis
    using safe_result [OF w1] here pc
    by (simp add: acceptor_read_def acceptor_handleRead [OF acc] split: sysret.split prod.split accept_cb.split)
qed



section \<open>The contract of the loop is met\<close>

text \<open>The user's callbacks, as lists of calls for the connection they are given, and functors of the user's own.\<close>

fun server_action :: "ptr \<Rightarrow> 'v server_closure action \<Rightarrow> bool" where
  "server_action p (ActQueue f) \<longleftrightarrow> (\<exists>v. f = OtherFunctor (UserClosure v))"
| "server_action p (ActSend q data) \<longleftrightarrow> q = p \<and> length data \<le> vec_max_size"
| "server_action p (ActShutdown q) \<longleftrightarrow> q = p"
| "server_action p (ActSendFile q fd off n) \<longleftrightarrow> q = p"
| "server_action p (ActRetrieve q n) \<longleftrightarrow> q = p"

lemma server_action_own: "server_action p a \<Longrightarrow> own_action (server_contract L) p a"
  by (cases a) auto

definition user_acts :: "('k, 'y) tcp_sys_scheme \<Rightarrow> ('v user_call \<Rightarrow> 'v server_closure action list) \<Rightarrow>
    'v user_call \<Rightarrow> ('v, 'k) process \<Rightarrow> ('v, 'k) process_result" where
  "user_acts S A cl w = fold_r (conn_act S) (A cl) w"

lemma server_user_safe:
  fixes Sys :: "ptr \<Rightarrow> ('k, 'y) server_sys_scheme" and A :: "'v user_call \<Rightarrow> 'v server_closure action list"
    and L :: ptr and V :: "'k net_view"
  defines "C \<equiv> server_contract L"
  assumes laws: "loop_laws (Sys L) V" and A: "\<And>cl a. a \<in> set (A cl) \<Longrightarrow> server_action (conn_of cl) a"
  shows "user_safe V C (server_user Sys (user_acts (Sys L) A))"
  unfolding user_safe_def
proof (intro allI impI)
  fix cl and w :: "('v, 'k) process"
  assume inv: "world_inv V C w" and p: "conn_at w (conn_of cl)" and own: "own_message w cl"
  have acts: "world_safe V C w (user_acts (Sys L) A ucl w)" if "conn_of ucl = conn_of cl" for ucl
    unfolding user_acts_def C_def using inv p that
    by (intro safe_fold safe_conn_act [OF laws _ _ server_action_own [OF A]]) (auto simp: C_def dest: face_evolves)
  show "world_safe V C w (server_user Sys (user_acts (Sys L) A) cl w)"
  proof (cases cl)
    case (UserCall u p)
    with acts safe_removeConnection [where Sys = Sys and L = L, OF loop_tcp [OF laws] inv [unfolded C_def]] p show ?thesis
      by (cases u) (simp_all add: C_def)
  next
    case (UserMessage u p t)
    with own obtain c where "conns w p = Some c" "message_callback c = Some u" by auto
    with world_invD(4) [OF inv] have "u \<noteq> RemoveConnection" by (auto simp: C_def)
    with UserMessage acts show ?thesis by (cases u) simp_all
  qed
qed

lemma server_others_safe:
  assumes laws: "tcp_laws (Sys L) V" "accept_laws (Sys L) V" and alloc: "alloc_laws alloc"
    and code: "others_safe V (server_contract L) (\<lambda>_. True) code"
  shows "others_safe V (server_contract L) server_callback_ok (server_callback Sys inet_addr alloc code)"
    and "others_safe V (server_contract L) server_closure_ok (run_closure Sys code)"
proof -
  have "world_safe V (server_contract L) w (server_callback Sys inet_addr alloc code cl w)"
    if "server_callback_ok cl" "world_inv V (server_contract L) w" for cl w
    using that safe_acceptor_read [where Sys = Sys and L = L, OF laws alloc that(2)] code
    by (cases cl rule: server_callback_ok.cases) (simp_all add: others_safe_def)
  then show "others_safe V (server_contract L) server_callback_ok (server_callback Sys inet_addr alloc code)"
    by (simp add: others_safe_def)
  have "world_safe V (server_contract L) w (run_closure Sys code x w)"
    if "server_closure_ok x" "world_inv V (server_contract L) w" for x w
    using that code by (cases x) (simp_all add: others_safe_def)
  then show "others_safe V (server_contract L) server_closure_ok (run_closure Sys code)" by (simp add: others_safe_def)
qed

section \<open>Properties\<close>



text \<open>A server in the loop at 9, with a listening acceptor and no connection yet.\<close>

definition next_addresses :: "('v, 'k) process \<Rightarrow> ptr \<times> ptr" where
  "next_addresses w = (Suc (Max (insert 0 (dom (conns w)))), Suc (Max (insert 0 (dom (channel_heap w)))))"

lemma next_addresses_laws: "alloc_laws (next_addresses :: ('v, 'k) process \<Rightarrow> _)"
proof -
  have "Suc (Max (insert 0 D)) \<notin> D" if "finite D" for D :: "nat set"
    using that Max_ge [of "insert 0 D"] by (metis finite_insert insertCI not_less_eq_eq order_refl)
  then show ?thesis by (auto simp: alloc_laws_def next_addresses_def domIff)
qed

definition accept_channel_sample :: "nat server_closure channel_cb channel" where
  "accept_channel_sample = (Channel_new 9 5)\<lparr>events := 3, index := 1, read_callback := Some (OtherCallback AcceptorRead)\<rparr>"

definition single_sample :: "(nat, sample_host) process" where
  "single_sample = sample_process\<lparr>channels := [5 \<mapsto> 3], channel_heap := [3 \<mapsto> accept_channel_sample],
     kernel := ((([(5, (3, 3))], 0, 7), (\<lambda>_. []), {}), Map.empty, {5}), other_loops := Map.empty,
     server := sample_server\<lparr>pool := EventLoopThreadPool_new 9 ''echo''\<rparr>\<rparr>"

lemma single_sample_inv: "world_inv sample_host_view (server_contract 9) single_sample"
proof -
  have "poller_inv (nv_interest sample_host_view) single_sample"
    by (auto simp: poller_inv_def single_sample_def chan_ok_def watched_def accept_channel_sample_def Channel_new_def
        index_consts sample_host_view_def sample_view_def sample_interest_def)
  moreover have "channel_heap single_sample = [3 \<mapsto> accept_channel_sample]" "conns single_sample = Map.empty"
    "pendingFunctors single_sample = []" "single_process 9 single_sample"
    by (simp_all add: single_sample_def sample_process_def single_process_def sample_server_def EventLoopThreadPool_new_def)
  moreover have "ch_fd accept_channel_sample \<in> nv_opened sample_host_view (kernel single_sample)"
    "slots_ok (server_contract 9) (conn_face single_sample) accept_channel_sample"
    by (auto simp: accept_channel_sample_def Channel_new_def sample_host_view_def sample_view_def sample_opened_def single_sample_def
        slots_ok_def)
  ultimately show ?thesis by (simp add: world_inv_def)
qed

lemma sample_server_laws: "loop_laws sample_server_sys sample_host_view" "accept_laws sample_server_sys sample_host_view"
proof -
  have "quiet_call sample_host_view k (snd (sock_readv sample_server_sys k fd ls))"
    "quiet_call sample_host_view k (snd (sock_sendfile sample_server_sys k out' fd off n))"
    "quiet_call sample_host_view k (snd (sock_error sample_server_sys k fd))" for k fd ls out' off n
    by (simp_all add: quiet_call_def sample_server_sys_def split_beta)
  moreover have "readv_bounded (sock_readv sample_server_sys)" by (simp add: readv_bounded_def sample_server_sys_def)
  ultimately show "loop_laws sample_server_sys sample_host_view"
    using fleet_tcp [OF sample_fleet_laws] by (simp add: loop_laws_def)
  show "accept_laws sample_server_sys sample_host_view"
    by (auto simp: accept_laws_def quiet_call_def sample_server_sys_def on_net_def sample_tcp_sys_def sample_loop_sys_def on_loop_def
        sample_host_view_def sample_view_def sample_interest_def sample_opened_def split: prod.splits)
qed

text \<open>An echo of three bytes for every message, and a farewell when the connection changes.\<close>

definition echo :: "nat user_call \<Rightarrow> nat server_closure action list" where
  "echo cl = (case cl of UserCall u p \<Rightarrow> [ActQueue (OtherFunctor (UserClosure u))]
     | UserMessage u p t \<Rightarrow> [ActSend p [1, 2, 3], ActRetrieve p 3, ActShutdown p])"


end
