(* ===== verification/Server_Start.thy ===== *)
theory Server_Start
  imports Server_Safety
begin

text \<open>
  Setting a server up, as a \<open>main\<close> does: an event loop, a \<open>TcpServer\<close> in it and \<open>start()\<close>.  The
  result has the invariant under which theory \<open>Server_Safety\<close> shows the server safe.
\<close>

section \<open>The first process\<close>

definition first_process :: "ptr \<Rightarrow> ('v, 'k) io_loop \<Rightarrow> 'v tcp_server \<Rightarrow> ('v, 'k) process" where
  "first_process L e srv = \<lparr>channels = channels e, channel_heap = channel_heap e, kernel = kernel e, looping = looping e,
     quit_flag = quit_flag e, thread_id = thread_id e, pollReturnTime = pollReturnTime e, wakeup_fd = wakeup_fd e,
     wakeup_channel = wakeup_channel e, active_channels = active_channels e, pendingFunctors = pendingFunctors e,
     calling_pending_functors = calling_pending_functors e, conns = Map.empty, this_loop = L, other_loops = Map.empty,
     server = srv\<rparr>"

text \<open>A channel with a read callback of the server or the user, and no other.\<close>

definition reads_only :: "'v server_closure channel_cb channel \<Rightarrow> bool" where
  "reads_only ch \<longleftrightarrow> (\<exists>x. read_callback ch = Some (OtherCallback x) \<and> (x = AcceptorRead \<or> (\<exists>v. x = UserClosure v))) \<and>
     write_callback ch = None \<and> close_callback ch = None \<and> error_callback ch = None"

lemma reads_only_slots: "reads_only ch \<Longrightarrow> slots_ok (server_contract L) F ch"
  by (auto simp: reads_only_def slots_ok_def)

text \<open>A loop with its two channels, and the acceptor's channel on a third descriptor.\<close>

lemma first_process_inv:
  fixes e :: "('v, 'k) io_loop"
  assumes inv: "poller_inv (nv_interest V) e" and pend: "pendingFunctors e = []"
    and heap: "channel_heap e = [q1 \<mapsto> c1, q2 \<mapsto> c2, q3 \<mapsto> c3]" and q: "distinct [q1, q2, q3]"
    and fds: "distinct [ch_fd c1, ch_fd c2, ch_fd c3]" "{ch_fd c1, ch_fd c2, ch_fd c3} \<subseteq> nv_opened V (kernel e)"
    and slots: "reads_only c1" "reads_only c2" "reads_only c3"
    and one: "single_process L (first_process L e srv)"
  shows "world_inv V (server_contract L) (first_process L e srv)"
proof -
  have w: "channel_heap (first_process L e srv) = [q1 \<mapsto> c1, q2 \<mapsto> c2, q3 \<mapsto> c3]" "conns (first_process L e srv) = Map.empty"
    "pendingFunctors (first_process L e srv) = []" "kernel (first_process L e srv) = kernel e"
    by (simp_all add: first_process_def heap pend)
  have "poller_inv (nv_interest V) (first_process L e srv)"
    using inv by (rule poller_inv_cong) (simp_all add: first_process_def)
  then show ?thesis
    using fds slots [THEN reads_only_slots] one by (auto simp: world_inv_def w split: if_splits)
qed


section \<open>Listening\<close>

lemma safe_acceptor_listen:
  fixes w :: "('v, 'k) process"
  assumes laws: "tcp_laws (Sys L) V" "listen_laws (Sys L) (nv_interest V) (nv_opened V) bound listens"
    and inv: "world_inv V (server_contract L) w" and ch: "chan_at w (accept_channel (srv_acceptor (server w)))"
    and run: "acceptor_listen Sys w = Inr w'"
  shows "world_inv V (server_contract L) w'"
proof -
  have one: "single_process L w" using world_invD(6) [OF inv] by simp
  then have here: "this_loop w = L" by (simp add: single_process_def)
  let ?acc = "srv_acceptor (server w)"
  from run here obtain k w1 where
    k: "sock_listen (Sys L) (kernel w) (accept_socket ?acc) 16384 = (SOk (), k)"
    and w1: "enableReading (Sys L) (accept_channel ?acc) (w\<lparr>kernel := k\<rparr>) = Inr w1"
    and w': "w' = upd_server (\<lambda>s. s\<lparr>srv_acceptor := ?acc\<lparr>listening := True\<rparr>\<rparr>) w1"
    by (auto simp: acceptor_listen_def Acceptor_listen_def and_then_Inr_iff Let_def)
  have io: "nv_interest V k = nv_interest V (kernel w)" "nv_opened V k = nv_opened V (kernel w)"
    using law_listen [OF laws(2) k] by simp_all
  have inv0: "world_inv V (server_contract L) (w\<lparr>kernel := k\<rparr>)"
    by (rule safe_server [OF inv]) (use io one in \<open>simp_all add: single_process_def\<close>)
  have inv1: "world_inv V (server_contract L) w1"
    using safe_channel_op(1) [OF laws(1) inv0, of "accept_channel ?acc"] ch w1
    by (auto simp: chan_at_def world_safe_def safe_in_def)
  then have "single_process L w1" using world_invD(6) by fastforce
  then have "rest_ok (server_contract L) (world.more w')" 
    using one by (auto simp: w' single_process_def upd_server_def)
  then show ?thesis by (rule safe_server [OF inv1]) (simp_all add: w' upd_server_def)
qed

section \<open>Properties\<close>



lemma sample_host_create_laws: "create_laws sample_server_sys (nv_interest sample_host_view) (nv_opened sample_host_view)"
  by (auto simp: create_laws_def sample_server_sys_def on_net_def sample_tcp_sys_def sample_loop_sys_def on_loop_def
      sample_host_view_def sample_view_def sample_interest_def sample_opened_def)

text \<open>A \<open>main\<close>: a loop, a server on port 8080 and \<open>start()\<close>.\<close>

definition sample_main :: "error + (nat, sample_host) process" where
  "sample_main =
     and_then (EventLoop_new sample_server_sys False None 100 9 1 2 (OtherCallback (UserClosure 1)) (OtherCallback (UserClosure 2))
       ((([], 0, 3), (\<lambda>_. []), {}), Map.empty, {})) (\<lambda>(s, t).
     and_then (TcpServer_new sample_server_sys 9 3 (InetAddress_of sample_address) ''echo'' kReusePort s) (\<lambda>(srv, s1).
     TcpServer_start (\<lambda>_. sample_server_sys) (\<lambda>_ _. Inl FatalExit) (\<lambda>_ _. Inr) (first_process 9 s1 srv)))"


end
