(* ===== verification/Lifetimes.thy ===== *)
theory Lifetimes
  imports Server_Start
begin

text \<open>
  How long connections live.  A \<open>TcpConnection\<close> is owned by \<open>shared_ptr\<close>s: in the server's table, in
  the closures of \<open>TcpServer\<close> (src/TcpServer.cc) and with the user; the closures that
  \<open>TcpConnection\<close> queues itself capture the bare \<open>this\<close> (src/TcpConnection.cc).  The last
  \<open>shared_ptr\<close> destroys the connection with its channel and its socket.
\<close>

section \<open>Owning and using a connection\<close>

text \<open>The connection a functor works on, and the one whose \<open>shared_ptr\<close> it holds.\<close>

fun subject :: "'v server_closure loop_functor \<Rightarrow> ptr option" where
  "subject (SendInLoop p data) = Some p"
| "subject (SendFileInLoop p) = Some p"
| "subject (ShutDownInLoop p) = Some p"
| "subject (WriteComplete p) = Some p"
| "subject (HighWaterMark p) = Some p"
| "subject (ConnectionEstablished p) = Some p"
| "subject (ConnectionDestroyed p) = Some p"
| "subject (OtherFunctor (RemoveConnectionInLoop p)) = Some p"
| "subject (OtherFunctor _) = None"

fun holder :: "'v server_closure loop_functor \<Rightarrow> ptr option" where
  "holder (ConnectionEstablished p) = Some p"
| "holder (ConnectionDestroyed p) = Some p"
| "holder (OtherFunctor (RemoveConnectionInLoop p)) = Some p"
| "holder _ = None"

text \<open>
  A connection is entered in the table under its own name only; \<open>held\<close> are the connections whose
  \<open>shared_ptr\<close> the user keeps.
\<close>

definition referenced :: "ptr list \<Rightarrow> ptr \<Rightarrow> ('v, 'k) process \<Rightarrow> bool" where
  "referenced held p w \<longleftrightarrow> p \<in> set held \<or> (\<exists>f \<in> set (pendingFunctors w). holder f = Some p) \<or>
     (case conns w p of None \<Rightarrow> False | Some c \<Rightarrow> connection_map (server w) (conn_name c) = Some p)"

text \<open>The destructor: its body logs, the members are the channel and the socket, which is closed.\<close>

definition TcpConnection_destroy :: "('k, 'y) server_sys_scheme \<Rightarrow> ptr \<Rightarrow> ('x, 'k, 'u, 'a, 'z) world_scheme \<Rightarrow>
    ('x, 'k, 'u, 'a, 'z) world_result" where
  "TcpConnection_destroy S p w =
     and_then (conn_deref p w) (\<lambda>c.
     Inr (w\<lparr>channel_heap := (channel_heap w)(conn_channel c := None), conns := (conns w)(p := None),
            kernel := Socket_destroy S (socket_fd c) (kernel w)\<rparr>))"

definition drop_references :: "('k, 'y) server_sys_scheme \<Rightarrow> ptr list \<Rightarrow> ptr \<Rightarrow> ('v, 'k) process \<Rightarrow> ('v, 'k) process_result" where
  "drop_references S held p w = (if referenced held p w then Inr w else TcpConnection_destroy S p w)"

section \<open>A server that goes away\<close>

text \<open>A connection with an empty output buffer, whose user writes again whenever a write is complete.\<close>

definition busy_conn :: "(nat server_cb, InetAddress) connection" where
  "busy_conn = \<lparr>state = kConnected, reading = False, conn_loop = 9, socket_fd = 5, conn_channel = 3,
     local_addr = InetAddress_of sample_address, peer_addr = InetAddress_of sample_address,
     input_buffer = \<lparr>buf = replicate 16 0, read_index = 8, write_index = 8\<rparr>,
     output_buffer = \<lparr>buf = replicate 16 0, read_index = 8, write_index = 8\<rparr>,
     high_water_mark = DefaultWaterMark, connection_callback = None, conn_close_callback = Some RemoveConnection,
     write_complete_callback = Some (UserCb 2), high_water_mark_callback = None, message_callback = None,
     conn_name = ''c'', sending_file = False, fd_to_send = 0, fd_offset = 0, file_count = 0\<rparr>"

definition busy_process :: "(nat, sample_host) process" where
  "busy_process = single_sample\<lparr>channels := [5 \<mapsto> 3],
     channel_heap := [3 \<mapsto> (new_channel 9 7 5)\<lparr>events := 3, index := 1, tie_obj := Some 7, tied := True\<rparr>],
     conns := [7 \<mapsto> busy_conn], pendingFunctors := [WriteComplete 7],
     server := (server single_sample)\<lparr>connection_map := [''c'' \<mapsto> 7]\<rparr>\<rparr>"

definition chargen :: "nat user_call \<Rightarrow> nat server_closure action list" where
  "chargen cl = (case cl of UserCall u p \<Rightarrow> [ActSend p [1, 2]] | UserMessage u p t \<Rightarrow> [])"

abbreviation run_batch :: "(nat, sample_host) process \<Rightarrow> (nat, sample_host) process_result" where
  "run_batch \<equiv> doingPendingFunctors (server_functor (\<lambda>_. sample_server_sys) (user_acts sample_server_sys chargen) (\<lambda>_. Inr))"

lemma busy_conn_ok:
  "buf_inv (input_buffer busy_conn)" "buf_inv (output_buffer busy_conn)" "conn_channel busy_conn = 3" "conn_loop busy_conn = 9"
  "message_callback busy_conn = None"
  by (simp_all add: busy_conn_def buf_inv_def vec_max_size_def)

lemma busy_process_inv: "world_inv sample_host_view (server_contract 9) busy_process"
proof -
  let ?ch = "(new_channel 9 7 5 :: nat server_closure channel_cb channel)\<lparr>events := 3, index := 1, tie_obj := Some 7, tied := True\<rparr>"
  have w: "channel_heap busy_process = [3 \<mapsto> ?ch]" "conns busy_process = [7 \<mapsto> busy_conn]"
    "pendingFunctors busy_process = [WriteComplete 7]" "channels busy_process = [5 \<mapsto> 3]" "kernel busy_process = kernel single_sample"
    by (simp_all add: busy_process_def)
  have "poller_inv (nv_interest sample_host_view) busy_process"
    by (auto simp: poller_inv_def w chan_ok_def watched_def new_channel_def Channel_new_def single_sample_def
        index_consts sample_host_view_def sample_view_def sample_interest_def)
  moreover have "single_process 9 busy_process"
    by (simp add: busy_process_def single_process_def single_sample_def sample_process_def sample_server_def EventLoopThreadPool_new_def)
  moreover have "conn_face busy_process = [7 \<mapsto> (3, True, False)]" by (simp add: conn_face_def w busy_conn_def fun_eq_iff)
  moreover note busy_conn_ok
  moreover have "ch_fd ?ch \<in> nv_opened sample_host_view (kernel busy_process)"
    by (simp add: w single_sample_def sample_host_view_def sample_view_def sample_opened_def)
  ultimately show ?thesis by (auto simp: world_inv_def w slots_ok_def new_channel_def)
qed

section \<open>Destroying a connection nobody uses\<close>

fun mentions :: "ptr \<Rightarrow> 'x channel_cb option \<Rightarrow> bool" where
  "mentions p (Some (ConnRead q)) \<longleftrightarrow> q = p"
| "mentions p (Some (ConnWrite q)) \<longleftrightarrow> q = p"
| "mentions p (Some (ConnClose q)) \<longleftrightarrow> q = p"
| "mentions p (Some (ConnError q)) \<longleftrightarrow> q = p"
| "mentions p _ \<longleftrightarrow> False"

text \<open>
  A connection owns its channel: the socket is the channel's descriptor, no other connection has the
  channel, and the callbacks of other channels are not about it.
\<close>

definition owns :: "ptr \<Rightarrow> ('v server_cb, InetAddress) connection \<Rightarrow> ('v, 'k) process \<Rightarrow> bool" where
  "owns p c w \<longleftrightarrow> conns w p = Some c \<and> (\<exists>ch. channel_heap w (conn_channel c) = Some ch \<and> ch_fd ch = socket_fd c) \<and>
     (\<forall>q ch. channel_heap w q = Some ch \<longrightarrow> q \<noteq> conn_channel c \<longrightarrow>
        \<not> mentions p (read_callback ch) \<and> \<not> mentions p (write_callback ch) \<and> \<not> mentions p (close_callback ch) \<and>
        \<not> mentions p (error_callback ch)) \<and>
     (\<forall>p' c'. conns w p' = Some c' \<longrightarrow> p' \<noteq> p \<longrightarrow> conn_channel c' \<noteq> conn_channel c)"

text \<open>Nothing uses it any more: its channel is out of the poller and no queued functor works on it.\<close>

definition unused :: "ptr \<Rightarrow> ('v server_cb, InetAddress) connection \<Rightarrow> ('v, 'k) process \<Rightarrow> bool" where
  "unused p c w \<longleftrightarrow> owns p c w \<and> (\<forall>ch. channel_heap w (conn_channel c) = Some ch \<longrightarrow> index ch = kNew) \<and>
     (\<forall>f \<in> set (pendingFunctors w). subject f \<noteq> Some p)"

lemma owns_step:
  assumes "owns p c w" and "channel_heap w (conn_channel c) = Some ch" and "ch_face ch' = ch_face ch"
    and "channel_heap w' = (channel_heap w)(conn_channel c \<mapsto> ch')" and "conns w' = (conns w)(p \<mapsto> c')"
    and "conn_channel c' = conn_channel c" "socket_fd c' = socket_fd c"
  shows "owns p c' w'"
  using assms by (auto simp: owns_def ch_face_def)

definition close_laws :: "('k, 'y) server_sys_scheme \<Rightarrow> 'k net_view \<Rightarrow> bool" where
  "close_laws S V \<longleftrightarrow> (\<forall>k fd. nv_opened V (close_fd S k fd) = nv_opened V k - {fd} \<and>
     (nv_interest V k fd = None \<longrightarrow> nv_interest V (close_fd S k fd) = nv_interest V k))"


lemma call_ok_other:
  assumes "call_ok C F cl" and "cl = CallRead cb t \<or> cl = Call cb" and "\<not> mentions p (Some cb)"
  shows "call_ok C (F(p := None)) cl"
  using assms by (cases cb) auto

lemma slots_ok_other:
  assumes "slots_ok C F ch" and "\<not> mentions p (read_callback ch)" "\<not> mentions p (write_callback ch)"
    "\<not> mentions p (close_callback ch)" "\<not> mentions p (error_callback ch)"
  shows "slots_ok C (F(p := None)) ch"
  unfolding slots_ok_def
proof (intro conjI allI impI)
  fix cb t assume "read_callback ch = Some cb"
  with assms(1,2) show "call_ok C (F(p := None)) (CallRead cb t)"
    by (intro call_ok_other [of C F _ cb t]) (auto simp: slots_ok_def)
next
  fix cb assume "cb \<in> set_option (write_callback ch) \<union> set_option (close_callback ch) \<union> set_option (error_callback ch)"
  with assms show "call_ok C (F(p := None)) (Call cb)"
    by (intro call_ok_other [of C F _ cb]) (auto simp: slots_ok_def)
qed

lemma functor_ok_other:
  assumes "functor_ok (server_contract L) F f" and "subject f \<noteq> Some p"
  shows "functor_ok (server_contract L) (F(p := None)) f"
  using assms by (cases f) auto

text \<open>
  Destroying a connection that nothing uses any more is safe: the invariant of the loop and the
  server holds on, and the descriptor is closed, so that the kernel may give it out again.
\<close>

lemma destroy_unused:
  fixes w :: "('v, 'k) process"
  assumes "world_inv V (server_contract L) w" and "unused p c w" and "close_laws S V"
  shows "\<exists>w'. TcpConnection_destroy S p w = Inr w' \<and> world_inv V (server_contract L) w' \<and>
    conns w' = (conns w)(p := None) \<and> socket_fd c \<notin> nv_opened V (kernel w')"
proof -
  let ?C = "server_contract L :: ('v server_closure, 'v server_cb, ('v, 'k, unit) process_ext) contract"
  note inv = assms(1)
  from assms(2) obtain ch where
    c: "conns w p = Some c" "channel_heap w (conn_channel c) = Some ch" "index ch = kNew" "ch_fd ch = socket_fd c"
    and fs: "\<And>f. f \<in> set (pendingFunctors w) \<Longrightarrow> subject f \<noteq> Some p"
    and qs: "\<And>q ch. channel_heap w q = Some ch \<Longrightarrow> q \<noteq> conn_channel c \<Longrightarrow> \<not> mentions p (read_callback ch) \<and>
      \<not> mentions p (write_callback ch) \<and> \<not> mentions p (close_callback ch) \<and> \<not> mentions p (error_callback ch)"
    and ps: "\<And>p' c'. conns w p' = Some c' \<Longrightarrow> p' \<noteq> p \<Longrightarrow> conn_channel c' \<noteq> conn_channel c"
    unfolding unused_def owns_def by blast
  let ?k = "close_fd S (kernel w) (socket_fd c)"
  let ?w = "w\<lparr>channel_heap := (channel_heap w)(conn_channel c := None), conns := (conns w)(p := None), kernel := ?k\<rparr>"
  have "channels w (socket_fd c) \<noteq> Some (conn_channel c)"
    using poller_invD(1) [OF world_invD(1) [OF inv] c(2)] c(3,4) by (simp add: chan_ok_def)
  then have "channels w (socket_fd c) = None" using own_slot [OF inv c(2)] c(4) by auto
  then have "nv_interest V (kernel w) (socket_fd c) = None"
    using poller_invD(3) [OF world_invD(1) [OF inv]] by (simp add: watched_def)
  then have io: "nv_interest V ?k = nv_interest V (kernel w)" "nv_opened V ?k = nv_opened V (kernel w) - {socket_fd c}"
    using assms(3) by (simp_all add: close_laws_def)
  have "poller_inv (nv_interest V) (w\<lparr>channel_heap := (channel_heap w)(conn_channel c := None)\<rparr>)"
    by (rule poller_inv_drop_channel [OF world_invD(1) [OF inv] c(2,3)])
  then have pinv: "poller_inv (nv_interest V) ?w" by (rule poller_inv_cong) (simp_all add: io)
  have face: "conn_face ?w = (conn_face w)(p := None)" by (auto simp: conn_face_def fun_eq_iff)
  have "world_inv V (server_contract L) ?w" unfolding world_inv_def
  proof (intro conjI allI impI ballI pinv)
    fix q1 q2 d1 d2 assume "channel_heap ?w q1 = Some d1" "channel_heap ?w q2 = Some d2" "ch_fd d1 = ch_fd d2"
    then show "q1 = q2" using world_invD(2) [OF inv, of q1 d1 q2 d2] by (simp split: if_splits)
  next
    fix q d assume "channel_heap ?w q = Some d"
    then have d: "channel_heap w q = Some d" "q \<noteq> conn_channel c" by (simp_all split: if_splits)
    then show "ch_fd d \<in> nv_opened V (kernel ?w)"
      using world_invD(3) [OF inv d(1)] world_invD(2) [OF inv d(1) c(2)] c(4) by (auto simp: io)
    show "slots_ok ?C (conn_face ?w) d"
      unfolding face using world_invD(3) [OF inv d(1)] qs [OF d] by (intro slots_ok_other) auto
  next
    fix f assume "f \<in> set (pendingFunctors ?w)"
    then show "functor_ok ?C (conn_face ?w) f"
      unfolding face using world_invD(5) [OF inv, of f] fs [of f] by (intro functor_ok_other) auto
  qed (use world_invD(4) [OF inv] ps world_invD(6,7,8) [OF inv] in \<open>fastforce simp: split: if_splits\<close>)+
  then show ?thesis using c(1) io(2) by (simp add: TcpConnection_destroy_def conn_deref_Some Socket_destroy_def)
qed

section \<open>Closing and destroying\<close>

lemma user_acts_nothing: "user_acts S (\<lambda>_. []) = quiet_user"
  by (simp add: fun_eq_iff user_acts_def)

lemma quiet_user_safe: "loop_laws (Sys L) V \<Longrightarrow> user_safe V (server_contract L) (server_user Sys quiet_user)"
  by (rule server_user_safe [where Sys = Sys and L = L and A = "\<lambda>_. []", unfolded user_acts_nothing]) simp_all

text \<open>The first half, when the peer has gone: the connection leaves the table and its destruction is queued.\<close>

lemma close_step:
  fixes w :: "('v, 'k) process"
  assumes laws: "loop_laws (Sys L) V" and inv: "world_inv V (server_contract L) w"
    and c: "conns w p = Some c" "channel_heap w (conn_channel c) = Some ch"
    and cbs: "conn_close_callback c = Some RemoveConnection" "connection_callback c \<noteq> Some RemoveConnection"
  obtains w1 ch1 where "handleClose (Sys L) (server_user Sys quiet_user) p w = Inr w1" "world_inv V (server_contract L) w1"
    "channel_heap w1 = (channel_heap w)(conn_channel c \<mapsto> ch1)" "ch_face ch1 = ch_face ch"
    "conns w1 = (conns w)(p \<mapsto> c\<lparr>state := kDisConnected\<rparr>)"
    "pendingFunctors w1 = pendingFunctors w @ [ConnectionDestroyed p]" "connection_map (server w1) (conn_name c) = None"
proof -
  let ?U = "server_user Sys quiet_user" and ?c = "c\<lparr>state := kDisConnected\<rparr>"
  let ?w0 = "conn_set p ?c w"
  have one: "this_loop w = L" "srv_loop (server w) = L" "conn_loop c = L"
    using world_invD(6) [OF inv] world_invD(4) [OF inv c(1)] by (simp_all add: single_process_def)
  have "same_face c ?c" using world_invD(4) [OF inv c(1)] by (simp add: same_face_def)
  note inv0 = safe_conn_set(1) [OF inv c(1) this]
  have ch0: "channel_heap ?w0 (conn_channel c) = Some ch" using c(2) by simp
  from set_events_ok [OF tcp_epoll [OF loop_tcp [OF laws]] world_invD(1) [OF inv0] ch0 _ own_slot [OF inv0 ch0], of "\<lambda>_. kNoneEvent"]
    world_invD(3) [OF inv0 ch0] obtain k where
    k: "disableAll (Sys L) (conn_channel c) ?w0 = Inr (asked (conn_channel c) ch kNoneEvent k ?w0)" by (auto simp: disableAll_def)
  define w2 where "w2 = asked (conn_channel c) ch kNoneEvent k ?w0"
  have proc: "this_loop w2 = L" "server w2 = server w"
    using one by (simp_all add: w2_def asked_def conn_set_def)
  have "call_if_set ?U connection_callback (\<lambda>u. UserCall u p) p w2 = Inr w2"
    using cbs(2) by (intro quiet_connection_callback [of _ _ ?c]) (simp_all add: w2_def)
  then have run: "handleClose (Sys L) ?U p w = removeConnection Sys p w2"
    using c cbs(1) k by (simp add: handleClose_def conn_deref_Some setState_ok w2_def [symmetric])
      (simp add: call_if_set_def conn_deref_Some w2_def)
  let ?u = "upd_server (\<lambda>s. s\<lparr>connection_map := (connection_map s)(conn_name c := None)\<rparr>) w2"
  have rm: "removeConnection Sys p w2 = Inr (queueInLoop (Sys L) (thread_id w2) (ConnectionDestroyed p) ?u)"
    using proc one by (simp add: removeConnection_def run_at_def removeConnectionInLoop_def conn_deref_Some w2_def queue_at_def upd_server_def)
  have "world_safe V (server_contract L) w (handleClose (Sys L) ?U p w)"
    by (rule safe_handleClose [OF loop_tcp [OF laws] quiet_user_safe [where Sys = Sys and L = L, OF laws] inv conn_at_Some [OF c(1)]])
  then have "world_inv V (server_contract L) (queueInLoop (Sys L) (thread_id w2) (ConnectionDestroyed p) ?u)"
    unfolding run rm by (simp add: world_safe_def safe_in_def)
  then show thesis
    by (rule that [of _ "ch\<lparr>events := kNoneEvent, index := new_index ch kNoneEvent\<rparr>", OF run [unfolded rm]]) (simp_all add: w2_def upd_server_def ch_face_def)
qed

text \<open>The second half: the queued destruction takes the channel out of the poller.\<close>

lemma destroy_step:
  fixes w :: "('v, 'k) process"
  assumes laws: "tcp_laws S V" and inv: "world_inv V C w"
    and c: "conns w p = Some c" "state c = kDisConnected" "channel_heap w (conn_channel c) = Some ch"
    and pend: "pendingFunctors w = [ConnectionDestroyed p]"
  obtains w2 where "doingPendingFunctors (run_functor S U fns) w = Inr w2" "world_inv V C w2" "server w2 = server w"
    "channel_heap w2 = (channel_heap w)(conn_channel c \<mapsto> ch\<lparr>index := kNew\<rparr>)" "conns w2 = conns w" "pendingFunctors w2 = []"
proof -
  let ?w = "w\<lparr>calling_pending_functors := True, pendingFunctors := []\<rparr>"
  have inv0: "world_inv V C ?w" by (rule world_inv_flags [OF inv]) simp_all
  have ch0: "channel_heap ?w (conn_channel c) = Some ch" using c by simp
  from removeChannel_ok [OF tcp_epoll [OF laws] world_invD(1) [OF inv0] ch0] obtain w1 where
    w1: "removeChannel S (conn_channel c) ?w = Inr w1" "channel_heap w1 = (channel_heap w)(conn_channel c \<mapsto> ch\<lparr>index := kNew\<rparr>)"
      "poller_only ?w w1" by auto
  have sel: "conns w1 = conns w" "pendingFunctors w1 = []" "server w1 = server w"
    by (subst w1(3) [unfolded poller_only_def], simp)+
  have inv1: "world_inv V C w1"
    using safe_channel_op(5) [OF laws inv0, of "conn_channel c"] ch0 w1(1) by (auto simp: chan_at_def world_safe_def safe_in_def)
  have "doingPendingFunctors (run_functor S U fns) w = Inr (w1\<lparr>calling_pending_functors := False\<rparr>)"
    using c w1(1) pend by (simp add: doingPendingFunctors_def connectionDestroyed_def conn_deref_Some)
  then show thesis
    by (rule that) (use w1(2) sel in \<open>simp_all add: world_inv_flags [OF inv1]\<close>)
qed

section \<open>Properties\<close>


text \<open>A kernel of an interest list and sets of open and of half-closed descriptors, and a process with one connection.\<close>

record small_kernel =
  sk_interest :: "int \<rightharpoonup> epoll_event"
  sk_open :: "int set"
  sk_shut :: "int set"

fun small_ctl :: "small_kernel \<Rightarrow> epoll_op \<Rightarrow> int \<Rightarrow> epoll_event \<Rightarrow> unit sysret \<times> small_kernel" where
  "small_ctl k EPOLL_CTL_ADD fd ev =
     (if sk_interest k fd = None then (SOk (), k\<lparr>sk_interest := (sk_interest k)(fd \<mapsto> ev)\<rparr>) else (SErr 17, k))"
| "small_ctl k EPOLL_CTL_MOD fd ev = (SOk (), k\<lparr>sk_interest := (sk_interest k)(fd \<mapsto> ev)\<rparr>)"
| "small_ctl k EPOLL_CTL_DEL fd ev = (SOk (), k\<lparr>sk_interest := (sk_interest k)(fd := None)\<rparr>)"

definition small_sys :: "small_kernel server_sys" where
  "small_sys = \<lparr>epoll_ctl = small_ctl, epoll_wait = (\<lambda>k l t. (SOk [], k)), wall_clock = (\<lambda>k. (Timestamp 1, k)),
     eventfd_read = (\<lambda>k fd. (SErr 11, k)), eventfd_write = (\<lambda>k fd. (SOk 8, k)), epoll_create = (\<lambda>k. (SErr 1, k)),
     timerfd_create = (\<lambda>k. (SErr 1, k)), eventfd_create = (\<lambda>k. (SErr 1, k)),
     close_fd = (\<lambda>k fd. k\<lparr>sk_interest := (sk_interest k)(fd := None), sk_open := sk_open k - {fd}\<rparr>),
     sock_write = (\<lambda>k fd bs. (SErr 32, k)), sock_readv = (\<lambda>k fd ls. (SOk [], k)),
     sock_sendfile = (\<lambda>k out_fd in_fd off count. ((SErr 32, off), k)), sock_error = (\<lambda>k fd. (SOk 104, k)),
     sock_shutdown_wr = (\<lambda>k fd. (SOk (), k\<lparr>sk_shut := insert fd (sk_shut k)\<rparr>)), sock_keepalive = (\<lambda>k fd on. k),
     sock_create = (\<lambda>k. (SErr 1, k)), sock_setopt = (\<lambda>k fd opt v. k), sock_bind = (\<lambda>k fd a. (SErr 1, k)),
     sock_listen = (\<lambda>k fd backlog. (SErr 1, k)), sock_accept = (\<lambda>k fd. (SErr 11, k)), sock_name = (\<lambda>k fd. (SErr 1, k))\<rparr>"

definition small_view :: "small_kernel net_view" where
  "small_view = \<lparr>nv_interest = sk_interest, nv_opened = sk_open, nv_out = \<lambda>_ _. [], nv_shut = sk_shut\<rparr>"

lemma small_laws: "loop_laws small_sys small_view" "close_laws small_sys small_view"
proof -
  have ctl: "sk_shut (snd (small_ctl k operation fd ev)) = sk_shut k" for k operation fd ev
    by (cases "(k, operation, fd, ev)" rule: small_ctl.cases) auto
  have "\<exists>fds. distinct fds \<and> fds = []" by simp
  then have "epoll_laws small_sys (nv_interest small_view) (nv_opened small_view)"
    by (auto simp: epoll_laws_def small_sys_def small_view_def)
  then have "tcp_laws small_sys small_view"
    using ctl by (auto simp: tcp_laws_def io_same_def small_sys_def small_view_def)
  then show "loop_laws small_sys small_view"
    by (auto simp: loop_laws_def readv_bounded_def quiet_call_def small_sys_def)
  show "close_laws small_sys small_view" by (auto simp: close_laws_def small_sys_def small_view_def fun_upd_idem)
qed

definition small_process :: "(nat, small_kernel) process" where
  "small_process = (first_process 9
     \<lparr>channels = [5 \<mapsto> 3], channel_heap = [3 \<mapsto> (new_channel 9 7 5)\<lparr>events := 3, index := 1\<rparr>],
      kernel = \<lparr>sk_interest = [5 \<mapsto> (3, 3)], sk_open = {5}, sk_shut = {}\<rparr>, looping = True, quit_flag = False, thread_id = 100,
      pollReturnTime = Timestamp 0, wakeup_fd = 4, wakeup_channel = 1, active_channels = [], pendingFunctors = [],
      calling_pending_functors = False\<rparr> (server busy_process))\<lparr>conns := [7 \<mapsto> busy_conn]\<rparr>"

lemma small_process_inv: "world_inv small_view (server_contract 9) small_process"
proof -
  have w: "channel_heap small_process = [3 \<mapsto> (new_channel 9 7 5)\<lparr>events := 3, index := 1\<rparr>]" "conns small_process = [7 \<mapsto> busy_conn]"
    "pendingFunctors small_process = []" "channels small_process = [5 \<mapsto> 3]"
    "kernel small_process = \<lparr>sk_interest = [5 \<mapsto> (3, 3)], sk_open = {5}, sk_shut = {}\<rparr>"
    by (simp_all add: small_process_def first_process_def)
  have "poller_inv (nv_interest small_view) small_process"
    by (auto simp: poller_inv_def w chan_ok_def watched_def new_channel_def Channel_new_def index_consts small_view_def)
  moreover have "single_process 9 small_process"
    by (simp add: small_process_def first_process_def busy_process_def single_process_def single_sample_def sample_server_def
        EventLoopThreadPool_new_def)
  moreover have "conn_face small_process 7 \<noteq> None" by (simp add: conn_face_def w)
  ultimately show ?thesis
    using busy_conn_ok by (auto simp: world_inv_def w slots_ok_def new_channel_def Channel_new_def small_view_def)
qed


text \<open>
  C35: the bare \<open>this\<close> in the closures of a connection can outlive it.  A server is destroyed while
  the note of a complete write is queued for a connection whose user then writes again: the
  next note is queued, the connection is destroyed at the end of the batch, as the last owner
  goes with it, and the note runs on a connection that is no more.
\<close>

theorem write_complete_dangles:
  "world_inv sample_host_view (server_contract 9) busy_process \<and>
   (\<exists>w1 w2 w3. TcpServer_destroy (\<lambda>_. sample_server_sys) [(''c'', 7)] busy_process = Inr w1 \<and> run_batch w1 = Inr w2 \<and>
     pendingFunctors w2 = [WriteComplete 7] \<and> \<not> referenced [] 7 w2 \<and> TcpConnection_destroy sample_server_sys 7 w2 = Inr w3 \<and>
     run_batch w3 = Inl NullPointer)"
proof -
  have "(case and_then (TcpServer_destroy (\<lambda>_. sample_server_sys) [(''c'', 7)] busy_process) run_batch of
      Inl e \<Rightarrow> False
    | Inr w \<Rightarrow> pendingFunctors w = [WriteComplete 7] \<and> \<not> referenced [] 7 w \<and> \<not> Option.is_none (conns w 7) \<and>
        map_sum id (\<lambda>_. ()) (and_then (TcpConnection_destroy sample_server_sys 7 w) run_batch) = Inl NullPointer)"
    by code_simp
  then obtain w2 where w2: "and_then (TcpServer_destroy (\<lambda>_. sample_server_sys) [(''c'', 7)] busy_process) run_batch = Inr w2"
    "pendingFunctors w2 = [WriteComplete 7]" "\<not> referenced [] 7 w2" "conns w2 7 \<noteq> None"
    "map_sum id (\<lambda>_. ()) (and_then (TcpConnection_destroy sample_server_sys 7 w2) run_batch) = Inl NullPointer"
    by (auto simp: Option.is_none_def split: sum.splits)
  from w2(4) obtain w3 where w3: "TcpConnection_destroy sample_server_sys 7 w2 = Inr w3"
    by (auto simp: TcpConnection_destroy_def conn_deref_Some)
  with w2(5) have "run_batch w3 = Inl NullPointer" by (cases "run_batch w3") auto
  with w2 w3 busy_process_inv show ?thesis by (auto simp: and_then_Inr_iff)
qed

end
