(* ===== verification/Threads.thy ===== *)
theory Threads
  imports Printing
begin

text \<open>
  \<open>CurrentThread\<close> (include/CurrentThread.h, src/CurrentThread.cc), \<open>Thread\<close> (include/Thread.h,
  src/Thread.cc) and \<open>EventLoopThread\<close> (include/EventLoopThread.h, src/EventLoopThread.cc).  The
  owner of an event-loop thread and the thread itself run concurrently: their steps are
  relations, one rule per access to the state they share.  Sections under the mutex are one
  step; the accesses the code makes without it are steps of their own.
\<close>

section \<open>CurrentThread\<close>

text \<open>\<open>gettid\<close> is what the system call returns in the thread, \<open>cached\<close> its \<open>t_cachedTid\<close>.\<close>

definition cacheTid :: "int \<Rightarrow> int \<Rightarrow> int" where
  "cacheTid gettid cached = (if cached = 0 then gettid else cached)"

definition current_tid :: "int \<Rightarrow> int \<Rightarrow> int \<times> int" where
  "current_tid gettid cached =
     (let cached' = (if cached = 0 then cacheTid gettid cached else cached) in (cached', cached'))"

lemma current_tid_twice:
  assumes "current_tid gettid 0 = (t, cached)"
  shows "t = gettid" and "current_tid other cached = (gettid, gettid) \<or> gettid = 0"
  using assms by (auto simp: current_tid_def cacheTid_def)

section \<open>Thread\<close>

text \<open>Where the function that \<open>Thread::start\<close> gives to \<open>std::thread\<close> is.\<close>

datatype body_pc = NotCreated | AtTid | AtSetValue | InFunc | Exited

record thread =
  th_name :: string
  th_started :: bool
  th_joined :: bool
  th_tid :: int
  th_promise :: bool
  th_body :: body_pc
  th_detached :: bool

definition setDefaultName :: "32 word \<Rightarrow> thread \<Rightarrow> thread \<times> 32 word" where
  "setDefaultName num_created t =
     (let num = num_created + 1
      in (if th_name t = '''' then t\<lparr>th_name := snprintf 32 (''Thread'' @ dec_int (sint num))\<rparr> else t, num))"

definition Thread_new :: "32 word \<Rightarrow> string \<Rightarrow> thread \<times> 32 word" where
  "Thread_new num_created name =
     setDefaultName num_created
       \<lparr>th_name = name, th_started = False, th_joined = False, th_tid = 0, th_promise = False,
        th_body = NotCreated, th_detached = False\<rparr>"

text \<open>
  \<open>start\<close> up to the wait for the future; the wait ends when \<open>th_promise\<close> holds.  Replacing a
  \<open>std::thread\<close> that was neither joined nor detached terminates the process.
\<close>

definition Thread_start :: "thread \<Rightarrow> error + thread" where
  "Thread_start t =
     (if th_body t \<noteq> NotCreated \<and> \<not> th_joined t \<and> \<not> th_detached t then Inl Terminated
      else Inr (t\<lparr>th_started := True, th_promise := False, th_body := AtTid\<rparr>))"

inductive thread_body :: "int \<Rightarrow> thread \<Rightarrow> thread \<Rightarrow> bool" for tid where
  get_tid: "th_body t = AtTid \<Longrightarrow> thread_body tid t (t\<lparr>th_tid := tid, th_body := AtSetValue\<rparr>)"
| set_value: "th_body t = AtSetValue \<Longrightarrow> thread_body tid t (t\<lparr>th_promise := True, th_body := InFunc\<rparr>)"

text \<open>\<open>join\<close> up to the wait for the thread, which ends when it is \<open>Exited\<close>.\<close>

definition Thread_join :: "thread \<Rightarrow> error + thread" where
  "Thread_join t =
     and_then (guard_r AssertionFailed (th_started t) t) (\<lambda>t1.
     and_then (guard_r AssertionFailed (\<not> th_joined t1) t1) (\<lambda>t2.
     Inr (if th_started t2 \<and> \<not> th_joined t2 then t2\<lparr>th_joined := True\<rparr> else t2)))"

definition Thread_destroy :: "thread \<Rightarrow> thread" where
  "Thread_destroy t = (if th_started t \<and> \<not> th_joined t then t\<lparr>th_detached := True\<rparr> else t)"

text \<open>A future that is ready means that the tid is known.\<close>

lemma tid_known_when_started:
  assumes "(thread_body tid)\<^sup>*\<^sup>* t t'" and "Thread_start t0 = Inr t" and "th_promise t'"
  shows "th_tid t' = tid"
proof -
  have "th_body t' = AtTid \<and> \<not> th_promise t' \<or> th_tid t' = tid" using assms(1)
  proof (induction rule: rtranclp_induct)
    case base
    show ?case using assms(2) by (auto simp: Thread_start_def split: if_splits)
  next
    case (step y z)
    from step(2) show ?case by (cases rule: thread_body.cases) (use step.IH in auto)
  qed
  with assms(3) show ?thesis by blast
qed

section \<open>EventLoopThread\<close>

text \<open>
  Where \<open>ThreadFunc\<close> is: constructing its loop, in the init callback, before the test of
  \<open>exiting_\<close>, before publishing the loop, in \<open>loop()\<close> before its first test of \<open>quit_\<close>, before it
  clears \<open>quit_\<close>, in the loop proper, before withdrawing the loop, returned.
\<close>

datatype func_pc = Constructing | InCallback | TestExiting | Publishing |
  LoopEntry | LoopClear | LoopBody | Unpublishing | FuncReturned

text \<open>
  Where the owner is: before \<open>startLoop\<close>, waiting in \<open>Thread::start\<close>, waiting for the loop, about
  to read \<open>loop_\<close> again without the mutex, returned with what it read; then the destructor:
  before its test of \<open>loop_\<close>, about to call \<open>quit\<close>, before its test of \<open>thread_\<close>, joining, done.
\<close>

datatype owner_pc = Fresh | AwaitTid | AwaitLoop | ReadingLoop | HasLoop "ptr option" |
  TestLoop | Quitting | TestThread | Joining | Destroyed

record loop_thread =
  lt_thread :: "thread option"
  lt_loop :: "ptr option"
  lt_exiting :: bool
  lt_callback :: bool
  lt_name :: string
  lt_num_created :: "32 word"
  lt_quit :: bool
  lt_func :: func_pc
  lt_owner :: owner_pc

definition EventLoopThread_new :: "32 word \<Rightarrow> bool \<Rightarrow> string \<Rightarrow> loop_thread" where
  "EventLoopThread_new num_created has_callback name =
     \<lparr>lt_thread = None, lt_loop = None, lt_exiting = False, lt_callback = has_callback, lt_name = name,
      lt_num_created = num_created, lt_quit = False, lt_func = Constructing, lt_owner = Fresh\<rparr>"

text \<open>The first half of \<open>startLoop\<close>: the assertion, the new thread and its start.\<close>

definition startLoop :: "loop_thread \<Rightarrow> error + loop_thread" where
  "startLoop c =
     and_then (guard_r AssertionFailed (lt_thread c = None) c) (\<lambda>_.
     let (t, n) = Thread_new (lt_num_created c) (lt_name c)
     in and_then (Thread_start t) (\<lambda>t'.
        Inr (c\<lparr>lt_thread := Some t', lt_num_created := n, lt_owner := AwaitTid\<rparr>)))"

text \<open>The waits of \<open>startLoop\<close> and the read of \<open>loop_\<close> it returns, after the mutex is released.\<close>

inductive startLoop_step :: "loop_thread \<Rightarrow> loop_thread \<Rightarrow> bool" where
  tid_known: "lt_owner c = AwaitTid \<Longrightarrow> lt_thread c = Some t \<Longrightarrow> th_promise t \<Longrightarrow>
     startLoop_step c (c\<lparr>lt_owner := AwaitLoop\<rparr>)"
| loop_seen: "lt_owner c = AwaitLoop \<Longrightarrow> lt_loop c \<noteq> None \<Longrightarrow> startLoop_step c (c\<lparr>lt_owner := ReadingLoop\<rparr>)"
| read_loop: "lt_owner c = ReadingLoop \<Longrightarrow> startLoop_step c (c\<lparr>lt_owner := HasLoop (lt_loop c)\<rparr>)"

text \<open>
  \<open>ThreadFunc\<close>, with \<open>L\<close> the address of its loop; \<open>quits\<close> says whether the init callback calls
  \<open>quit\<close> of the loop it is given.
\<close>

definition in_func :: "loop_thread \<Rightarrow> bool" where
  "in_func c \<longleftrightarrow> (\<exists>t. lt_thread c = Some t \<and> th_body t = InFunc)"

inductive ThreadFunc_step :: "ptr \<Rightarrow> bool \<Rightarrow> loop_thread \<Rightarrow> loop_thread \<Rightarrow> bool" for L quits where
  construct: "in_func c \<Longrightarrow> lt_func c = Constructing \<Longrightarrow>
     ThreadFunc_step L quits c (c\<lparr>lt_func := (if lt_callback c then InCallback else TestExiting)\<rparr>)"
| callback: "in_func c \<Longrightarrow> lt_func c = InCallback \<Longrightarrow>
     ThreadFunc_step L quits c (c\<lparr>lt_quit := lt_quit c \<or> quits, lt_func := TestExiting\<rparr>)"
| go_on: "in_func c \<Longrightarrow> lt_func c = TestExiting \<Longrightarrow> \<not> lt_exiting c \<Longrightarrow>
     ThreadFunc_step L quits c (c\<lparr>lt_func := Publishing\<rparr>)"
| give_up: "in_func c \<Longrightarrow> lt_func c = TestExiting \<Longrightarrow> lt_exiting c \<Longrightarrow>
     ThreadFunc_step L quits c (c\<lparr>lt_func := FuncReturned, lt_thread := map_option (\<lambda>t. t\<lparr>th_body := Exited\<rparr>) (lt_thread c)\<rparr>)"
| publish: "in_func c \<Longrightarrow> lt_func c = Publishing \<Longrightarrow>
     ThreadFunc_step L quits c (c\<lparr>lt_loop := Some L, lt_func := LoopEntry\<rparr>)"
| enter: "in_func c \<Longrightarrow> lt_func c = LoopEntry \<Longrightarrow> \<not> lt_quit c \<Longrightarrow> ThreadFunc_step L quits c (c\<lparr>lt_func := LoopClear\<rparr>)"
| enter_quit: "in_func c \<Longrightarrow> lt_func c = LoopEntry \<Longrightarrow> lt_quit c \<Longrightarrow> ThreadFunc_step L quits c (c\<lparr>lt_func := Unpublishing\<rparr>)"
| clear: "in_func c \<Longrightarrow> lt_func c = LoopClear \<Longrightarrow>
     ThreadFunc_step L quits c (c\<lparr>lt_quit := False, lt_func := LoopBody\<rparr>)"
| leave: "in_func c \<Longrightarrow> lt_func c = LoopBody \<Longrightarrow> lt_quit c \<Longrightarrow> ThreadFunc_step L quits c (c\<lparr>lt_func := Unpublishing\<rparr>)"
| withdraw: "in_func c \<Longrightarrow> lt_func c = Unpublishing \<Longrightarrow>
     ThreadFunc_step L quits c (c\<lparr>lt_loop := None, lt_func := FuncReturned,
       lt_thread := map_option (\<lambda>t. t\<lparr>th_body := Exited\<rparr>) (lt_thread c)\<rparr>)"

inductive destructor_step :: "loop_thread \<Rightarrow> loop_thread \<Rightarrow> bool" where
  set_exiting: "lt_owner c = HasLoop r \<or> lt_owner c = Fresh \<Longrightarrow>
     destructor_step c (c\<lparr>lt_exiting := True, lt_owner := TestLoop\<rparr>)"
| no_loop: "lt_owner c = TestLoop \<Longrightarrow> lt_loop c = None \<Longrightarrow> destructor_step c (c\<lparr>lt_owner := TestThread\<rparr>)"
| a_loop: "lt_owner c = TestLoop \<Longrightarrow> lt_loop c \<noteq> None \<Longrightarrow> destructor_step c (c\<lparr>lt_owner := Quitting\<rparr>)"
| quit: "lt_owner c = Quitting \<Longrightarrow> destructor_step c (c\<lparr>lt_quit := True, lt_owner := TestThread\<rparr>)"
| no_thread: "lt_owner c = TestThread \<Longrightarrow> lt_thread c = None \<Longrightarrow> destructor_step c (c\<lparr>lt_owner := Destroyed\<rparr>)"
| join: "lt_owner c = TestThread \<Longrightarrow> lt_thread c = Some t \<Longrightarrow> Thread_join t = Inr t' \<Longrightarrow>
     destructor_step c (c\<lparr>lt_thread := Some t', lt_owner := Joining\<rparr>)"
| joined: "lt_owner c = Joining \<Longrightarrow> lt_thread c = Some t \<Longrightarrow> th_body t = Exited \<Longrightarrow>
     destructor_step c (c\<lparr>lt_owner := Destroyed\<rparr>)"

text \<open>The steps of the thread before it reaches \<open>ThreadFunc\<close>.\<close>

inductive body_step :: "int \<Rightarrow> loop_thread \<Rightarrow> loop_thread \<Rightarrow> bool" for tid where
  body: "lt_thread c = Some t \<Longrightarrow> thread_body tid t t' \<Longrightarrow> body_step tid c (c\<lparr>lt_thread := Some t'\<rparr>)"

text \<open>The owner starting the loop, without and with the rest of its life.\<close>

definition handshake_step :: "int \<Rightarrow> ptr \<Rightarrow> loop_thread \<Rightarrow> loop_thread \<Rightarrow> bool" where
  "handshake_step tid L c c' \<longleftrightarrow> startLoop_step c c' \<or> body_step tid c c' \<or> ThreadFunc_step L False c c'"

definition life_step :: "int \<Rightarrow> ptr \<Rightarrow> bool \<Rightarrow> loop_thread \<Rightarrow> loop_thread \<Rightarrow> bool" where
  "life_step tid L quits c c' \<longleftrightarrow>
     startLoop_step c c' \<or> body_step tid c c' \<or> ThreadFunc_step L quits c c' \<or> destructor_step c c'"

end
