(* ===== verification/Thread_Properties.thy ===== *)
theory Thread_Properties
  imports Threads
begin

text \<open>
  What the start of an event-loop thread guarantees: \<open>startLoop\<close> always returns, and it returns
  the address of a loop that is about to run.  Two schedules in which the owner waits for ever
  follow: the destructor that runs before the loop has cleared \<open>quit_\<close>, and the init callback
  that quits its own loop.
\<close>

section \<open>The handshake\<close>

text \<open>How many steps of the owner and of the thread are left at most.\<close>

fun owner_left :: "owner_pc \<Rightarrow> nat" where
  "owner_left AwaitTid = 3"
| "owner_left AwaitLoop = 2"
| "owner_left ReadingLoop = 1"
| "owner_left _ = 0"

fun body_left :: "body_pc \<Rightarrow> nat" where
  "body_left AtTid = 2"
| "body_left AtSetValue = 1"
| "body_left _ = 0"

fun func_left :: "func_pc \<Rightarrow> nat" where
  "func_left Constructing = 8"
| "func_left InCallback = 7"
| "func_left TestExiting = 6"
| "func_left Publishing = 5"
| "func_left LoopEntry = 4"
| "func_left LoopClear = 3"
| "func_left LoopBody = 2"
| "func_left Unpublishing = 1"
| "func_left FuncReturned = 0"

definition startup_left :: "loop_thread \<Rightarrow> nat" where
  "startup_left c = owner_left (lt_owner c) + func_left (lt_func c) +
     (case lt_thread c of None \<Rightarrow> 0 | Some t \<Rightarrow> body_left (th_body t))"

lemma handshake_decreases: "handshake_step tid L c c' \<Longrightarrow> startup_left c' < startup_left c"
  unfolding handshake_step_def
proof (elim disjE)
  assume "startLoop_step c c'"
  then show ?thesis by cases (simp_all add: startup_left_def)
next
  assume "body_step tid c c'"
  then show ?thesis
  proof cases
    case (body t t')
    from body(3) show ?thesis by cases (simp_all add: startup_left_def body)
  qed
next
  assume "ThreadFunc_step L False c c'"
  then show ?thesis by cases (auto simp: startup_left_def in_func_def)
qed

definition published :: "func_pc \<Rightarrow> bool" where
  "published f \<longleftrightarrow> f = LoopEntry \<or> f = LoopClear \<or> f = LoopBody"

definition handshake_inv :: "int \<Rightarrow> ptr \<Rightarrow> loop_thread \<Rightarrow> bool" where
  "handshake_inv tid L c \<longleftrightarrow>
     \<not> lt_quit c \<and> \<not> lt_exiting c \<and> lt_func c \<noteq> Unpublishing \<and> lt_func c \<noteq> FuncReturned \<and>
     lt_loop c = (if published (lt_func c) then Some L else None) \<and>
     (\<exists>t. lt_thread c = Some t \<and>
       (th_body t = InFunc \<and> th_promise t \<and> th_tid t = tid \<or>
        lt_func c = Constructing \<and> lt_owner c = AwaitTid \<and> \<not> th_promise t \<and>
        (th_body t = AtTid \<or> th_body t = AtSetValue \<and> th_tid t = tid))) \<and>
     (lt_owner c = AwaitTid \<or> lt_owner c = AwaitLoop \<or>
      published (lt_func c) \<and> (lt_owner c = ReadingLoop \<or> lt_owner c = HasLoop (Some L)))"

lemma handshake_start:
  assumes "startLoop (EventLoopThread_new n cb name) = Inr c"
  shows "handshake_inv tid L c"
  using assms
  by (auto simp: startLoop_def EventLoopThread_new_def guard_r_def Thread_new_def setDefaultName_def Thread_start_def
      Let_def handshake_inv_def published_def split: if_splits)

lemma handshake_step_inv:
  assumes "handshake_step tid L c c'" and inv: "handshake_inv tid L c"
  shows "handshake_inv tid L c'"
  using assms(1) unfolding handshake_step_def
proof (elim disjE)
  assume "startLoop_step c c'"
  then show ?thesis by cases (use inv in \<open>auto simp: handshake_inv_def split: if_splits\<close>)
next
  assume "body_step tid c c'"
  then show ?thesis
  proof cases
    case (body t t')
    from body(3) show ?thesis by cases (use inv body(1,2) in \<open>auto simp: handshake_inv_def\<close>)
  qed
next
  assume "ThreadFunc_step L False c c'"
  then show ?thesis by cases (use inv in \<open>auto simp: handshake_inv_def in_func_def published_def\<close>)
qed

lemma handshake_run_inv:
  "(handshake_step tid L)\<^sup>*\<^sup>* c c' \<Longrightarrow> handshake_inv tid L c \<Longrightarrow> handshake_inv tid L c'"
  by (induction rule: rtranclp_induct) (auto dest: handshake_step_inv)

lemma handshake_progress:
  assumes "handshake_inv tid L c" and stuck: "\<nexists>c'. handshake_step tid L c c'"
  shows "lt_owner c = HasLoop (Some L) \<and> lt_func c = LoopBody"
proof -
  from assms(1) obtain t where t: "lt_thread c = Some t" unfolding handshake_inv_def by blast
  have nb: "th_body t \<noteq> AtTid" "th_body t \<noteq> AtSetValue"
    using stuck t body_step.body thread_body.intros unfolding handshake_step_def by metis+
  with assms(1) t have inf: "in_func c" and pr: "th_promise t" by (auto simp: handshake_inv_def in_func_def)
  have func: "lt_func c = LoopBody"
    using stuck inf assms(1) ThreadFunc_step.intros [of c _ False] unfolding handshake_step_def handshake_inv_def
    by (cases "lt_func c") (blast | simp)+
  then have loop: "lt_loop c = Some L" using assms(1) by (simp add: handshake_inv_def published_def)
  have "lt_owner c \<noteq> AwaitTid" "lt_owner c \<noteq> AwaitLoop" "lt_owner c \<noteq> ReadingLoop"
    using stuck loop pr t startLoop_step.intros unfolding handshake_step_def by (metis option.distinct(1))+
  with func assms(1) show ?thesis by (auto simp: handshake_inv_def)
qed

section \<open>Properties\<close>



section \<open>Schedules without an end\<close>

lemma started_state:
  assumes "startLoop (EventLoopThread_new n cb name) = Inr c"
  obtains t where "lt_owner c = AwaitTid" "lt_func c = Constructing" "lt_thread c = Some t" "th_body t = AtTid"
    "th_started t" "\<not> th_joined t" "\<not> lt_exiting c" "\<not> lt_quit c" "lt_loop c = None" "lt_callback c = cb"
  using assms
  by (auto simp: startLoop_def EventLoopThread_new_def guard_r_def Thread_new_def setDefaultName_def Thread_start_def
      Let_def split: if_splits)

lemma life_start: "startLoop_step c c' \<Longrightarrow> life_step tid L quits c c'"
  and life_body: "lt_thread c = Some t \<Longrightarrow> thread_body tid t t' \<Longrightarrow> life_step tid L quits c (c\<lparr>lt_thread := Some t'\<rparr>)"
  and life_func: "ThreadFunc_step L quits c c' \<Longrightarrow> life_step tid L quits c c'"
  and life_end: "destructor_step c c' \<Longrightarrow> life_step tid L quits c c'"
  by (auto simp: life_step_def intro: body_step.body)

lemmas then_run = converse_rtranclp_into_rtranclp

text \<open>
  C36: destroying an event-loop thread right after \<open>startLoop\<close> can hang.  There is a schedule in
  which the destructor's \<open>quit\<close> falls between the first test of \<open>quit_\<close> in \<open>loop()\<close> and the store
  that clears it: the loop then runs on with \<open>quit_\<close> false, the destructor waits in \<open>join\<close>, and
  neither of the two threads can take another step.
\<close>

theorem destructor_can_hang:
  assumes "startLoop (EventLoopThread_new n False name) = Inr c0"
  shows "\<exists>c. (life_step tid L False)\<^sup>*\<^sup>* c0 c \<and> lt_owner c = Joining \<and> lt_func c = LoopBody \<and> \<not> lt_quit c \<and>
    (\<nexists>c'. life_step tid L False c c')"
proof -
  from started_state [OF assms] obtain t where [simp]: "lt_owner c0 = AwaitTid" "lt_func c0 = Constructing"
    "lt_thread c0 = Some t" "th_body t = AtTid" "th_started t" "\<not> th_joined t" "\<not> lt_exiting c0" "\<not> lt_quit c0"
    "lt_loop c0 = None" "\<not> lt_callback c0" by metis
  have "\<exists>c. (life_step tid L False)\<^sup>*\<^sup>* c0 c \<and> lt_owner c = Joining \<and> lt_func c = LoopBody \<and> \<not> lt_quit c \<and>
      (\<exists>t. lt_thread c = Some t \<and> th_body t = InFunc)"
    apply (intro exI conjI)
        apply (rule then_run, rule life_body, simp, rule get_tid, simp)
        apply (rule then_run, rule life_body, simp, rule set_value, simp)
        apply (rule then_run, rule life_start, rule tid_known, simp, simp, simp)
        apply (rule then_run, rule life_func, rule construct, simp add: in_func_def, simp)
        apply (rule then_run, rule life_func, rule go_on, simp add: in_func_def, simp, simp)
        apply (rule then_run, rule life_func, rule publish, simp add: in_func_def, simp)
        apply (rule then_run, rule life_start, rule loop_seen, simp, simp)
        apply (rule then_run, rule life_start, rule read_loop, simp)
        apply (rule then_run, rule life_func, rule enter, simp add: in_func_def, simp, simp)
        apply (rule then_run, rule life_end, rule set_exiting, simp)
        apply (rule then_run, rule life_end, rule a_loop, simp, simp)
        apply (rule then_run, rule life_end, rule quit, simp)
        apply (rule then_run, rule life_func, rule clear, simp add: in_func_def, simp)
        apply (rule then_run, rule life_end, rule join, simp, simp, simp add: Thread_join_def guard_r_def)
        apply (rule rtranclp.rtrancl_refl)
       apply simp_all
    apply simp
    done
  then obtain c t' where c: "(life_step tid L False)\<^sup>*\<^sup>* c0 c" "lt_owner c = Joining" "lt_func c = LoopBody" "\<not> lt_quit c"
    "lt_thread c = Some t'" "th_body t' = InFunc" by blast
  have "\<not> life_step tid L False c c'" for c'
    using c(2-6) unfolding life_step_def
    by (auto elim!: startLoop_step.cases body_step.cases thread_body.cases ThreadFunc_step.cases destructor_step.cases)
  with c show ?thesis by blast
qed

theorem destructor_can_hang_witness:
  "\<exists>c0 c. startLoop (EventLoopThread_new 0 False ''io'') = Inr c0 \<and> (life_step 77 9 False)\<^sup>*\<^sup>* c0 c \<and>
    lt_owner c = Joining \<and> (\<nexists>c'. life_step 77 9 False c c')"
proof -
  obtain c0 where c0: "startLoop (EventLoopThread_new 0 False ''io'') = Inr c0"
    by (simp add: startLoop_def EventLoopThread_new_def guard_r_def Thread_new_def setDefaultName_def Thread_start_def Let_def)
  from destructor_can_hang [OF c0, of 77 9] c0 show ?thesis by blast
qed

text \<open>
  An init callback that quits its loop can leave \<open>startLoop\<close> waiting for ever: the thread
  publishes and withdraws its loop before the owner has looked.
\<close>

lemma init_quit_can_hang:
  assumes "startLoop (EventLoopThread_new n True name) = Inr c0"
  shows "\<exists>c. (life_step tid L True)\<^sup>*\<^sup>* c0 c \<and> lt_owner c = AwaitLoop \<and> (\<nexists>c'. life_step tid L True c c')"
proof -
  from started_state [OF assms] obtain t where [simp]: "lt_owner c0 = AwaitTid" "lt_func c0 = Constructing"
    "lt_thread c0 = Some t" "th_body t = AtTid" "th_started t" "\<not> th_joined t" "\<not> lt_exiting c0" "\<not> lt_quit c0"
    "lt_loop c0 = None" "lt_callback c0" by metis
  have "\<exists>c. (life_step tid L True)\<^sup>*\<^sup>* c0 c \<and> lt_owner c = AwaitLoop \<and> lt_func c = FuncReturned \<and> lt_loop c = None \<and>
      (\<exists>t. lt_thread c = Some t \<and> th_body t = Exited)"
    apply (intro exI conjI)
        apply (rule then_run, rule life_body, simp, rule get_tid, simp)
        apply (rule then_run, rule life_body, simp, rule set_value, simp)
        apply (rule then_run, rule life_start, rule tid_known, simp, simp, simp)
        apply (rule then_run, rule life_func, rule construct, simp add: in_func_def, simp)
        apply (rule then_run, rule life_func, rule callback, simp add: in_func_def, simp)
        apply (rule then_run, rule life_func, rule go_on, simp add: in_func_def, simp, simp)
        apply (rule then_run, rule life_func, rule publish, simp add: in_func_def, simp)
        apply (rule then_run, rule life_func, rule enter_quit, simp add: in_func_def, simp, simp)
        apply (rule then_run, rule life_func, rule withdraw, simp add: in_func_def, simp)
        apply (rule rtranclp.rtrancl_refl)
       apply simp_all
    apply simp
    done
  then obtain c t' where c: "(life_step tid L True)\<^sup>*\<^sup>* c0 c" "lt_owner c = AwaitLoop" "lt_func c = FuncReturned"
    "lt_loop c = None" "lt_thread c = Some t'" "th_body t' = Exited" by blast
  have "\<not> life_step tid L True c c'" for c'
    using c(2-6) unfolding life_step_def
    by (auto elim!: startLoop_step.cases body_step.cases thread_body.cases ThreadFunc_step.cases destructor_step.cases)
  with c show ?thesis by blast
qed

end
