(* ===== verification/Logging.thy ===== *)
theory Logging
  imports Printing Timestamps
begin

text \<open>
  \<open>Timestamp::to_string\<close> (src/Timestamp.cc) and \<open>Logger\<close> with its macros (include/Logger.h,
  src/Logger.cc).  \<open>localtime\<close> is a parameter; the output is the list of lines written.  A
  formatted message is the text its format gives, before the cut to the macro's buffer.
\<close>

section \<open>Timestamp::to\_string\<close>

record tm =
  tm_year :: int
  tm_mon :: int
  tm_mday :: int
  tm_hour :: int
  tm_min :: int
  tm_sec :: int

text \<open>Integer division of C++, towards zero.\<close>

definition c_quot :: "int \<Rightarrow> int \<Rightarrow> int" where
  "c_quot a b = sgn a * sgn b * (\<bar>a\<bar> div \<bar>b\<bar>)"

fun us_of :: "Timestamp \<Rightarrow> int" where
  "us_of (Timestamp us) = us"

definition to_string :: "(int \<Rightarrow> tm) \<Rightarrow> Timestamp \<Rightarrow> string" where
  "to_string localtime ts =
     (let seconds = c_quot (us_of ts) 1000000;
          t = localtime seconds
      in snprintf 128
           (pad 4 CHR '' '' (dec_int (tm_year t + 1900)) @ CHR ''/'' #
            pad 2 CHR ''0'' (dec_int (tm_mon t + 1)) @ CHR ''/'' #
            pad 2 CHR ''0'' (dec_int (tm_mday t)) @ CHR '' '' #
            pad 2 CHR ''0'' (dec_int (tm_hour t)) @ CHR ''/'' #
            pad 2 CHR ''0'' (dec_int (tm_min t)) @ CHR ''/'' #
            pad 2 CHR ''0'' (dec_int (tm_sec t))))"

text \<open>What \<open>localtime\<close> documents of its result, for the years 0 to 9999.\<close>

definition tm_ok :: "tm \<Rightarrow> bool" where
  "tm_ok t \<longleftrightarrow> -1900 \<le> tm_year t \<and> tm_year t \<le> 8099 \<and> 0 \<le> tm_mon t \<and> tm_mon t \<le> 11 \<and>
     1 \<le> tm_mday t \<and> tm_mday t \<le> 31 \<and> 0 \<le> tm_hour t \<and> tm_hour t \<le> 23 \<and>
     0 \<le> tm_min t \<and> tm_min t \<le> 59 \<and> 0 \<le> tm_sec t \<and> tm_sec t \<le> 60"

lemma length_pad: "length (pad k c s) = max k (length s)"
  by (simp add: pad_def)

lemma undec_pad:
  assumes "(of_char c :: nat) \<le> 48"
  shows "undec (pad k c s) = undec s"
proof -
  have "foldl (\<lambda>a c. 10 * a + (of_char c - 48)) 0 (replicate n c) = (0 :: nat)" for n
    using assms by (induction n) (simp_all add: replicate_append_same [symmetric] del: replicate.simps(2), simp)
  then show ?thesis by (simp add: undec_def pad_def)
qed

lemma field:
  assumes "0 \<le> i" and "i < 10 ^ k" and "0 < k" and "(of_char c :: nat) \<le> 48"
  shows "length (pad k c (dec_int i)) = k" and "undec (pad k c (dec_int i)) = nat i"
proof -
  have "nat i < 10 ^ k" using assms(1,2) by (simp add: nat_less_iff)
  from length_dec [OF this assms(3)] assms show "length (pad k c (dec_int i)) = k"
    by (simp add: length_pad dec_int_def)
  show "undec (pad k c (dec_int i)) = nat i" using assms by (simp add: undec_pad dec_int_def)
qed

text \<open>Reading the fields back from their columns.\<close>

definition column :: "nat \<Rightarrow> nat \<Rightarrow> string \<Rightarrow> int" where
  "column i k s = int (undec (take k (drop i s)))"

definition parse_tm :: "string \<Rightarrow> tm" where
  "parse_tm s = \<lparr>tm_year = column 0 4 s - 1900, tm_mon = column 5 2 s - 1, tm_mday = column 8 2 s,
     tm_hour = column 11 2 s, tm_min = column 14 2 s, tm_sec = column 17 2 s\<rparr>"

lemma to_string_parts:
  assumes "tm_ok t" and "t = localtime (c_quot (us_of ts) 1000000)"
  shows "length (to_string localtime ts) = 19" and "parse_tm (to_string localtime ts) = t"
proof -
  define y mo d h mi se where "y = pad 4 CHR '' '' (dec_int (tm_year t + 1900))"
    and "mo = pad 2 CHR ''0'' (dec_int (tm_mon t + 1))" and "d = pad 2 CHR ''0'' (dec_int (tm_mday t))"
    and "h = pad 2 CHR ''0'' (dec_int (tm_hour t))" and "mi = pad 2 CHR ''0'' (dec_int (tm_min t))"
    and "se = pad 2 CHR ''0'' (dec_int (tm_sec t))"
  note parts = y_def mo_def d_def h_def mi_def se_def
  have len: "length y = 4" "length mo = 2" "length d = 2" "length h = 2" "length mi = 2" "length se = 2"
    using assms(1) by (auto simp: parts tm_ok_def intro!: field(1))
  have val: "undec y = nat (tm_year t + 1900)" "undec mo = nat (tm_mon t + 1)" "undec d = nat (tm_mday t)"
    "undec h = nat (tm_hour t)" "undec mi = nat (tm_min t)" "undec se = nat (tm_sec t)"
    using assms(1) by (auto simp: parts tm_ok_def intro!: field(2))
  have body: "to_string localtime ts = y @ CHR ''/'' # mo @ CHR ''/'' # d @ CHR '' '' # h @ CHR ''/'' # mi @ CHR ''/'' # se"
    unfolding to_string_def Let_def assms(2) [symmetric] parts [symmetric] by (rule snprintf_fits) (simp add: len)
  then show "length (to_string localtime ts) = 19" by (simp add: len)
  show "parse_tm (to_string localtime ts) = t"
    using assms(1) unfolding body by (intro tm.equality) (simp_all add: parse_tm_def column_def len val tm_ok_def)
qed

section \<open>Logger\<close>

datatype LogLevel = INFO | ERROR | FATAL | DEBUG

record logger =
  log_level :: LogLevel
  out :: "string list"

definition setLogLevel :: "LogLevel \<Rightarrow> logger \<Rightarrow> logger" where
  "setLogLevel l L = L\<lparr>log_level := l\<rparr>"

fun level_prefix :: "LogLevel \<Rightarrow> string" where
  "level_prefix INFO = ''[INFO]''"
| "level_prefix ERROR = ''[ERROR]''"
| "level_prefix FATAL = ''[FATAL]''"
| "level_prefix DEBUG = ''[DEBUG]''"

text \<open>\<open>now\<close> is \<open>Timestamp::now().to_string()\<close>.\<close>

definition log :: "string \<Rightarrow> string \<Rightarrow> logger \<Rightarrow> logger" where
  "log now msg L = L\<lparr>out := out L @ [level_prefix (log_level L) @ now @ CHR '':'' # msg]\<rparr>"

definition LOG_INFO :: "string \<Rightarrow> string \<Rightarrow> logger \<Rightarrow> logger" where
  "LOG_INFO now msg L = log now (snprintf 1024 msg) (setLogLevel INFO L)"

definition LOG_ERROR :: "string \<Rightarrow> string \<Rightarrow> logger \<Rightarrow> logger" where
  "LOG_ERROR now msg L = log now (snprintf 1024 msg) (setLogLevel ERROR L)"

text \<open>The process exits after the line is written.\<close>

definition LOG_FATAL :: "string \<Rightarrow> string \<Rightarrow> logger \<Rightarrow> error \<times> logger" where
  "LOG_FATAL now msg L = (FatalExit, log now (snprintf 1024 msg) (setLogLevel FATAL L))"

text \<open>\<open>mudebug\<close> says whether the macro \<open>MUDEBUG\<close> is defined.\<close>

definition LOG_DEBUG :: "bool \<Rightarrow> string \<Rightarrow> string \<Rightarrow> logger \<Rightarrow> logger" where
  "LOG_DEBUG mudebug now msg L =
     (if mudebug then log now (snprintf 1024 msg) (setLogLevel DEBUG L) else L)"

fun log_call :: "bool \<Rightarrow> LogLevel \<times> string \<times> string \<Rightarrow> logger \<Rightarrow> logger" where
  "log_call mudebug (INFO, now, msg) L = LOG_INFO now msg L"
| "log_call mudebug (ERROR, now, msg) L = LOG_ERROR now msg L"
| "log_call mudebug (FATAL, now, msg) L = snd (LOG_FATAL now msg L)"
| "log_call mudebug (DEBUG, now, msg) L = LOG_DEBUG mudebug now msg L"

lemmas log_defs = LOG_INFO_def LOG_ERROR_def LOG_FATAL_def LOG_DEBUG_def log_def setLogLevel_def

text \<open>
  The macros in several threads: setting the level and writing the line are two accesses to the
  one logger; \<open>waiting\<close> are the threads between them.
\<close>

record log_config =
  lg :: logger
  waiting :: "nat \<rightharpoonup> LogLevel \<times> string \<times> string"

inductive log_step :: "log_config \<Rightarrow> log_config \<Rightarrow> bool" where
  set_level: "waiting c t = None \<Longrightarrow>
     log_step c (c\<lparr>lg := setLogLevel l (lg c), waiting := (waiting c)(t \<mapsto> (l, now, msg))\<rparr>)"
| emit: "waiting c t = Some (l, now, msg) \<Longrightarrow>
     log_step c (c\<lparr>lg := log now (snprintf 1024 msg) (lg c), waiting := (waiting c)(t := None)\<rparr>)"

text \<open>An error reported by one thread can come out labelled as information of another.\<close>

lemma log_label_race:
  assumes "waiting c = Map.empty"
  shows "\<exists>c'. log_step\<^sup>*\<^sup>* c c' \<and> waiting c' = Map.empty \<and>
    out (lg c') = out (lg c) @ [''[INFO]now:disk full'', ''[INFO]now:hello'']"
proof -
  let ?e = "(ERROR, ''now'', ''disk full'')" and ?i = "(INFO, ''now'', ''hello'')"
  define c1 where "c1 = c\<lparr>lg := setLogLevel ERROR (lg c), waiting := (waiting c)(0 \<mapsto> ?e)\<rparr>"
  define c2 where "c2 = c1\<lparr>lg := setLogLevel INFO (lg c1), waiting := (waiting c1)(1 \<mapsto> ?i)\<rparr>"
  define c3 where "c3 = c2\<lparr>lg := log ''now'' (snprintf 1024 ''disk full'') (lg c2), waiting := (waiting c2)(0 := None)\<rparr>"
  define c4 where "c4 = c3\<lparr>lg := log ''now'' (snprintf 1024 ''hello'') (lg c3), waiting := (waiting c3)(1 := None)\<rparr>"
  have "log_step c c1" unfolding c1_def by (rule set_level) (simp add: assms)
  moreover have "log_step c1 c2" unfolding c2_def by (rule set_level) (simp add: c1_def assms)
  moreover have "log_step c2 c3" unfolding c3_def by (rule emit [of _ _ ERROR]) (simp add: c2_def c1_def)
  moreover have "log_step c3 c4" unfolding c4_def by (rule emit [of _ _ INFO]) (simp add: c3_def c2_def)
  ultimately have "log_step\<^sup>*\<^sup>* c c4" by (meson converse_rtranclp_into_rtranclp rtranclp.rtrancl_refl)
  moreover have "waiting c4 = Map.empty" by (simp add: c4_def c3_def c2_def c1_def assms)
  moreover have "out (lg c4) = out (lg c) @ [''[INFO]now:disk full'', ''[INFO]now:hello'']"
    by (simp add: c4_def c3_def c2_def c1_def log_def setLogLevel_def)
  ultimately show ?thesis by blast
qed

section \<open>Properties\<close>

text \<open>
  A printed time is faithful.  For every broken-down time in the documented ranges and a
  four-digit year, \<open>to_string\<close> gives exactly 19 characters, far from the end of its buffer, and
  reading the columns back gives the broken-down time again.
\<close>

lemma to_string_roundtrip:
  assumes "tm_ok (localtime (c_quot (us_of ts) 1000000))"
  shows "length (to_string localtime ts) = 19 \<and>
    parse_tm (to_string localtime ts) = localtime (c_quot (us_of ts) 1000000)"
  using to_string_parts [OF assms, of localtime ts] by simp

text \<open>
  A log line.  A sequence of log macros of one thread writes one line per call, in order:
  the label of its own level, the time, a colon and the message cut to 1023 characters; debug
  messages are written only in builds with \<open>MUDEBUG\<close>; a fatal message is written before the
  process exits.
\<close>

lemma log_lines:
  "out (fold (log_call mudebug) calls L) = out L @
     map (\<lambda>(l, now, msg). level_prefix l @ now @ CHR '':'' # take 1023 msg)
       (filter (\<lambda>(l, _). l \<noteq> DEBUG \<or> mudebug) calls) \<and>
   fst (LOG_FATAL now msg L) = FatalExit"
proof -
  have one: "out (log_call mudebug (l, now, msg) L) =
      out L @ (if l \<noteq> DEBUG \<or> mudebug then [level_prefix l @ now @ CHR '':'' # take 1023 msg] else [])" for l now msg L
    by (cases l) (simp_all add: log_defs snprintf_def)
  have "out (fold (log_call mudebug) calls L) = out L @
     map (\<lambda>(l, now, msg). level_prefix l @ now @ CHR '':'' # take 1023 msg)
       (filter (\<lambda>(l, _). l \<noteq> DEBUG \<or> mudebug) calls)"
  proof (induction calls arbitrary: L)
    case (Cons x calls)
    obtain l now msg where "x = (l, now, msg)" by (cases x)
    with Cons one [of l now msg L] show ?case by (auto simp del: log_call.simps)
  qed simp
  then show ?thesis by (simp add: LOG_FATAL_def)
qed


end
